(* ===== verification/LQ_Prelude.thy ===== *)
theory LQ_Prelude
  imports Main "HOL-Library.Word" "HOL-Library.Char_ord" "HOL-Library.List_Lexorder"
    "HOL-Library.Multiset" "HOL-Library.Sublist"
begin

section \<open>Shared types, errors and list lemmas\<close>

text \<open>
  What every component of the engine shares: the exceptions of the C++ code as values, the
  bind of a computation that may throw, the decimal rendering of integers
  (\<open>std::to_string\<close>), the \<open><cctype>\<close> classification of bytes in the C locale, and the
  lemma collections that the component theories feed (\<open>res_simps\<close> for the error monad,
  \<open>chr_simps\<close> for byte classification).
\<close>

named_theorems res_simps \<open>rewrite rules of the error monad\<close>
named_theorems chr_simps \<open>classification of bytes\<close>

subsection \<open>Errors\<close>

text \<open>
  One constructor per exception class that the sources throw, with its message, and two that
  are not exceptions: \<open>Undefined\<close> is reached where the C++ code runs into undefined
  behaviour (signed overflow, an index out of a vector, a failed \<open>assert\<close>, a null pointer),
  and \<open>OutOfFuel\<close> where a fuelled loop of the model stops early; the latter is proved
  unreachable for enough fuel.
\<close>

datatype error =
    RuntimeError string
  | BadVariantAccess
  | EvalError string
  | BuildError string
  | PersistenceError string
  | CsvError string
  | ParseError string "32 word" "32 word"
  | LogicError string
  | OutOfRange string
  | InvalidArgument string
  | Undefined string
  | OutOfFuel

type_synonym 'a res = "error + 'a"

abbreviation Throw :: "error \<Rightarrow> 'a res" where "Throw \<equiv> Inl"
abbreviation Ok :: "'a \<Rightarrow> 'a res" where "Ok \<equiv> Inr"

definition is_exception :: "error \<Rightarrow> bool" where
  "is_exception e = (case e of Undefined _ \<Rightarrow> False | OutOfFuel \<Rightarrow> False | _ \<Rightarrow> True)"

definition rbind :: "'a res \<Rightarrow> ('a \<Rightarrow> 'b res) \<Rightarrow> 'b res" where
  "rbind m f = (case m of Inl e \<Rightarrow> Inl e | Inr x \<Rightarrow> f x)"

lemma rbind_Inl [simp, code, res_simps]: "rbind (Inl e) f = Inl e"
  by (simp add: rbind_def)

lemma rbind_Inr [simp, code, res_simps]: "rbind (Inr x) f = f x"
  by (simp add: rbind_def)

lemma rbind_cong [fundef_cong]:
  "m = m' \<Longrightarrow> (\<And>x. m' = Inr x \<Longrightarrow> f x = g x) \<Longrightarrow> rbind m f = rbind m' g"
  by (cases m') (auto simp: rbind_def)

lemma rbind_eq_Inr [res_simps]: "(rbind m f = Inr y) = (\<exists>x. m = Inr x \<and> f x = Inr y)"
  by (cases m) auto

lemma rbind_eq_Inl [res_simps]:
  "(rbind m f = Inl e) = (m = Inl e \<or> (\<exists>x. m = Inr x \<and> f x = Inl e))"
  by (cases m) auto

lemma rbind_assoc: "rbind (rbind m f) g = rbind m (\<lambda>x. rbind (f x) g)"
  by (cases m) auto

lemma rbind_Ok_right [simp]: "rbind m Inr = m"
  by (cases m) auto

lemma rbindE:
  assumes "rbind m f = Inr y"
  obtains x where "m = Inr x" "f x = Inr y"
  using assms by (cases m) auto

lemma rbind_mono_Inr: "m = Inr x \<Longrightarrow> rbind m f = f x"
  by simp

definition rmap :: "('a \<Rightarrow> 'b) \<Rightarrow> 'a res \<Rightarrow> 'b res" where
  "rmap f m = rbind m (\<lambda>x. Inr (f x))"

lemma rmap_simps [simp, code, res_simps]:
  "rmap f (Inl e) = Inl e" "rmap f (Inr x) = Inr (f x)"
  by (simp_all add: rmap_def)

lemma rmap_eq_Inr [res_simps]: "(rmap f m = Inr y) = (\<exists>x. m = Inr x \<and> y = f x)"
  by (cases m) auto

lemma rmap_eq_Inl [res_simps]: "(rmap f m = Inl e) = (m = Inl e)"
  by (cases m) auto

lemma rmap_cong [fundef_cong]:
  "m = m' \<Longrightarrow> (\<And>x. m' = Inr x \<Longrightarrow> f x = g x) \<Longrightarrow> rmap f m = rmap g m'"
  by (cases m') auto

text \<open>A loop that applies a throwing function to every element, in order.\<close>

fun rmapM :: "('a \<Rightarrow> 'b res) \<Rightarrow> 'a list \<Rightarrow> 'b list res" where
  "rmapM f [] = Inr []"
| "rmapM f (x # xs) = rbind (f x) (\<lambda>y. rbind (rmapM f xs) (\<lambda>ys. Inr (y # ys)))"

lemma rmapM_cong [fundef_cong]:
  "xs = ys \<Longrightarrow> (\<And>x. x \<in> set ys \<Longrightarrow> f x = g x) \<Longrightarrow> rmapM f xs = rmapM g ys"
  by (induction ys arbitrary: xs) (auto intro: rbind_cong)

lemma rmapM_length: "rmapM f xs = Inr ys \<Longrightarrow> length ys = length xs"
  by (induction xs arbitrary: ys) (auto simp: res_simps)

lemma rmapM_Inr_iff:
  "(rmapM f xs = Inr ys) = list_all2 (\<lambda>x y. f x = Inr y) xs ys"
proof (induction xs arbitrary: ys)
  case Nil
  then show ?case by (cases ys) auto
next
  case (Cons x xs)
  then show ?case by (cases ys) (auto simp: res_simps)
qed

lemma rmapM_append:
  "rmapM f (xs @ ys) = rbind (rmapM f xs) (\<lambda>as. rbind (rmapM f ys) (\<lambda>bs. Inr (as @ bs)))"
  by (induction xs) (auto simp: rbind_assoc)

lemma rmapM_Inr_map: "(\<And>x. x \<in> set xs \<Longrightarrow> f x = Inr (g x)) \<Longrightarrow> rmapM f xs = Inr (map g xs)"
  by (induction xs) auto

text \<open>Filtering with a predicate that may throw, in order.\<close>

fun rfilter :: "('a \<Rightarrow> bool res) \<Rightarrow> 'a list \<Rightarrow> 'a list res" where
  "rfilter p [] = Inr []"
| "rfilter p (x # xs) =
     rbind (p x) (\<lambda>b. rbind (rfilter p xs) (\<lambda>ys. Inr (if b then x # ys else ys)))"

lemma rfilter_append:
  "rfilter p (xs @ ys) = rbind (rfilter p xs) (\<lambda>as. rbind (rfilter p ys) (\<lambda>bs. Inr (as @ bs)))"
proof (induction xs)
  case Nil
  then show ?case by simp
next
  case (Cons x xs)
  then show ?case
    by (cases "p x"; cases "rfilter p xs"; cases "rfilter p ys") auto
qed

lemma rfilter_Inr_filter:
  "(\<And>x. x \<in> set xs \<Longrightarrow> p x = Inr (q x)) \<Longrightarrow> rfilter p xs = Inr (filter q xs)"
  by (induction xs) auto

lemma rfilter_length: "rfilter p xs = Inr ys \<Longrightarrow> length ys \<le> length xs"
  by (induction xs arbitrary: ys) (force simp: res_simps split: if_splits)+

lemma rfilter_set: "rfilter p xs = Inr ys \<Longrightarrow> set ys \<subseteq> set xs"
  by (induction xs arbitrary: ys) (force simp: res_simps split: if_splits)+

lemma rfilter_iff:
  "rfilter p xs = Inr ys \<Longrightarrow> ys = filter (\<lambda>x. p x = Inr True) xs"
  by (induction xs arbitrary: ys) (auto simp: res_simps)

text \<open>A left fold whose step may throw: the loops that thread an accumulator.\<close>

fun rfold :: "('b \<Rightarrow> 'a \<Rightarrow> 'b res) \<Rightarrow> 'b \<Rightarrow> 'a list \<Rightarrow> 'b res" where
  "rfold f b [] = Inr b"
| "rfold f b (x # xs) = rbind (f b x) (\<lambda>b'. rfold f b' xs)"

lemma rfold_append: "rfold f b (xs @ ys) = rbind (rfold f b xs) (\<lambda>b'. rfold f b' ys)"
  by (induction xs arbitrary: b) (auto simp: rbind_assoc)

lemma rfold_snoc: "rfold f b (xs @ [x]) = rbind (rfold f b xs) (\<lambda>b'. f b' x)"
  by (simp add: rfold_append)

lemma rfold_cong [fundef_cong]:
  "b = b' \<Longrightarrow> xs = ys \<Longrightarrow> (\<And>c x. x \<in> set ys \<Longrightarrow> f c x = g c x) \<Longrightarrow> rfold f b xs = rfold g b' ys"
  by (induction ys arbitrary: xs b b') (auto intro: rbind_cong)

lemma rfold_inv:
  assumes "rfold f b xs = Inr c" and "P b"
    and "\<And>b x b'. x \<in> set xs \<Longrightarrow> P b \<Longrightarrow> f b x = Inr b' \<Longrightarrow> P b'"
  shows "P c"
  using assms
proof (induction xs arbitrary: b)
  case Nil
  then show ?case by simp
next
  case (Cons x xs)
  from Cons.prems(1) obtain b' where b': "f b x = Inr b'" "rfold f b' xs = Inr c"
    by (auto simp: res_simps)
  then have "P b'" using Cons.prems(2,3) by (meson list.set_intros(1))
  with b'(2) Cons show ?case by (meson list.set_intros(2))
qed

subsection \<open>Fuel\<close>

text \<open>
  A fuelled loop returns \<open>OutOfFuel\<close> when it was given too little. \<open>fuel_le a b\<close> says that \<open>b\<close>,
  computed with more fuel, is \<open>a\<close> unless \<open>a\<close> ran out; it is kept by the monad, so that for
  every fuelled function more fuel does not change a result or an exception.
\<close>

definition fuel_le :: "'a res \<Rightarrow> 'a res \<Rightarrow> bool" where
  "fuel_le a b = (a = Inl OutOfFuel \<or> a = b)"

lemma fuel_le_refl: "fuel_le a a"
  by (simp add: fuel_le_def)

lemma fuel_le_out: "fuel_le (Inl OutOfFuel) a"
  by (simp add: fuel_le_def)

lemma fuel_le_rbind:
  "fuel_le a b \<Longrightarrow> (\<And>x. fuel_le (f x) (g x)) \<Longrightarrow> fuel_le (rbind a f) (rbind b g)"
  by (cases a; cases b) (auto simp: fuel_le_def)

lemma fuel_le_rmap: "fuel_le a b \<Longrightarrow> fuel_le (rmap f a) (rmap f b)"
  by (cases a; cases b) (auto simp: fuel_le_def)

lemma fuel_le_if:
  "(P \<Longrightarrow> fuel_le a b) \<Longrightarrow> (\<not> P \<Longrightarrow> fuel_le c d) \<Longrightarrow> fuel_le (if P then a else c) (if P then b else d)"
  by simp

lemma fuel_le_prod:
  "(\<And>x y. fuel_le (f x y) (g x y)) \<Longrightarrow> fuel_le (case_prod f p) (case_prod g p)"
  by (cases p) simp

lemmas fuel_le_steps = fuel_le_rbind fuel_le_rmap fuel_le_if fuel_le_prod

lemma fuel_le_Inr: "fuel_le a b \<Longrightarrow> a = Inr x \<Longrightarrow> b = Inr x"
  by (auto simp: fuel_le_def)

subsection \<open>Reading a vector\<close>

text \<open>\<open>v[i]\<close>: undefined behaviour beyond the end of the vector.\<close>

definition vec_at :: "'a list \<Rightarrow> nat \<Rightarrow> 'a res" where
  "vec_at xs i = (if i < length xs then Inr (xs ! i) else Inl (Undefined ''vector index''))"

lemma vec_at_in [simp]: "i < length xs \<Longrightarrow> vec_at xs i = Inr (xs ! i)"
  by (simp add: vec_at_def)

lemma vec_at_Inr: "(vec_at xs i = Inr x) = (i < length xs \<and> xs ! i = x)"
  by (auto simp: vec_at_def)

subsection \<open>The interface of append-only stores\<close>

text \<open>
  A bitmap, a column, and a batch grow at the end only. Their common contract: \<open>push\<close>
  converts its argument with \<open>conv\<close>, which may throw, and appends the result to the
  abstract contents \<open>abs\<close>. What a loop of pushes does follows once and for all.
\<close>

locale append_store =
  fixes invar :: "'s \<Rightarrow> bool"
    and push :: "'s \<Rightarrow> 'b \<Rightarrow> 's res"
    and abs :: "'s \<Rightarrow> 'a list"
    and conv :: "'b \<Rightarrow> 'a res"
  assumes push_Inr:
      "invar s \<Longrightarrow> conv x = Inr y \<Longrightarrow> \<exists>s'. push s x = Inr s' \<and> invar s' \<and> abs s' = abs s @ [y]"
    and push_Inl: "invar s \<Longrightarrow> conv x = Inl e \<Longrightarrow> push s x = Inl e"
begin

lemma push_all:
  "invar s \<Longrightarrow> rmapM conv xs = Inr ys \<Longrightarrow>
     \<exists>s'. rfold push s xs = Inr s' \<and> invar s' \<and> abs s' = abs s @ ys"
proof (induction xs arbitrary: s ys)
  case (Cons x xs)
  from Cons.prems(2) obtain y zs where c: "conv x = Inr y" "rmapM conv xs = Inr zs" "ys = y # zs"
    by (auto simp: res_simps)
  from push_Inr [OF Cons.prems(1) c(1)] obtain s1
    where s1: "push s x = Inr s1" "invar s1" "abs s1 = abs s @ [y]" by blast
  from Cons.IH [OF s1(2) c(2)] s1 c(3) show ?case by auto
qed simp

lemma push_all_throws:
  "invar s \<Longrightarrow> rmapM conv xs = Inl e \<Longrightarrow> rfold push s xs = Inl e"
proof (induction xs arbitrary: s)
  case (Cons x xs)
  show ?case
  proof (cases "conv x")
    case (Inl e')
    with push_Inl [OF Cons.prems(1) Inl] Cons.prems(2) show ?thesis by simp
  next
    case (Inr y)
    from push_Inr [OF Cons.prems(1) Inr] obtain s' where s': "push s x = Inr s'" "invar s'" by blast
    from Inr Cons.prems(2) have "rmapM conv xs = Inl e" by (auto simp: res_simps)
    from Cons.IH [OF s'(2) this] s'(1) show ?thesis by simp
  qed
qed simp

end

end
