(* ===== verification/LQ_Text.thy ===== *)
theory LQ_Text
  imports LQ_Prelude
begin

section \<open>Bytes, character classes and decimal text\<close>

text \<open>
  Strings of the code are byte strings, here HOL's \<open>string\<close> (a list of 8-bit characters).
  The \<open><cctype>\<close> functions are those of the C locale; \<open>std::to_string\<close> of an integer is
  its decimal rendering. The order of \<open>std::string\<close> (bytewise, a proper prefix first) is the
  lexicographic order of \<open>List_Lexorder\<close> over \<open>Char_ord\<close>.
\<close>

abbreviation byte :: "char \<Rightarrow> nat" where
  "byte c \<equiv> of_char c"

definition isdigit :: "char \<Rightarrow> bool" where
  "isdigit c = (48 \<le> byte c \<and> byte c \<le> 57)"

definition isupper :: "char \<Rightarrow> bool" where
  "isupper c = (65 \<le> byte c \<and> byte c \<le> 90)"

definition islower :: "char \<Rightarrow> bool" where
  "islower c = (97 \<le> byte c \<and> byte c \<le> 122)"

definition isalpha :: "char \<Rightarrow> bool" where
  "isalpha c = (isupper c \<or> islower c)"

definition isalnum :: "char \<Rightarrow> bool" where
  "isalnum c = (isalpha c \<or> isdigit c)"

definition isspace :: "char \<Rightarrow> bool" where
  "isspace c = (byte c = 32 \<or> (9 \<le> byte c \<and> byte c \<le> 13))"

definition tolower :: "char \<Rightarrow> char" where
  "tolower c = (if isupper c then char_of (byte c + 32) else c)"

definition toupper :: "char \<Rightarrow> char" where
  "toupper c = (if islower c then char_of (byte c - 32) else c)"

lemmas class_defs [chr_simps] =
  isdigit_def isupper_def islower_def isalpha_def isalnum_def isspace_def
  tolower_def toupper_def

lemma byte_less [simp]: "byte c < 256"
  using nat_of_char_less_256 [of c] by simp

lemma byte_inject: "byte c = byte d \<Longrightarrow> c = d"
  by simp

lemma tolower_idem [simp]: "tolower (tolower c) = tolower c"
  by (simp add: tolower_def isupper_def)

lemma toupper_idem [simp]: "toupper (toupper c) = toupper c"
  by (auto simp: toupper_def islower_def)

lemma tolower_toupper [simp]: "tolower (toupper c) = tolower c"
  by (auto simp: tolower_def toupper_def isupper_def islower_def)

subsection \<open>Decimal rendering of integers\<close>

definition digit_char :: "nat \<Rightarrow> char" where
  "digit_char d = char_of (48 + d)"

definition digit_val :: "char \<Rightarrow> nat" where
  "digit_val c = byte c - 48"

fun nat_string :: "nat \<Rightarrow> string" where
  "nat_string n = (if n < 10 then [digit_char n] else nat_string (n div 10) @ [digit_char (n mod 10)])"

declare nat_string.simps [simp del]

definition int_string :: "int \<Rightarrow> string" where
  "int_string i = (if i < 0 then CHR ''-'' # nat_string (nat (- i)) else nat_string (nat i))"

text \<open>The value of a digit string, most significant digit first.\<close>

definition digits_val :: "string \<Rightarrow> nat" where
  "digits_val s = foldl (\<lambda>n c. 10 * n + digit_val c) 0 s"

text \<open>A text between single quotes, for messages.\<close>

definition quoted :: "string \<Rightarrow> string" where
  "quoted s = CHR 0x27 # s @ [CHR 0x27]"

lemma digit_val_char [simp]: "d < 10 \<Longrightarrow> digit_val (digit_char d) = d"
  by (simp add: digit_val_def digit_char_def)

lemma isdigit_digit_char [simp]: "d < 10 \<Longrightarrow> isdigit (digit_char d)"
  by (simp add: isdigit_def digit_char_def)

lemma digit_char_val: "isdigit c \<Longrightarrow> digit_char (digit_val c) = c"
  by (simp add: isdigit_def digit_char_def digit_val_def)

lemma digit_val_less: "isdigit c \<Longrightarrow> digit_val c < 10"
  unfolding isdigit_def digit_val_def by linarith

lemma digits_val_Nil [simp]: "digits_val [] = 0"
  by (simp add: digits_val_def)

lemma digits_val_snoc [simp]: "digits_val (s @ [c]) = 10 * digits_val s + digit_val c"
  by (simp add: digits_val_def)

lemma digits_val_nat_string [simp]: "digits_val (nat_string n) = n"
proof (induction n rule: nat_string.induct)
  case (1 n)
  show ?case
  proof (cases "n < 10")
    case True
    then show ?thesis
      by (simp add: nat_string.simps [of n] digits_val_def)
  next
    case False
    with 1 show ?thesis by (simp add: nat_string.simps [of n])
  qed
qed

lemma nat_string_inject [simp]: "(nat_string m = nat_string n) = (m = n)"
  by (metis digits_val_nat_string)

lemma nat_string_nonempty [simp]: "nat_string n \<noteq> []"
  by (subst nat_string.simps) simp

lemma nat_string_digits: "c \<in> set (nat_string n) \<Longrightarrow> isdigit c"
proof (induction n rule: nat_string.induct)
  case (1 n)
  then show ?case
    by (cases "n < 10") (auto simp: nat_string.simps [of n])
qed

lemma nat_string_hd_digit: "isdigit (hd (nat_string n))"
  using nat_string_digits [OF hd_in_set [OF nat_string_nonempty [of n]]] .

lemma not_isdigit_minus [simp]: "\<not> isdigit (CHR ''-'')"
  by (simp add: isdigit_def)

lemma int_string_inject [simp]: "(int_string i = int_string j) = (i = j)"
proof
  assume eq: "int_string i = int_string j"
  have no: "nat_string m \<noteq> CHR ''-'' # s" for m s
    using nat_string_hd_digit [of m] by auto
  from eq show "i = j"
    using no by (auto simp: int_string_def split: if_splits dest: sym)
qed simp

lemma int_string_chars: "c \<in> set (int_string i) \<Longrightarrow> isdigit c \<or> c = CHR ''-''"
  by (auto simp: int_string_def dest: nat_string_digits split: if_splits)

lemma int_string_nonempty [simp]: "int_string i \<noteq> []"
  by (simp add: int_string_def)

subsection \<open>Case-insensitive comparison\<close>

text \<open>
  \<open>strncasecmp(a, b, n) == 0\<close>: the first \<open>n\<close> bytes up to a NUL, compared after
  \<open>tolower\<close>.
\<close>

definition cstring :: "string \<Rightarrow> string" where
  "cstring s = takeWhile (\<lambda>c. c \<noteq> CHR 0x00) s"

definition strncasecmp_eq :: "string \<Rightarrow> string \<Rightarrow> nat \<Rightarrow> bool" where
  "strncasecmp_eq a b n = (map tolower (cstring (take n a)) = map tolower (cstring (take n b)))"

definition ci_eq :: "string \<Rightarrow> string \<Rightarrow> bool" where
  "ci_eq a b = (length a = length b \<and> strncasecmp_eq a b (length b))"

lemma ci_eq_alt:
  "ci_eq a b = (length a = length b \<and> map tolower (cstring a) = map tolower (cstring b))"
proof (cases "length a = length b")
  case True
  then have "take (length b) a = a" by simp
  then show ?thesis by (simp add: ci_eq_def strncasecmp_eq_def)
qed (simp add: ci_eq_def)

lemma ci_eq_refl [simp]: "ci_eq a a"
  by (simp add: ci_eq_alt)

lemma ci_eq_sym: "ci_eq a b \<Longrightarrow> ci_eq b a"
  by (simp add: ci_eq_alt)

lemma ci_eq_trans: "ci_eq a b \<Longrightarrow> ci_eq b c \<Longrightarrow> ci_eq a c"
  by (simp add: ci_eq_alt)

lemma ci_eq_iff_lower:
  "CHR 0x00 \<notin> set a \<Longrightarrow> CHR 0x00 \<notin> set b \<Longrightarrow> ci_eq a b = (map tolower a = map tolower b)"
proof -
  assume "CHR 0x00 \<notin> set a" "CHR 0x00 \<notin> set b"
  then have "cstring a = a" "cstring b = b"
    by (auto simp: cstring_def)
  then show ?thesis
    by (auto simp: ci_eq_alt dest: map_eq_imp_length_eq)
qed

end
