(* ===== verification/LQ_Float.thy ===== *)
theory LQ_Float
  imports LQ_Text
begin

section \<open>The C++ type double\<close>

text \<open>
  The engine computes with IEEE-754 binary64 values (\<open>double\<close>) and its storage and file format
  keep their bit patterns, so a \<open>double\<close> is modelled by its 64 bits. The arithmetic is
  written out over exact integers followed by one rounding to nearest, ties to even, as the
  C++ implementation's default rounding mode does. The result of an invalid operation is one
  quiet NaN (\<open>f64_nan\<close>): sign and payload of NaNs are implementation-defined in C++.
  \<open>std::pow\<close> is not correctly rounded by any standard, so it is not defined here: the
  evaluator takes it as an argument.
\<close>

datatype f64 = F64 (f64_bits: "64 word")

subsection \<open>Fields, classification and order\<close>

definition f64_nat :: "f64 \<Rightarrow> nat" where
  "f64_nat x = unat (f64_bits x)"

definition f64_sign :: "f64 \<Rightarrow> bool" where
  "f64_sign x = (2 ^ 63 \<le> f64_nat x)"

definition f64_mag :: "f64 \<Rightarrow> nat" where
  "f64_mag x = f64_nat x mod 2 ^ 63"

definition f64_expo :: "f64 \<Rightarrow> nat" where
  "f64_expo x = f64_mag x div 2 ^ 52"

definition f64_frac :: "f64 \<Rightarrow> nat" where
  "f64_frac x = f64_mag x mod 2 ^ 52"

definition f64_pack :: "bool \<Rightarrow> nat \<Rightarrow> f64" where
  "f64_pack s m = F64 (word_of_nat ((if s then 2 ^ 63 else 0) + m))"

definition f64_inf_mag :: nat where
  "f64_inf_mag = 2047 * 2 ^ 52"

definition f64_is_nan :: "f64 \<Rightarrow> bool" where
  "f64_is_nan x = (f64_inf_mag < f64_mag x)"

definition f64_is_inf :: "f64 \<Rightarrow> bool" where
  "f64_is_inf x = (f64_mag x = f64_inf_mag)"

definition f64_is_zero :: "f64 \<Rightarrow> bool" where
  "f64_is_zero x = (f64_mag x = 0)"

definition f64_nan :: f64 where
  "f64_nan = F64 0x7FF8000000000000"

definition f64_inf :: "bool \<Rightarrow> f64" where
  "f64_inf s = f64_pack s f64_inf_mag"

definition f64_zero :: "bool \<Rightarrow> f64" where
  "f64_zero s = f64_pack s 0"

text \<open>A finite value is \<open>(-1)^sign * f64_mant * 2 ^ f64_exp2\<close>.\<close>

definition f64_mant :: "f64 \<Rightarrow> nat" where
  "f64_mant x = (if f64_expo x = 0 then f64_frac x else f64_frac x + 2 ^ 52)"

definition f64_exp2 :: "f64 \<Rightarrow> int" where
  "f64_exp2 x = (if f64_expo x = 0 then - 1074 else int (f64_expo x) - 1075)"

text \<open>
  Sign and magnitude bits as one integer. The magnitude bits of non-NaN values are ordered as
  the values they stand for, so \<open>operator<\<close> and \<open>operator==\<close> are comparisons of
  these keys; both zeros have key 0, and a NaN compares with nothing.
\<close>

definition f64_key :: "f64 \<Rightarrow> int" where
  "f64_key x = (if f64_sign x then - int (f64_mag x) else int (f64_mag x))"

definition f64_lt :: "f64 \<Rightarrow> f64 \<Rightarrow> bool" where
  "f64_lt x y = (\<not> f64_is_nan x \<and> \<not> f64_is_nan y \<and> f64_key x < f64_key y)"

definition f64_eq :: "f64 \<Rightarrow> f64 \<Rightarrow> bool" where
  "f64_eq x y = (\<not> f64_is_nan x \<and> \<not> f64_is_nan y \<and> f64_key x = f64_key y)"

definition f64_le :: "f64 \<Rightarrow> f64 \<Rightarrow> bool" where
  "f64_le x y = (f64_lt x y \<or> f64_eq x y)"

lemma f64_lt_irrefl [simp]: "\<not> f64_lt x x"
  by (simp add: f64_lt_def)

lemma f64_lt_trans: "f64_lt x y \<Longrightarrow> f64_lt y z \<Longrightarrow> f64_lt x z"
  by (auto simp: f64_lt_def)

lemma f64_lt_asym: "f64_lt x y \<Longrightarrow> \<not> f64_lt y x"
  by (auto simp: f64_lt_def)

lemma f64_trichotomy:
  "\<not> f64_is_nan x \<Longrightarrow> \<not> f64_is_nan y \<Longrightarrow> f64_lt x y \<or> f64_eq x y \<or> f64_lt y x"
  by (auto simp: f64_lt_def f64_eq_def)

lemma f64_mag_less: "f64_mag x < 2 ^ 63"
  by (simp add: f64_mag_def)

lemma f64_nat_pack [simp]:
  assumes "m < 2 ^ 63"
  shows "f64_nat (f64_pack s m) = (if s then 2 ^ 63 else 0) + m"
proof -
  have "(if s then 2 ^ 63 else 0) + m < 2 ^ LENGTH(64)"
    using assms by simp
  then show ?thesis
    unfolding f64_nat_def f64_pack_def f64.sel unat_of_nat by (rule mod_less)
qed

lemma f64_pack_mag [simp]: "m < 2 ^ 63 \<Longrightarrow> f64_mag (f64_pack s m) = m"
  by (simp add: f64_mag_def)

lemma f64_pack_sign [simp]: "m < 2 ^ 63 \<Longrightarrow> f64_sign (f64_pack s m) = s"
  by (simp add: f64_sign_def)

lemma f64_pack_key: "m < 2 ^ 63 \<Longrightarrow> f64_key (f64_pack s m) = (if s then - int m else int m)"
  by (simp add: f64_key_def)

subsection \<open>Rounding\<close>

text \<open>The number of binary digits.\<close>

fun nat_bits :: "nat \<Rightarrow> nat" where
  "nat_bits n = (if n = 0 then 0 else Suc (nat_bits (n div 2)))"

declare nat_bits.simps [simp del]

text \<open>\<open>n / d\<close> rounded to the nearest integer, a tie to the even one.\<close>

definition div_rne :: "nat \<Rightarrow> nat \<Rightarrow> nat" where
  "div_rne n d = (let q = n div d; r = n mod d
     in if d < 2 * r \<or> (2 * r = d \<and> odd q) then Suc q else q)"

text \<open>
  The magnitude bits of \<open>n / d\<close> (\<open>0 < n\<close>, \<open>0 < d\<close>), rounded: \<open>l\<close> is the exponent of the leading
  digit, \<open>e\<close> the exponent of the last one that is kept (at least -1074, where the subnormal
  numbers end). The kept digits are added to the biased exponent, so that a carry out of
  them moves into the exponent; from \<open>2047 * 2 ^ 52\<close> on the value is an infinity.
\<close>

definition lead_exp :: "nat \<Rightarrow> nat \<Rightarrow> int" where
  "lead_exp n d = (let k = int (nat_bits n) - int (nat_bits d)
     in if d * 2 ^ nat k \<le> n * 2 ^ nat (- k) then k else k - 1)"

definition round_exp :: "nat \<Rightarrow> nat \<Rightarrow> int" where
  "round_exp n d = max (lead_exp n d - 52) (- 1074)"

definition round_mag :: "nat \<Rightarrow> nat \<Rightarrow> nat" where
  "round_mag n d = (let e = round_exp n d
     in min f64_inf_mag
          (nat (e + 1074) * 2 ^ 52 + div_rne (n * 2 ^ nat (- e)) (d * 2 ^ nat e)))"

definition f64_round :: "bool \<Rightarrow> nat \<Rightarrow> nat \<Rightarrow> f64" where
  "f64_round s n d = f64_pack s (if n = 0 then 0 else round_mag n d)"

text \<open>Whether \<open>n / d\<close> is not representable.\<close>

definition f64_inexact :: "nat \<Rightarrow> nat \<Rightarrow> bool" where
  "f64_inexact n d = (n \<noteq> 0 \<and> (let e = round_exp n d in
     (n * 2 ^ nat (- e)) mod (d * 2 ^ nat e) \<noteq> 0))"

lemma round_mag_less: "round_mag n d < 2 ^ 63"
  by (simp add: round_mag_def f64_inf_mag_def Let_def)

lemmas round_mag_less_num [simp] = round_mag_less [simplified]

subsection \<open>Conversions from and to integers\<close>

definition f64_of_int :: "int \<Rightarrow> f64" where
  "f64_of_int i = f64_round (i < 0) (nat \<bar>i\<bar>) 1"

definition f64_of_bool :: "bool \<Rightarrow> f64" where
  "f64_of_bool b = f64_of_int (if b then 1 else 0)"

text \<open>
  \<open>static_cast<int64_t>(x)\<close> drops the fraction; a value outside the range of
  \<open>int64_t\<close>, an infinity and a NaN are undefined behaviour.
\<close>

definition f64_trunc :: "f64 \<Rightarrow> int" where
  "f64_trunc x = (let m = int ((f64_mant x * 2 ^ nat (f64_exp2 x)) div 2 ^ nat (- f64_exp2 x))
     in if f64_sign x then - m else m)"

definition f64_to_i64 :: "f64 \<Rightarrow> 64 word res" where
  "f64_to_i64 x =
     (if f64_is_nan x \<or> f64_is_inf x \<or> f64_trunc x < - (2 ^ 63) \<or> 2 ^ 63 \<le> f64_trunc x
      then Inl (Undefined ''double to int64_t out of range'')
      else Inr (word_of_int (f64_trunc x)))"

subsection \<open>Arithmetic\<close>

definition f64_neg :: "f64 \<Rightarrow> f64" where
  "f64_neg x = f64_pack (\<not> f64_sign x) (f64_mag x)"

definition f64_abs :: "f64 \<Rightarrow> f64" where
  "f64_abs x = f64_pack False (f64_mag x)"

definition f64_sgn_mant :: "f64 \<Rightarrow> int" where
  "f64_sgn_mant x = (if f64_sign x then - int (f64_mant x) else int (f64_mant x))"

text \<open>The value \<open>i * 2 ^ e\<close>, rounded; \<open>z\<close> is the sign of a zero result.\<close>

definition f64_of_scaled :: "bool \<Rightarrow> int \<Rightarrow> int \<Rightarrow> f64" where
  "f64_of_scaled z i e =
     (if i = 0 then f64_zero z
      else f64_round (i < 0) (nat \<bar>i\<bar> * 2 ^ nat e) (2 ^ nat (- e)))"

definition f64_add :: "f64 \<Rightarrow> f64 \<Rightarrow> f64" where
  "f64_add x y =
     (if f64_is_nan x \<or> f64_is_nan y then f64_nan
      else if f64_is_inf x \<and> f64_is_inf y then
        (if f64_sign x = f64_sign y then x else f64_nan)
      else if f64_is_inf x then x
      else if f64_is_inf y then y
      else let e = min (f64_exp2 x) (f64_exp2 y)
        in f64_of_scaled (f64_sign x \<and> f64_sign y)
             (f64_sgn_mant x * 2 ^ nat (f64_exp2 x - e) + f64_sgn_mant y * 2 ^ nat (f64_exp2 y - e)) e)"

definition f64_sub :: "f64 \<Rightarrow> f64 \<Rightarrow> f64" where
  "f64_sub x y = (if f64_is_nan y then f64_nan else f64_add x (f64_neg y))"

definition f64_mul :: "f64 \<Rightarrow> f64 \<Rightarrow> f64" where
  "f64_mul x y = (let s = (f64_sign x \<noteq> f64_sign y) in
     if f64_is_nan x \<or> f64_is_nan y then f64_nan
     else if f64_is_inf x \<or> f64_is_inf y then
       (if f64_is_zero x \<or> f64_is_zero y then f64_nan else f64_inf s)
     else f64_of_scaled s (f64_sgn_mant x * f64_sgn_mant y) (f64_exp2 x + f64_exp2 y))"

definition f64_div :: "f64 \<Rightarrow> f64 \<Rightarrow> f64" where
  "f64_div x y = (let s = (f64_sign x \<noteq> f64_sign y) in
     if f64_is_nan x \<or> f64_is_nan y then f64_nan
     else if f64_is_inf x then (if f64_is_inf y then f64_nan else f64_inf s)
     else if f64_is_inf y then f64_zero s
     else if f64_is_zero y then (if f64_is_zero x then f64_nan else f64_inf s)
     else let k = f64_exp2 x - f64_exp2 y
       in f64_round s (f64_mant x * 2 ^ nat k) (f64_mant y * 2 ^ nat (- k)))"

text \<open>\<open>std::fmod\<close> is exact and has the sign of its first argument.\<close>

definition f64_fmod :: "f64 \<Rightarrow> f64 \<Rightarrow> f64" where
  "f64_fmod x y =
     (if f64_is_nan x \<or> f64_is_nan y \<or> f64_is_inf x \<or> f64_is_zero y then f64_nan
      else if f64_is_inf y then x
      else let e = min (f64_exp2 x) (f64_exp2 y);
               m = (f64_mant x * 2 ^ nat (f64_exp2 x - e)) mod (f64_mant y * 2 ^ nat (f64_exp2 y - e))
        in f64_of_scaled (f64_sign x) (if f64_sign x then - int m else int m) e)"

text \<open>\<open>std::round\<close>: halves away from zero.\<close>

definition f64_roundi :: "f64 \<Rightarrow> f64" where
  "f64_roundi x =
     (if f64_is_nan x \<or> f64_is_inf x \<or> 0 \<le> f64_exp2 x then x
      else let d = 2 ^ nat (- f64_exp2 x)
        in f64_round (f64_sign x) ((2 * f64_mant x + d) div (2 * d)) 1)"

lemma f64_eqI: "f64_sign x = f64_sign y \<Longrightarrow> f64_mag x = f64_mag y \<Longrightarrow> x = y"
proof -
  assume s: "f64_sign x = f64_sign y" and m: "f64_mag x = f64_mag y"
  have split: "f64_nat z = (if f64_sign z then 2 ^ 63 else 0) + f64_mag z" for z
  proof -
    have "f64_nat z < 2 ^ 64" using unsigned_less [of "f64_bits z"] by (simp add: f64_nat_def)
    then have "f64_nat z div 2 ^ 63 < 2" by (simp add: less_mult_imp_div_less)
    then have "f64_nat z div 2 ^ 63 = (if f64_sign z then 1 else 0)"
      by (auto simp: f64_sign_def div_less le_div_geq)
    then show ?thesis using div_mult_mod_eq [of "f64_nat z" "2 ^ 63"] by (simp add: f64_mag_def split: if_splits)
  qed
  have "f64_bits x = f64_bits y"
    using split [of x] split [of y] s m by (simp add: f64_nat_def word_unat_eq_iff [of "f64_bits x"])
  then show "x = y" by (rule f64.expand)
qed

lemma f64_inf_fields [simp]:
  "f64_mag (f64_inf b) = f64_inf_mag" "f64_sign (f64_inf b) = b" "\<not> f64_is_nan (f64_inf b)"
  by (simp_all add: f64_inf_def f64_inf_mag_def f64_is_nan_def)

lemma f64_below_inf: "\<not> f64_is_nan v \<Longrightarrow> \<not> f64_lt v (f64_inf False) \<Longrightarrow> v = f64_inf False"
  by (rule f64_eqI) (auto simp: f64_lt_def f64_key_def f64_is_nan_def f64_inf_mag_def split: if_splits)

lemma f64_above_inf: "\<not> f64_is_nan v \<Longrightarrow> \<not> f64_lt (f64_inf True) v \<Longrightarrow> v = f64_inf True"
  by (rule f64_eqI) (auto simp: f64_lt_def f64_key_def f64_is_nan_def f64_inf_mag_def split: if_splits)

end
