(* ===== verification/LQ_Decimal.thy ===== *)
theory LQ_Decimal
  imports LQ_Float
begin

section \<open>Numbers and text\<close>

text \<open>
  The conversions of the C++ standard library that the engine calls: \<open>std::from_chars\<close> for
  \<open>int64_t\<close>, \<open>std::stod\<close> (that is, \<open>strtod\<close> in the C locale with its range error), and
  \<open>std::to_string\<close> of a \<open>double\<close>, which is the \<open>%f\<close> format with six decimals of
  the exact value. Lemmas: \<open>from_chars\<close> inverts the decimal rendering of every \<open>int64_t\<close>,
  and the conversion of an integer to a \<open>double\<close> keeps the order of all integers up to
  \<open>2 ^ 53\<close>.
\<close>

subsection \<open>Integers\<close>

datatype 'a from_chars_result = FcInvalid | FcRange string | FcOk 'a string

definition strip_minus :: "string \<Rightarrow> bool \<times> string" where
  "strip_minus s = (case s of [] \<Rightarrow> (False, [])
     | c # t \<Rightarrow> if c = CHR ''-'' then (True, t) else (False, s))"

definition i64_range :: "int \<Rightarrow> bool" where
  "i64_range v = (- (2 ^ 63) \<le> v \<and> v < 2 ^ 63)"

definition from_chars_i64 :: "string \<Rightarrow> 64 word from_chars_result" where
  "from_chars_i64 s =
     (let (neg, t) = strip_minus s; ds = takeWhile isdigit t; rest = dropWhile isdigit t;
          v = (if neg then - int (digits_val ds) else int (digits_val ds))
      in if ds = [] then FcInvalid
         else if i64_range v then FcOk (word_of_int v) rest
         else FcRange rest)"

lemma i64_range_sint [simp]: "i64_range (sint (w :: 64 word))"
proof -
  have "- (2 ^ (LENGTH(64) - 1)) \<le> sint w" by (rule sint_ge)
  moreover have "sint w < 2 ^ (LENGTH(64) - 1)" by (rule sint_lt)
  ultimately show ?thesis by (simp add: i64_range_def)
qed

lemma sint_word_of_int_range: "i64_range v \<Longrightarrow> sint (word_of_int v :: 64 word) = v"
  by (simp add: i64_range_def sint_sbintrunc' signed_take_bit_int_eq_self)

lemma strip_minus_int_string:
  "strip_minus (int_string v @ r) = (v < 0, nat_string (nat \<bar>v\<bar>) @ r)"
proof (cases "v < 0")
  case True
  then show ?thesis by (simp add: int_string_def strip_minus_def)
next
  case False
  obtain c t where ct: "nat_string (nat v) = c # t"
    using nat_string_nonempty by (cases "nat_string (nat v)") auto
  moreover have "c \<noteq> CHR ''-''"
    using nat_string_hd_digit [of "nat v"] ct by auto
  ultimately show ?thesis using False
    by (simp add: int_string_def strip_minus_def)
qed

lemma takeWhile_digits_nat_string:
  "r = [] \<or> \<not> isdigit (hd r) \<Longrightarrow> takeWhile isdigit (nat_string n @ r) = nat_string n"
  by (cases r) (auto simp: takeWhile_append nat_string_digits)

lemma dropWhile_digits_nat_string:
  "r = [] \<or> \<not> isdigit (hd r) \<Longrightarrow> dropWhile isdigit (nat_string n @ r) = r"
  by (cases r) (auto simp: dropWhile_append nat_string_digits)

lemma from_chars_int_string:
  assumes "r = [] \<or> \<not> isdigit (hd r)"
  shows "from_chars_i64 (int_string (sint w) @ r) = FcOk w r"
proof -
  have "(if sint w < 0 then - int (nat \<bar>sint w\<bar>) else int (nat \<bar>sint w\<bar>)) = sint w" by simp
  then show ?thesis
    unfolding from_chars_i64_def strip_minus_int_string Let_def prod.case
      takeWhile_digits_nat_string [OF assms] dropWhile_digits_nat_string [OF assms]
      digits_val_nat_string \<open>(if _ then _ else _) = _\<close>
    by simp
qed

lemma from_chars_int_string0: "from_chars_i64 (int_string (sint w)) = FcOk w []"
  using from_chars_int_string [of "[]" w] by simp

subsection \<open>Parsing a double\<close>

definition isxdigit :: "char \<Rightarrow> bool" where
  "isxdigit c = (isdigit c \<or> (97 \<le> byte (tolower c) \<and> byte (tolower c) \<le> 102))"

definition xdigit_val :: "char \<Rightarrow> nat" where
  "xdigit_val c = (if isdigit c then digit_val c else byte (tolower c) - 87)"

definition xdigits_val :: "string \<Rightarrow> nat" where
  "xdigits_val s = foldl (\<lambda>n c. 16 * n + xdigit_val c) 0 s"

definition ci_prefix :: "string \<Rightarrow> string \<Rightarrow> bool" where
  "ci_prefix p s = (map tolower (take (length p) s) = p)"

text \<open>An optional sign, and a fraction after a point.\<close>

definition strip_sign :: "string \<Rightarrow> bool \<times> string" where
  "strip_sign s = (case s of [] \<Rightarrow> (False, [])
     | c # t \<Rightarrow> if c = CHR ''-'' then (True, t) else if c = CHR ''+'' then (False, t) else (False, s))"

definition strip_fraction :: "(char \<Rightarrow> bool) \<Rightarrow> string \<Rightarrow> string \<times> string" where
  "strip_fraction p s = (case s of [] \<Rightarrow> ([], [])
     | c # t \<Rightarrow> if c = CHR ''.'' then (takeWhile p t, dropWhile p t) else ([], s))"

text \<open>An exponent introduced by \<open>m\<close> (lower case); it is only consumed if it has a digit.\<close>

definition strip_exponent :: "char \<Rightarrow> string \<Rightarrow> int \<times> string" where
  "strip_exponent m s = (case s of [] \<Rightarrow> (0, [])
     | c # t \<Rightarrow> if tolower c \<noteq> m then (0, s)
         else let (neg, u) = strip_sign t; ds = takeWhile isdigit u
           in if ds = [] then (0, s)
              else (if neg then - int (digits_val ds) else int (digits_val ds), dropWhile isdigit u))"

text \<open>
  \<open>m * b ^ k\<close> rounded, with the range error of \<open>strtod\<close>: overflow to infinity, or an inexact
  result below the smallest normal number.
\<close>

definition scale_round :: "bool \<Rightarrow> nat \<Rightarrow> nat \<Rightarrow> int \<Rightarrow> f64 \<times> bool" where
  "scale_round s m b k =
     (let n = m * b ^ nat k; d = b ^ nat (- k); x = f64_round s n d
      in (x, f64_is_inf x \<or> (f64_mag x < 2 ^ 52 \<and> f64_inexact n d)))"

text \<open>\<open>strtod\<close>: the value, whether \<open>errno\<close> is \<open>ERANGE\<close>, and the text that is left.\<close>

definition strtod :: "string \<Rightarrow> (f64 \<times> bool \<times> string) option" where
  "strtod s =
    (let (neg, u) = strip_sign (dropWhile isspace s) in
     if ci_prefix ''infinity'' u then Some (f64_inf neg, False, drop 8 u)
     else if ci_prefix ''inf'' u then Some (f64_inf neg, False, drop 3 u)
     else if ci_prefix ''nan'' u then
       (let v = drop 3 u; w = dropWhile (\<lambda>c. isalnum c \<or> c = CHR ''_'') (tl v)
        in Some (if neg then f64_neg f64_nan else f64_nan, False,
                 if v \<noteq> [] \<and> hd v = CHR ''('' \<and> w \<noteq> [] \<and> hd w = CHR '')'' then tl w else v))
     else
       let h = drop 2 u; hi = takeWhile isxdigit h; (hf, h2) = strip_fraction isxdigit (dropWhile isxdigit h)
       in if ci_prefix ''0x'' u \<and> (hi \<noteq> [] \<or> hf \<noteq> []) then
            (let (k, r) = strip_exponent CHR ''p'' h2;
                 (x, e) = scale_round neg (xdigits_val (hi @ hf)) 2 (k - 4 * int (length hf))
             in Some (x, e, r))
          else
            (let di = takeWhile isdigit u; (df, d2) = strip_fraction isdigit (dropWhile isdigit u)
             in if di = [] \<and> df = [] then None
                else let (k, r) = strip_exponent CHR ''e'' d2;
                         (x, e) = scale_round neg (digits_val (di @ df)) 10 (k - int (length df))
                  in Some (x, e, r)))"

text \<open>\<open>std::stod\<close> with the number of consumed characters.\<close>

definition stod :: "string \<Rightarrow> (f64 \<times> nat) res" where
  "stod s = (case strtod (cstring s) of
       None \<Rightarrow> Inl (InvalidArgument ''stod'')
     | Some (x, e, r) \<Rightarrow> if e then Inl (OutOfRange ''stod'') else Inr (x, length (cstring s) - length r))"

subsection \<open>Printing a double\<close>

definition pad6 :: "nat \<Rightarrow> string" where
  "pad6 n = (let t = nat_string n in replicate (6 - length t) CHR ''0'' @ t)"

text \<open>\<open>std::to_string(double)\<close>, the format \<open>%f\<close>.\<close>

definition f64_string :: "f64 \<Rightarrow> string" where
  "f64_string x =
     (let sgn = (if f64_sign x then ''-'' else '''') in
      if f64_is_nan x then sgn @ ''nan''
      else if f64_is_inf x then sgn @ ''inf''
      else let q = div_rne (f64_mant x * 10 ^ 6 * 2 ^ nat (f64_exp2 x)) (2 ^ nat (- f64_exp2 x))
        in sgn @ nat_string (q div 10 ^ 6) @ ''.'' @ pad6 (q mod 10 ^ 6))"

subsection \<open>Integers as doubles\<close>

lemma nat_bits_0 [simp]: "nat_bits 0 = 0"
  by (simp add: nat_bits.simps [of 0])

lemma nat_bits_1 [simp]: "nat_bits (Suc 0) = Suc 0"
  by (simp add: nat_bits.simps [of "Suc 0"])

lemma nat_bits_pos: "0 < n \<Longrightarrow> 2 ^ (nat_bits n - 1) \<le> n \<and> n < 2 ^ nat_bits n \<and> 0 < nat_bits n"
proof (induction n rule: nat_bits.induct)
  case (1 n)
  show ?case
  proof (cases "n = 1")
    case True
    then show ?thesis by simp
  next
    case False
    with "1.prems" have n2: "0 < n div 2" by auto
    with "1.prems" "1.IH" have ih: "2 ^ (nat_bits (n div 2) - 1) \<le> n div 2"
      "n div 2 < 2 ^ nat_bits (n div 2)" "0 < nat_bits (n div 2)" by auto
    obtain b where b: "nat_bits (n div 2) = Suc b" using ih(3) by (cases "nat_bits (n div 2)") auto
    have eq: "nat_bits n = Suc (Suc b)" using "1.prems" b by (simp add: nat_bits.simps [of n])
    from ih(1,2) show ?thesis unfolding eq b by auto
  qed
qed

lemma nat_bits_unique: "2 ^ b \<le> n \<Longrightarrow> n < 2 ^ Suc b \<Longrightarrow> nat_bits n = Suc b"
proof -
  assume a: "2 ^ b \<le> n" "n < 2 ^ Suc b"
  then have "0 < n" by (metis less_le_trans zero_less_power zero_less_numeral)
  from nat_bits_pos [OF this] have p: "2 ^ (nat_bits n - 1) \<le> n" "n < 2 ^ nat_bits n" "0 < nat_bits n"
    by auto
  from p(1) a(2) have "(2::nat) ^ (nat_bits n - 1) < 2 ^ Suc b" by (rule le_less_trans)
  then have "nat_bits n - 1 < Suc b" by (simp add: power_strict_increasing_iff del: power_Suc)
  moreover from a(1) p(2) have "(2::nat) ^ b < 2 ^ nat_bits n" by (rule le_less_trans)
  then have "b < nat_bits n" by simp
  ultimately show ?thesis by linarith
qed

text \<open>The bits of an integer with \<open>b + 1\<close> binary digits, at most 53.\<close>

lemma round_mag_int:
  assumes "2 ^ b \<le> n" "n < 2 ^ Suc b" "b \<le> 52"
  shows "round_mag n 1 = (b + 1022) * 2 ^ 52 + n * 2 ^ (52 - b)"
proof -
  have bits: "nat_bits n = Suc b" using assms by (intro nat_bits_unique) auto
  have bits1: "nat_bits 1 = 1" by simp
  have l: "lead_exp n 1 = int b"
    using assms(1) by (simp add: lead_exp_def bits bits1 Let_def)
  have e: "round_exp n 1 = int b - 52" using assms(3) unfolding round_exp_def l by simp
  have ne: "nat (- (int b - 52)) = 52 - b" "nat (int b - 52) = 0" "nat (int b - 52 + 1074) = b + 1022"
    using assms(3) by auto
  have dr: "div_rne (n * 2 ^ (52 - b)) (1 * 2 ^ 0) = n * 2 ^ (52 - b)"
    by (simp add: div_rne_def)
  have "n * 2 ^ (52 - b) < 2 ^ Suc b * 2 ^ (52 - b)" using assms(2) by simp
  also have "\<dots> = 2 ^ 53" using assms(3) by (simp flip: power_add)
  finally have "n * 2 ^ (52 - b) \<le> 2 ^ 53" by simp
  moreover have "(b + 1022) * 2 ^ 52 \<le> 1074 * 2 ^ (52 :: nat)" using assms(3) by simp
  ultimately have "(b + 1022) * 2 ^ 52 + n * 2 ^ (52 - b) \<le> f64_inf_mag"
    by (simp add: f64_inf_mag_def)
  then show ?thesis
    unfolding round_mag_def e Let_def ne dr by simp
qed

lemma round_mag_2_53: "round_mag (2 ^ 53) 1 = 1075 * 2 ^ 52 + 2 ^ 52"
proof -
  have bits: "nat_bits (2 ^ 53) = Suc 53" by (rule nat_bits_unique) simp_all
  have l: "lead_exp (2 ^ 53) 1 = 53"
    unfolding lead_exp_def bits by (simp add: Let_def)
  have e: "round_exp (2 ^ 53) 1 = 1" unfolding round_exp_def l by simp
  show ?thesis unfolding round_mag_def e Let_def by (simp add: div_rne_def f64_inf_mag_def)
qed

lemma round_mag_step:
  assumes "0 < n" "n < 2 ^ 53"
  shows "round_mag n 1 < round_mag (Suc n) 1"
proof -
  define b where "b = nat_bits n - 1"
  from nat_bits_pos [OF assms(1)] have b: "2 ^ b \<le> n" "n < 2 ^ Suc b" by (auto simp: b_def)
  from b(1) assms(2) have "(2::nat) ^ b < 2 ^ 53" by (rule le_less_trans)
  then have "b < 53" by (rule power_less_imp_less_exp [rotated]) simp
  then have b52: "b \<le> 52" by simp
  have rn: "round_mag n 1 = (b + 1022) * 2 ^ 52 + n * 2 ^ (52 - b)"
    using b b52 by (rule round_mag_int)
  show ?thesis
  proof (cases "Suc n < 2 ^ Suc b")
    case True
    then have "round_mag (Suc n) 1 = (b + 1022) * 2 ^ 52 + Suc n * 2 ^ (52 - b)"
      using b b52 by (intro round_mag_int) auto
    with rn show ?thesis by simp
  next
    case False
    with b(2) have sn: "Suc n = 2 ^ Suc b" by simp
    have "n * 2 ^ (52 - b) < 2 ^ Suc b * 2 ^ (52 - b)" using b(2) by simp
    also have "\<dots> = 2 ^ 53" using b52 by (simp flip: power_add)
    finally have lt: "n * 2 ^ (52 - b) < 2 ^ 53" .
    show ?thesis
    proof (cases "b = 52")
      case True
      with sn have "Suc n = 2 ^ 53" by simp
      then have "round_mag (Suc n) 1 = 1075 * 2 ^ 52 + 2 ^ 52" by (simp only: round_mag_2_53)
      then show ?thesis using rn lt True by simp
    next
      case False
      with b52 have "round_mag (Suc n) 1 = (Suc b + 1022) * 2 ^ 52 + Suc n * 2 ^ (52 - Suc b)"
        unfolding sn by (intro round_mag_int) auto
      moreover have "Suc n * 2 ^ (52 - Suc b) = 2 ^ 52"
        using False b52 unfolding sn by (simp flip: power_add power_Suc)
      ultimately show ?thesis using rn lt by simp
    qed
  qed
qed

lemma round_mag_strict: "0 < m \<Longrightarrow> m < n \<Longrightarrow> n \<le> 2 ^ 53 \<Longrightarrow> round_mag m 1 < round_mag n 1"
proof (induction n)
  case (Suc n)
  show ?case
  proof (cases "m = n")
    case True
    with Suc.prems round_mag_step [of n] show ?thesis by simp
  next
    case False
    with Suc.prems have "round_mag m 1 < round_mag n 1" by (intro Suc.IH) auto
    also have "\<dots> < round_mag (Suc n) 1" using Suc.prems by (intro round_mag_step) auto
    finally show ?thesis .
  qed
qed simp

lemma round_mag_int_pos: "0 < n \<Longrightarrow> n \<le> 2 ^ 53 \<Longrightarrow> 0 < round_mag n 1"
proof (cases "n = 1")
  case True
  have "round_mag 1 1 = (0 + 1022) * 2 ^ 52 + 1 * 2 ^ (52 - 0)"
    by (rule round_mag_int) auto
  with True show ?thesis by simp
next
  case False
  assume "0 < n" "n \<le> 2 ^ 53"
  with False round_mag_strict [of 1 n] show ?thesis by simp
qed

lemma round_mag_2_53_le: "0 < n \<Longrightarrow> n \<le> 2 ^ 53 \<Longrightarrow> round_mag n 1 < f64_inf_mag"
proof -
  assume "0 < n" "n \<le> 2 ^ 53"
  then have "round_mag n 1 \<le> round_mag (2 ^ 53) 1"
    using round_mag_strict [of n "2 ^ 53"] by (cases "n = 2 ^ 53") auto
  then show ?thesis by (simp only: round_mag_2_53) (simp add: f64_inf_mag_def)
qed

definition exact_int :: "int \<Rightarrow> bool" where
  "exact_int i = (\<bar>i\<bar> \<le> 2 ^ 53)"

lemma f64_key_of_int:
  "f64_key (f64_of_int i) =
     (if i = 0 then 0 else if i < 0 then - int (round_mag (nat \<bar>i\<bar>) 1) else int (round_mag (nat \<bar>i\<bar>) 1))"
  by (simp add: f64_of_int_def f64_round_def f64_pack_key round_mag_less)

lemma f64_of_int_not_nan: "exact_int i \<Longrightarrow> \<not> f64_is_nan (f64_of_int i)"
proof -
  assume i: "exact_int i"
  show ?thesis
  proof (cases "i = 0")
    case True
    then show ?thesis by (simp add: f64_of_int_def f64_round_def f64_is_nan_def)
  next
    case False
    with i have "round_mag (nat \<bar>i\<bar>) 1 < f64_inf_mag"
      by (intro round_mag_2_53_le) (auto simp: exact_int_def)
    with False show ?thesis
      by (simp add: f64_of_int_def f64_round_def f64_is_nan_def round_mag_less)
  qed
qed

lemma f64_key_of_int_less:
  assumes "exact_int i" "exact_int j" "i < j"
  shows "f64_key (f64_of_int i) < f64_key (f64_of_int j)"
proof -
  have pos: "0 < round_mag (nat \<bar>k\<bar>) 1" if "exact_int k" "k \<noteq> 0" for k
    using that by (intro round_mag_int_pos) (auto simp: exact_int_def)
  consider "i < 0" "j < 0" | "i < 0" "0 \<le> j" | "i = 0" | "0 < i" using assms(3) by linarith
  then show ?thesis
  proof cases
    case 1
    with assms have "round_mag (nat \<bar>j\<bar>) 1 < round_mag (nat \<bar>i\<bar>) 1"
      by (intro round_mag_strict) (auto simp: exact_int_def)
    with 1 show ?thesis by (simp add: f64_key_of_int)
  next
    case 2
    with pos [of i] assms show ?thesis by (simp add: f64_key_of_int)
  next
    case 3
    with pos [of j] assms show ?thesis by (simp add: f64_key_of_int)
  next
    case 4
    with assms have "round_mag (nat \<bar>i\<bar>) 1 < round_mag (nat \<bar>j\<bar>) 1"
      by (intro round_mag_strict) (auto simp: exact_int_def)
    with 4 assms show ?thesis by (simp add: f64_key_of_int)
  qed
qed

text \<open>On integers up to \<open>2 ^ 53\<close> the comparison of the doubles is the comparison of the integers.\<close>

lemma f64_of_int_lt_iff:
  "exact_int i \<Longrightarrow> exact_int j \<Longrightarrow> f64_lt (f64_of_int i) (f64_of_int j) = (i < j)"
  using f64_key_of_int_less [of i j] f64_key_of_int_less [of j i]
  by (auto simp: f64_lt_def f64_of_int_not_nan) (metis less_asym linorder_cases)

lemma f64_of_int_eq_iff:
  "exact_int i \<Longrightarrow> exact_int j \<Longrightarrow> f64_eq (f64_of_int i) (f64_of_int j) = (i = j)"
  using f64_key_of_int_less [of i j] f64_key_of_int_less [of j i]
  by (auto simp: f64_eq_def f64_of_int_not_nan) (metis less_irrefl linorder_cases)

end
