(* ===== verification/LQ_Types.thy ===== *)
theory LQ_Types
  imports LQ_Decimal
begin

section \<open>The type system: TypeId, DataType, Value, Schema, Batch\<close>

text \<open>
  Model of \<open>include/litequery/types.h\<close>. \<open>type_id\<close> is the enumeration \<open>TypeId\<close>, with one more
  constructor for the values of its underlying \<open>uint8_t\<close> that name no enumerator (a database
  file can produce them); its order is the order of the underlying values, which the range
  tests of the code rely on. \<open>value\<close> is the variant \<open>ValueVariant\<close>; \<open>schema\<close> is the list
  of columns inside class \<open>Schema\<close>; \<open>batch\<close> holds its rows column by column as the code does,
  and \<open>batch_rows\<close> reads them back.
  Lemmas: the comparison operators of \<open>Value\<close> against SQL's rules, \<open>indexOf\<close> as the first
  case-insensitive match, \<open>promoteTypes\<close> as an upper bound, and batches as lists of rows.
\<close>

subsection \<open>TypeId\<close>

datatype type_id =
    INVALID | BOOLEAN | INT8 | INT16 | INT32 | INT64 | FLOAT32 | FLOAT64
  | VARCHAR | BLOB | DATE | TIMESTAMP | INTERVAL | DECIMAL
  | TypeIdOther "8 word"

fun type_id_code :: "type_id \<Rightarrow> nat" where
  "type_id_code INVALID = 0"
| "type_id_code BOOLEAN = 1"
| "type_id_code INT8 = 2"
| "type_id_code INT16 = 3"
| "type_id_code INT32 = 4"
| "type_id_code INT64 = 5"
| "type_id_code FLOAT32 = 6"
| "type_id_code FLOAT64 = 7"
| "type_id_code VARCHAR = 8"
| "type_id_code BLOB = 9"
| "type_id_code DATE = 10"
| "type_id_code TIMESTAMP = 11"
| "type_id_code INTERVAL = 12"
| "type_id_code DECIMAL = 13"
| "type_id_code (TypeIdOther w) = unat w"

text \<open>\<open>static_cast<TypeId>(v)\<close> from the underlying type.\<close>

definition type_id_of :: "8 word \<Rightarrow> type_id" where
  "type_id_of w =
     (let names = [INVALID, BOOLEAN, INT8, INT16, INT32, INT64, FLOAT32, FLOAT64,
                   VARCHAR, BLOB, DATE, TIMESTAMP, INTERVAL, DECIMAL]
      in if unat w < length names then names ! unat w else TypeIdOther w)"

definition type_id_rank :: "type_id \<Rightarrow> nat" where
  "type_id_rank t = (case t of TypeIdOther w \<Rightarrow> 14 + unat w | _ \<Rightarrow> type_id_code t)"

lemma type_id_rank_inject: "(type_id_rank s = type_id_rank t) = (s = t)"
  by (cases s; cases t) (simp_all add: type_id_rank_def word_unat_eq_iff)

instantiation type_id :: linorder
begin

definition less_eq_type_id :: "type_id \<Rightarrow> type_id \<Rightarrow> bool" where
  "less_eq_type_id s t = (type_id_rank s \<le> type_id_rank t)"

definition less_type_id :: "type_id \<Rightarrow> type_id \<Rightarrow> bool" where
  "less_type_id s t = (type_id_rank s < type_id_rank t)"

instance
  by standard (auto simp: less_eq_type_id_def less_type_id_def type_id_rank_inject [symmetric])

end

fun typeIdName :: "type_id \<Rightarrow> string" where
  "typeIdName INVALID = ''INVALID''"
| "typeIdName BOOLEAN = ''BOOLEAN''"
| "typeIdName INT8 = ''INT8''"
| "typeIdName INT16 = ''INT16''"
| "typeIdName INT32 = ''INT32''"
| "typeIdName INT64 = ''INT64''"
| "typeIdName FLOAT32 = ''FLOAT32''"
| "typeIdName FLOAT64 = ''FLOAT64''"
| "typeIdName VARCHAR = ''VARCHAR''"
| "typeIdName BLOB = ''BLOB''"
| "typeIdName DATE = ''DATE''"
| "typeIdName TIMESTAMP = ''TIMESTAMP''"
| "typeIdName INTERVAL = ''INTERVAL''"
| "typeIdName DECIMAL = ''DECIMAL''"
| "typeIdName (TypeIdOther w) = ''UNKNOWN''"

definition typeIdWidth :: "type_id \<Rightarrow> nat" where
  "typeIdWidth t = (case t of
       BOOLEAN \<Rightarrow> 1 | INT8 \<Rightarrow> 1 | INT16 \<Rightarrow> 2 | INT32 \<Rightarrow> 4 | INT64 \<Rightarrow> 8
     | FLOAT32 \<Rightarrow> 4 | FLOAT64 \<Rightarrow> 8 | DATE \<Rightarrow> 4 | TIMESTAMP \<Rightarrow> 8 | INTERVAL \<Rightarrow> 8
     | DECIMAL \<Rightarrow> 8 | _ \<Rightarrow> 0)"

definition typeIsInteger :: "type_id \<Rightarrow> bool" where
  "typeIsInteger t = (INT8 \<le> t \<and> t \<le> INT64)"

definition typeIsFloat :: "type_id \<Rightarrow> bool" where
  "typeIsFloat t = (t = FLOAT32 \<or> t = FLOAT64)"

definition typeIsNumeric :: "type_id \<Rightarrow> bool" where
  "typeIsNumeric t = (typeIsInteger t \<or> typeIsFloat t \<or> t = DECIMAL)"

definition typeIsFixedWidth :: "type_id \<Rightarrow> bool" where
  "typeIsFixedWidth t = (0 < typeIdWidth t)"

lemma typeIsInteger_simps [simp]:
  "typeIsInteger INVALID = False" "typeIsInteger BOOLEAN = False" "typeIsInteger INT8"
  "typeIsInteger INT16" "typeIsInteger INT32" "typeIsInteger INT64"
  "typeIsInteger FLOAT32 = False" "typeIsInteger FLOAT64 = False" "typeIsInteger VARCHAR = False"
  "typeIsInteger BLOB = False" "typeIsInteger DATE = False" "typeIsInteger TIMESTAMP = False"
  "typeIsInteger INTERVAL = False" "typeIsInteger DECIMAL = False"
  "typeIsInteger (TypeIdOther w) = False"
  by (simp_all add: typeIsInteger_def less_eq_type_id_def type_id_rank_def)

definition promoteTypes :: "type_id \<Rightarrow> type_id \<Rightarrow> type_id" where
  "promoteTypes a b =
     (if a = b then a
      else if a = INVALID then b
      else if b = INVALID then a
      else if a = FLOAT64 \<or> b = FLOAT64 then FLOAT64
      else if a = FLOAT32 \<or> b = FLOAT32 then FLOAT64
      else if a = DECIMAL \<or> b = DECIMAL then DECIMAL
      else if typeIsInteger a \<and> typeIsInteger b then
        (if typeIdWidth b \<le> typeIdWidth a then a else b)
      else INVALID)"

lemma typeIsInteger_cases:
  "typeIsInteger t \<Longrightarrow> t = INT8 \<or> t = INT16 \<or> t = INT32 \<or> t = INT64"
  by (cases t) auto

lemma promoteTypes_commute_integer:
  "typeIsInteger a \<Longrightarrow> typeIsInteger b \<Longrightarrow> promoteTypes a b = max a b"
  by (auto dest!: typeIsInteger_cases
      simp: promoteTypes_def typeIdWidth_def max_def less_eq_type_id_def type_id_rank_def)

subsection \<open>DataType\<close>

record data_type =
  dt_id :: type_id
  nullable :: bool
  scale :: "8 word"
  precision :: "8 word"
  maxLength :: "32 word"

text \<open>Aggregate initialisation \<open>{id, nullable}\<close> with the default member values.\<close>

definition mk_dt :: "type_id \<Rightarrow> bool \<Rightarrow> data_type" where
  "mk_dt t n = \<lparr>dt_id = t, nullable = n, scale = 0, precision = 0, maxLength = - 1\<rparr>"

definition dt_boolean :: "bool \<Rightarrow> data_type" where "dt_boolean n = mk_dt BOOLEAN n"
definition dt_int32 :: "bool \<Rightarrow> data_type" where "dt_int32 n = mk_dt INT32 n"
definition dt_int64 :: "bool \<Rightarrow> data_type" where "dt_int64 n = mk_dt INT64 n"
definition dt_float64 :: "bool \<Rightarrow> data_type" where "dt_float64 n = mk_dt FLOAT64 n"
definition dt_date :: "bool \<Rightarrow> data_type" where "dt_date n = mk_dt DATE n"
definition dt_timestamp :: "bool \<Rightarrow> data_type" where "dt_timestamp n = mk_dt TIMESTAMP n"

definition dt_varchar :: "32 word \<Rightarrow> bool \<Rightarrow> data_type" where
  "dt_varchar len n = (mk_dt VARCHAR n)\<lparr>maxLength := len\<rparr>"

definition dt_decimal :: "8 word \<Rightarrow> 8 word \<Rightarrow> bool \<Rightarrow> data_type" where
  "dt_decimal p s n = (mk_dt DECIMAL n)\<lparr>precision := p, scale := s\<rparr>"

definition asNullable :: "data_type \<Rightarrow> data_type" where
  "asNullable t = t\<lparr>nullable := True\<rparr>"

definition data_type_string :: "data_type \<Rightarrow> string" where
  "data_type_string t =
     typeIdName (dt_id t)
     @ (if dt_id t = VARCHAR \<and> 0 \<le> sint (maxLength t)
        then ''('' @ int_string (sint (maxLength t)) @ '')'' else [])
     @ (if dt_id t = DECIMAL
        then ''('' @ nat_string (unat (precision t)) @ '','' @ nat_string (unat (scale t)) @ '')'' else [])
     @ (if nullable t then [] else '' NOT NULL'')"

subsection \<open>Value\<close>

text \<open>
  \<open>float\<close> only occurs inside the variant: every use of one converts it to \<open>double\<close>, which is
  exact.
\<close>

datatype f32 = F32 "32 word"

fun f32_to_f64 :: "f32 \<Rightarrow> f64" where
  "f32_to_f64 (F32 w) =
     (let s = (2 ^ 31 \<le> unat w); m = unat w mod 2 ^ 31; x = m div 2 ^ 23; f = m mod 2 ^ 23
      in if x = 255 then (if f = 0 then f64_inf s else f64_nan)
         else if x = 0 then f64_of_scaled s (if s then - int f else int f) (- 149)
         else f64_of_scaled s (if s then - int (f + 2 ^ 23) else int (f + 2 ^ 23)) (int x - 150))"

datatype "value" =
    VNull
  | VBool bool
  | VI8 "8 word"
  | VI16 "16 word"
  | VI32 "32 word"
  | VI64 "64 word"
  | VF32 f32
  | VF64 f64
  | VStr string

definition isNull :: "value \<Rightarrow> bool" where
  "isNull v = (v = VNull)"

fun typeId :: "value \<Rightarrow> type_id" where
  "typeId VNull = INVALID"
| "typeId (VBool _) = BOOLEAN"
| "typeId (VI8 _) = INT8"
| "typeId (VI16 _) = INT16"
| "typeId (VI32 _) = INT32"
| "typeId (VI64 _) = INT64"
| "typeId (VF32 _) = FLOAT32"
| "typeId (VF64 _) = FLOAT64"
| "typeId (VStr _) = VARCHAR"

lemma isNull_simps [simp]:
  "isNull VNull" "\<not> isNull (VBool b)" "\<not> isNull (VI8 i8)" "\<not> isNull (VI16 i16)"
  "\<not> isNull (VI32 i32)" "\<not> isNull (VI64 i64)" "\<not> isNull (VF32 f)" "\<not> isNull (VF64 d)"
  "\<not> isNull (VStr s)"
  by (simp_all add: isNull_def)

text \<open>\<open>toInt64\<close> accepts the integral alternatives, \<open>bool\<close> included, and throws otherwise.\<close>

fun toInt64 :: "value \<Rightarrow> 64 word res" where
  "toInt64 (VBool b) = Inr (if b then 1 else 0)"
| "toInt64 (VI8 w) = Inr (scast w)"
| "toInt64 (VI16 w) = Inr (scast w)"
| "toInt64 (VI32 w) = Inr (scast w)"
| "toInt64 (VI64 w) = Inr w"
| "toInt64 _ = Inl (RuntimeError ''Value::toInt64: not an integer type'')"

fun toDouble :: "value \<Rightarrow> f64 res" where
  "toDouble (VBool b) = Inr (f64_of_bool b)"
| "toDouble (VI8 w) = Inr (f64_of_int (sint w))"
| "toDouble (VI16 w) = Inr (f64_of_int (sint w))"
| "toDouble (VI32 w) = Inr (f64_of_int (sint w))"
| "toDouble (VI64 w) = Inr (f64_of_int (sint w))"
| "toDouble (VF32 f) = Inr (f32_to_f64 f)"
| "toDouble (VF64 d) = Inr d"
| "toDouble _ = Inl (RuntimeError ''Value::toDouble: not a numeric type'')"

fun getBool :: "value \<Rightarrow> bool res" where
  "getBool (VBool b) = Inr b"
| "getBool _ = Inl BadVariantAccess"

fun getString :: "value \<Rightarrow> string res" where
  "getString (VStr s) = Inr s"
| "getString _ = Inl BadVariantAccess"

text \<open>\<open>data_ == o.data_\<close>: the same alternative holding equal values.\<close>

fun variant_eq :: "value \<Rightarrow> value \<Rightarrow> bool" where
  "variant_eq (VF64 x) (VF64 y) = f64_eq x y"
| "variant_eq (VF32 x) (VF32 y) = f64_eq (f32_to_f64 x) (f32_to_f64 y)"
| "variant_eq v w = (v = w)"

definition value_eq :: "value \<Rightarrow> value \<Rightarrow> bool" where
  "value_eq v w = (if isNull v \<or> isNull w then False else variant_eq v w)"

definition value_neq :: "value \<Rightarrow> value \<Rightarrow> bool" where
  "value_neq v w = (if isNull v \<or> isNull w then False else \<not> variant_eq v w)"

definition isIdenticalTo :: "value \<Rightarrow> value \<Rightarrow> bool" where
  "isIdenticalTo v w =
     (if isNull v \<and> isNull w then True
      else if isNull v \<or> isNull w then False
      else variant_eq v w)"

text \<open>\<open>operator<\<close>: false on NULL, and a throw on two different alternatives.\<close>

definition incompatible :: "bool res" where
  "incompatible = Inl (RuntimeError ''Value: incompatible types in comparison'')"

definition value_lt :: "value \<Rightarrow> value \<Rightarrow> bool res" where
  "value_lt v w =
     (if isNull v \<or> isNull w then Inr False
      else case v of
        VNull \<Rightarrow> incompatible
      | VBool a \<Rightarrow> (case w of VBool b \<Rightarrow> Inr (\<not> a \<and> b) | _ \<Rightarrow> incompatible)
      | VI8 a \<Rightarrow> (case w of VI8 b \<Rightarrow> Inr (sint a < sint b) | _ \<Rightarrow> incompatible)
      | VI16 a \<Rightarrow> (case w of VI16 b \<Rightarrow> Inr (sint a < sint b) | _ \<Rightarrow> incompatible)
      | VI32 a \<Rightarrow> (case w of VI32 b \<Rightarrow> Inr (sint a < sint b) | _ \<Rightarrow> incompatible)
      | VI64 a \<Rightarrow> (case w of VI64 b \<Rightarrow> Inr (sint a < sint b) | _ \<Rightarrow> incompatible)
      | VF32 a \<Rightarrow> (case w of VF32 b \<Rightarrow> Inr (f64_lt (f32_to_f64 a) (f32_to_f64 b)) | _ \<Rightarrow> incompatible)
      | VF64 a \<Rightarrow> (case w of VF64 b \<Rightarrow> Inr (f64_lt a b) | _ \<Rightarrow> incompatible)
      | VStr a \<Rightarrow> (case w of VStr b \<Rightarrow> Inr (a < b) | _ \<Rightarrow> incompatible))"

lemma value_lt_simps [simp]:
  "value_lt VNull w = Inr False" "value_lt v VNull = Inr False"
  "value_lt (VBool a) (VBool b) = Inr (\<not> a \<and> b)"
  "value_lt (VI8 i) (VI8 i') = Inr (sint i < sint i')"
  "value_lt (VI16 j) (VI16 j') = Inr (sint j < sint j')"
  "value_lt (VI32 k) (VI32 k') = Inr (sint k < sint k')"
  "value_lt (VI64 l) (VI64 l') = Inr (sint l < sint l')"
  "value_lt (VF32 x) (VF32 x') = Inr (f64_lt (f32_to_f64 x) (f32_to_f64 x'))"
  "value_lt (VF64 y) (VF64 y') = Inr (f64_lt y y')"
  "value_lt (VStr s) (VStr s') = Inr (s < s')"
  by (simp_all add: value_lt_def)

lemma value_lt_mixed:
  "v \<noteq> VNull \<Longrightarrow> w \<noteq> VNull \<Longrightarrow> typeId v \<noteq> typeId w \<Longrightarrow> value_lt v w = incompatible"
  by (cases v; cases w) (simp_all add: value_lt_def)

definition value_le :: "value \<Rightarrow> value \<Rightarrow> bool res" where
  "value_le v w = rmap Not (value_lt w v)"

fun value_string :: "value \<Rightarrow> string" where
  "value_string VNull = ''NULL''"
| "value_string (VBool b) = (if b then ''true'' else ''false'')"
| "value_string (VI8 w) = int_string (sint w)"
| "value_string (VI16 w) = int_string (sint w)"
| "value_string (VI32 w) = int_string (sint w)"
| "value_string (VI64 w) = int_string (sint w)"
| "value_string (VF32 f) = f64_string (f32_to_f64 f)"
| "value_string (VF64 d) = f64_string d"
| "value_string (VStr s) = s"

lemma value_lt_Inr_same:
  "value_lt v w = Inr b \<Longrightarrow> v \<noteq> VNull \<Longrightarrow> w \<noteq> VNull \<Longrightarrow> typeId v = typeId w"
  using value_lt_mixed [of v w] by (auto simp: incompatible_def)

lemma value_lt_total: "typeId v = typeId w \<Longrightarrow> \<exists>b. value_lt v w = Inr b"
  by (cases v; cases w) auto

lemma value_lt_irrefl: "value_lt v v \<noteq> Inr True"
  by (cases v) auto

lemma value_lt_trueD: "value_lt v w = Inr True \<Longrightarrow> v \<noteq> VNull \<and> w \<noteq> VNull \<and> typeId v = typeId w"
  by (cases "v = VNull"; cases "w = VNull") (auto dest: value_lt_Inr_same)

lemma value_lt_trans:
  assumes "value_lt u v = Inr True" "value_lt v w = Inr True"
  shows "value_lt u w = Inr True"
proof -
  from assms have "typeId u = typeId v" "typeId w = typeId v"
    by (auto dest: value_lt_trueD)
  with assms show ?thesis
    by (cases v; cases u; simp; cases w; auto dest: f64_lt_trans)
qed

lemma value_lt_asym: "value_lt v w = Inr True \<Longrightarrow> value_lt w v \<noteq> Inr True"
  by (meson value_lt_irrefl value_lt_trans)

subsection \<open>Schema\<close>

record column_def =
  cd_name :: string
  cd_type :: data_type

type_synonym schema = "column_def list"
type_synonym row = "value list"

definition addColumn :: "schema \<Rightarrow> string \<Rightarrow> data_type \<Rightarrow> schema" where
  "addColumn s n t = s @ [\<lparr>cd_name = n, cd_type = t\<rparr>]"

text \<open>\<open>indexOf\<close>: the position of the first column of that name, or -1.\<close>

fun indexOf_from :: "int \<Rightarrow> schema \<Rightarrow> string \<Rightarrow> int" where
  "indexOf_from i [] name = - 1"
| "indexOf_from i (c # cs) name =
     (if ci_eq (cd_name c) name then i else indexOf_from (i + 1) cs name)"

definition indexOf :: "schema \<Rightarrow> string \<Rightarrow> int" where
  "indexOf s name = indexOf_from 0 s name"

definition schema_at :: "schema \<Rightarrow> nat \<Rightarrow> column_def res" where
  "schema_at s i = vec_at s i"

definition schema_project :: "schema \<Rightarrow> nat list \<Rightarrow> schema res" where
  "schema_project s is = rmapM (\<lambda>i. schema_at s i) is"

definition schema_merge :: "schema \<Rightarrow> schema \<Rightarrow> schema" where
  "schema_merge l r = l @ r"

lemma fold_addColumn: "fold (\<lambda>x s. addColumn s (f x) (ty x)) xs s = s @ map (\<lambda>x. \<lparr>cd_name = f x, cd_type = ty x\<rparr>) xs"
  by (induction xs arbitrary: s) (auto simp: addColumn_def)

lemma column_def_eta [simp]: "\<lparr>cd_name = cd_name d, cd_type = cd_type d\<rparr> = d"
  by simp

lemma indexOf_from_bounds:
  "indexOf_from i s name = - 1 \<or> (i \<le> indexOf_from i s name \<and> indexOf_from i s name < i + int (length s))"
  by (induction i s name rule: indexOf_from.induct) auto

lemma indexOf_bounds: "0 \<le> indexOf s name \<Longrightarrow> nat (indexOf s name) < length s"
  using indexOf_from_bounds [of 0 s name] by (auto simp: indexOf_def)

lemma indexOf_ge: "- 1 \<le> indexOf s name"
  using indexOf_from_bounds [of 0 s name] by (auto simp: indexOf_def)

lemma indexOf_from_first:
  "0 \<le> i \<Longrightarrow> indexOf_from i s name = i + int k \<Longrightarrow>
     k < length s \<and> ci_eq (cd_name (s ! k)) name \<and> (\<forall>j < k. \<not> ci_eq (cd_name (s ! j)) name)"
proof (induction i s name arbitrary: k rule: indexOf_from.induct)
  case (2 i c cs name)
  show ?case
  proof (cases "ci_eq (cd_name c) name")
    case True
    with "2.prems" show ?thesis by simp
  next
    case False
    with "2.prems" have eq: "indexOf_from (i + 1) cs name = i + int k" by simp
    then have "k \<noteq> 0" using indexOf_from_bounds [of "i + 1" cs name] "2.prems"(1) by auto
    then obtain j where k: "k = Suc j" by (cases k) auto
    have "j < length cs \<and> ci_eq (cd_name (cs ! j)) name \<and> (\<forall>m < j. \<not> ci_eq (cd_name (cs ! m)) name)"
      using False "2.prems" eq k by (intro "2.IH") auto
    then show ?thesis using False k by (auto simp: nth_Cons less_Suc_eq_0_disj split: nat.splits)
  qed
qed simp

lemma indexOf_first:
  assumes "0 \<le> indexOf s name"
  shows "ci_eq (cd_name (s ! nat (indexOf s name))) name"
    and "j < nat (indexOf s name) \<Longrightarrow> \<not> ci_eq (cd_name (s ! j)) name"
  using indexOf_from_first [of 0 s name "nat (indexOf s name)"] assms
  by (auto simp: indexOf_def)

lemma indexOf_from_none: "0 \<le> i \<Longrightarrow> (indexOf_from i s name = - 1) = (\<forall>c \<in> set s. \<not> ci_eq (cd_name c) name)"
  by (induction i s name rule: indexOf_from.induct) auto

lemma indexOf_none: "(indexOf s name = - 1) = (\<forall>c \<in> set s. \<not> ci_eq (cd_name c) name)"
  by (simp add: indexOf_def indexOf_from_none)

lemma indexOf_from_append:
  "0 \<le> i \<Longrightarrow> indexOf_from i (l @ r) name =
     (if indexOf_from i l name = - 1 then indexOf_from (i + int (length l)) r name
      else indexOf_from i l name)"
  by (induction i l name rule: indexOf_from.induct) (auto simp: algebra_simps)

subsection \<open>Batch\<close>

definition kDefaultBatchSize :: nat where
  "kDefaultBatchSize = 1024"

record batch =
  b_schema :: schema
  b_columns :: "value list list"
  numRows :: nat

text \<open>\<open>Batch(s)\<close> and the empty batch test.\<close>

definition mk_batch :: "schema \<Rightarrow> batch" where
  "mk_batch s = \<lparr>b_schema = s, b_columns = replicate (length s) [], numRows = 0\<rparr>"

definition batch_empty :: "batch \<Rightarrow> bool" where
  "batch_empty b = (numRows b = 0)"

text \<open>\<open>appendRow\<close> asserts that the row has one value per column of the schema.\<close>

definition appendRow :: "batch \<Rightarrow> row \<Rightarrow> batch res" where
  "appendRow b r =
     (if length r = length (b_schema b)
      then Inr (b\<lparr>b_columns := map (\<lambda>(col, v). col @ [v]) (zip (b_columns b) r),
                   numRows := Suc (numRows b)\<rparr>)
      else Inl (Undefined ''assert: row width''))"

definition batch_at :: "batch \<Rightarrow> nat \<Rightarrow> nat \<Rightarrow> value res" where
  "batch_at b r c =
     (if c < length (b_columns b) \<and> r < numRows b then rbind (vec_at (b_columns b) c) (\<lambda>col. vec_at col r)
      else Inl (Undefined ''assert: batch index''))"

definition batch_getRow :: "batch \<Rightarrow> nat \<Rightarrow> row res" where
  "batch_getRow b r = rmapM (\<lambda>col. vec_at col r) (b_columns b)"

text \<open>The rows of a batch, in order (the \<open>for\<close> loops over \<open>numRows\<close>).\<close>

definition batch_rows :: "batch \<Rightarrow> row list res" where
  "batch_rows b = rmapM (batch_getRow b) [0..<numRows b]"

text \<open>Appending a list of rows, one after another.\<close>

definition appendRows :: "batch \<Rightarrow> row list \<Rightarrow> batch res" where
  "appendRows b rs = rfold appendRow b rs"

definition wf_batch :: "batch \<Rightarrow> bool" where
  "wf_batch b = (length (b_columns b) = length (b_schema b)
     \<and> (\<forall>col \<in> set (b_columns b). length col = numRows b))"

definition rows_of :: "batch \<Rightarrow> row list" where
  "rows_of b = map (\<lambda>r. map (\<lambda>col. col ! r) (b_columns b)) [0..<numRows b]"

lemma wf_mk_batch [simp]: "wf_batch (mk_batch s)"
  by (simp add: wf_batch_def mk_batch_def)

lemma mk_batch_simps [simp]:
  "b_schema (mk_batch s) = s" "numRows (mk_batch s) = 0" "rows_of (mk_batch s) = []"
  "batch_empty (mk_batch s)"
  by (simp_all add: mk_batch_def rows_of_def batch_empty_def)

lemma length_rows_of [simp]: "length (rows_of b) = numRows b"
  by (simp add: rows_of_def)

lemma batch_rows_wf: "wf_batch b \<Longrightarrow> batch_rows b = Inr (rows_of b)"
  unfolding batch_rows_def rows_of_def
  by (rule rmapM_Inr_map) (auto simp: batch_getRow_def wf_batch_def intro!: rmapM_Inr_map)

lemma rows_of_width: "wf_batch b \<Longrightarrow> r \<in> set (rows_of b) \<Longrightarrow> length r = length (b_schema b)"
  by (auto simp: rows_of_def wf_batch_def)

lemma appendRow_Inr:
  assumes "wf_batch b" "length r = length (b_schema b)"
  obtains b' where "appendRow b r = Inr b'" "wf_batch b'" "rows_of b' = rows_of b @ [r]"
    "b_schema b' = b_schema b" "numRows b' = Suc (numRows b)"
proof -
  let ?b = "b\<lparr>b_columns := map (\<lambda>(col, v). col @ [v]) (zip (b_columns b) r),
               numRows := Suc (numRows b)\<rparr>"
  have len: "length (b_columns b) = length r" using assms by (simp add: wf_batch_def)
  have cl: "\<And>i. i < length r \<Longrightarrow> length (b_columns b ! i) = numRows b"
    using assms len by (simp add: wf_batch_def)
  have wf: "wf_batch ?b"
    using assms len cl by (auto simp: wf_batch_def set_zip)
  have "rows_of ?b = rows_of b @ [r]"
  proof -
    have "map (\<lambda>col. col ! k) (b_columns ?b) = map (\<lambda>col. col ! k) (b_columns b)" if "k < numRows b" for k
      using that len cl by (auto simp: list_eq_iff_nth_eq nth_append)
    moreover have "map (\<lambda>col. col ! numRows b) (b_columns ?b) = r"
      using len cl by (auto simp: list_eq_iff_nth_eq nth_append)
    ultimately show ?thesis unfolding rows_of_def by simp
  qed
  with wf show thesis using assms(2) by (intro that [of ?b]) (auto simp: appendRow_def)
qed

text \<open>The row that a batch over schema \<open>s\<close> accepts.\<close>

definition fit_row :: "schema \<Rightarrow> row \<Rightarrow> row res" where
  "fit_row s r = (if length r = length s then Inr r else Inl (Undefined ''assert: row width''))"

interpretation batch: append_store "\<lambda>b. wf_batch b \<and> b_schema b = s" appendRow rows_of "fit_row s"
  for s
proof unfold_locales
  fix b r y
  assume "wf_batch b \<and> b_schema b = s" "fit_row s r = Inr y"
  then show "\<exists>b'. appendRow b r = Inr b' \<and> (wf_batch b' \<and> b_schema b' = s) \<and> rows_of b' = rows_of b @ [y]"
    by (auto simp: fit_row_def split: if_splits elim: appendRow_Inr)
next
  fix b r e
  assume "wf_batch b \<and> b_schema b = s" "fit_row s r = Inl e"
  then show "appendRow b r = Inl e"
    by (auto simp: fit_row_def appendRow_def split: if_splits)
qed

lemma fit_rows: "(\<And>r. r \<in> set rs \<Longrightarrow> length r = length s) \<Longrightarrow> rmapM (fit_row s) rs = Inr rs"
  by (induction rs) (auto simp: fit_row_def)

lemma appendRows_Inr:
  assumes "wf_batch b" "\<And>r. r \<in> set rs \<Longrightarrow> length r = length (b_schema b)"
  obtains b' where "appendRows b rs = Inr b'" "wf_batch b'" "rows_of b' = rows_of b @ rs"
    "b_schema b' = b_schema b"
  using batch.push_all [of b "b_schema b" rs rs] fit_rows assms
  by (metis appendRows_def)

lemma batch_empty_rows: "batch_empty b = (rows_of b = [])"
  by (metis batch_empty_def length_0_conv length_rows_of)

end
