(* ===== verification/LQ_Ast.thy ===== *)
theory LQ_Ast
  imports LQ_Types
begin

section \<open>The abstract syntax tree\<close>

text \<open>
  Model of \<open>src/parser/ast.h\<close>. The variants \<open>ExprNode\<close> and \<open>TableRefNode\<close>, the clause
  structs and \<open>SelectStmt\<close> contain each other and are one group of datatypes, with the
  fields in the order of the code; \<open>std::optional\<close> is \<open>option\<close>, and a
  \<open>unique_ptr\<close> is the tree it owns. The wrapper structs with one field beside the location
  (\<open>FromClause\<close>, \<open>WhereClause\<close>, \<open>GroupByClause\<close>, \<open>HavingClause\<close>,
  \<open>OrderByClause\<close>) are that field.
  Every node of the code has a \<open>SourceLocation\<close>, which nothing reads. The model keeps it in
  \<open>FunctionCall\<close> only, where it stands for the address of the node: the query builder
  compares addresses of calls, and two calls of one statement start at different tokens.
\<close>

subsection \<open>Enumerations\<close>

datatype sort_order = ASC | DESC
datatype nulls_order = NULLS_FIRST | NULLS_LAST | UNSPECIFIED
datatype join_type = INNER | LEFT | RIGHT | FULL | CROSS
datatype set_op = UNION | UNION_ALL | INTERSECT | EXCEPT
datatype frame_mode = ROWS | RANGE
datatype frame_bound =
  UNBOUNDED_PRECEDING | CURRENT_ROW | UNBOUNDED_FOLLOWING | EXPR_PRECEDING | EXPR_FOLLOWING
datatype unary_op = NEGATE | PLUS | NOT
datatype binary_op =
    ADD | SUB | MUL | DIV | MOD | POW
  | EQ | NEQ | LT | LTE | GT | GTE
  | AND | OR
  | CONCAT | LIKE | ILIKE
  | JSON_ARROW | JSON_ARROW2

datatype location = Loc (loc_line: "32 word") (loc_column: "32 word")

subsection \<open>Expressions, table references and SELECT\<close>

datatype expr =
    Literal "value"
  | ColumnRef "string option" "string option" string
  | UnaryExpr unary_op expr
  | BinaryExpr binary_op expr expr
  | FunctionCall string "expr list" bool bool location
  | CastExpr expr data_type
  | CaseExpr "expr option" "(expr \<times> expr) list" "expr option"
  | InExpr expr in_values bool
  | BetweenExpr expr expr expr bool
  | IsNullExpr expr bool
  | ExistsExpr select_stmt bool
  | SubqueryExpr select_stmt
  | WindowExpr expr "expr list" "sort_key list" "frame_spec option"
and in_values = InList "expr list" | InSelect select_stmt
and frame_spec = FrameSpec frame_mode frame_bound frame_bound "expr option" "expr option"
and sort_key = SortKey (sk_expr: expr) (sk_order: sort_order) (sk_nulls: nulls_order)
and table_ref =
    TableRef "string option" string
  | AliasedRef table_ref string
  | JoinRef join_type table_ref table_ref "expr option"
  | SubqueryRef select_stmt
and select_stmt = SelectStmt
  (ss_distinct: bool)
  (ss_selectList: "(expr \<times> string option) list")
  (ss_from: "table_ref list option")
  (ss_where: "expr option")
  (ss_groupBy: "expr list option")
  (ss_having: "expr option")
  (ss_orderBy: "sort_key list option")
  (ss_limit: "(expr option \<times> expr option) option")
  (ss_setOp: "(set_op \<times> select_stmt) option")

type_synonym case_when = "expr \<times> expr"
type_synonym select_item = "expr \<times> string option"
type_synonym limit_clause = "expr option \<times> expr option"

fun isStar :: "expr \<Rightarrow> bool" where
  "isStar (ColumnRef s t c) = (c = ''*'')"
| "isStar _ = False"

definition qualifier :: "string option \<Rightarrow> string" where
  "qualifier q = (case q of None \<Rightarrow> [] | Some s \<Rightarrow> s @ ''.'')"

definition columnRef_string :: "string option \<Rightarrow> string option \<Rightarrow> string \<Rightarrow> string" where
  "columnRef_string s t c = qualifier s @ qualifier t @ c"

definition aggregate_names :: "string list" where
  "aggregate_names = [''SUM'', ''COUNT'', ''AVG'', ''MIN'', ''MAX'', ''STDDEV'', ''VARIANCE'']"

definition isAggregate :: "string \<Rightarrow> bool" where
  "isAggregate f = (f \<in> set aggregate_names)"

subsection \<open>Statements\<close>

datatype insert_source = InsertValues "expr list list" | InsertSelect select_stmt

record insert_stmt =
  ins_table :: string
  ins_schema :: "string option"
  ins_columns :: "string list"
  ins_source :: insert_source

record update_stmt =
  upd_table :: string
  upd_schema :: "string option"
  upd_assignments :: "(string \<times> expr) list"
  upd_where :: "expr option"

record delete_stmt =
  del_table :: string
  del_schema :: "string option"
  del_where :: "expr option"

datatype constraint_kind = NOT_NULL | PRIMARY_KEY | UNIQUE | DEFAULT | CHECK

record column_constraint =
  cc_kind :: constraint_kind
  cc_expr :: "expr option"

record column_spec =
  cs_name :: string
  cs_type :: data_type
  cs_constraints :: "column_constraint list"

definition isNotNull :: "column_spec \<Rightarrow> bool" where
  "isNotNull c = list_ex (\<lambda>k. cc_kind k = NOT_NULL) (cs_constraints c)"

definition isPrimaryKey :: "column_spec \<Rightarrow> bool" where
  "isPrimaryKey c = list_ex (\<lambda>k. cc_kind k = PRIMARY_KEY) (cs_constraints c)"

record create_table_stmt =
  ct_schema :: "string option"
  ct_name :: string
  ct_columns :: "column_spec list"
  ct_ifNotExists :: bool

record drop_table_stmt =
  dt_schema :: "string option"
  dt_name :: string
  dt_ifExists :: bool

datatype stmt =
    StmtSelect select_stmt
  | StmtInsert insert_stmt
  | StmtUpdate update_stmt
  | StmtDelete delete_stmt
  | StmtCreateTable create_table_stmt
  | StmtDropTable drop_table_stmt

end
