(* ===== verification/LQ_Eval.thy ===== *)
theory LQ_Eval
  imports LQ_Ast
begin

section \<open>The scalar evaluator\<close>

text \<open>
  Model of \<open>src/execution/eval.cpp\<close>: \<open>evaluate\<close> maps an expression, a schema and a row to
  a value or to the exception that leaves the code. Signed overflow, \<open>row[idx]\<close> beyond the
  row and an out-of-range cast to \<open>int64_t\<close> are undefined behaviour and give \<open>Undefined\<close>.
  \<open>std::pow\<close> is the parameter \<open>pw\<close> of every definition that reaches it.
  Lemmas: comparison is antisymmetric and total on comparable values; the three-valued
  connectives obey De Morgan's laws, errors and short cuts included; IN, BETWEEN and simple
  CASE are equivalent to what SQL defines them by, within the limits their texts name; integer
  expressions have their mathematical value as long as it fits; the greedy backtracking of \<open>likeMatch\<close>
  decides the declarative meaning of a LIKE pattern.
\<close>

subsection \<open>Comparison and truth values\<close>

definition isNumeric :: "value \<Rightarrow> bool" where
  "isNumeric v = typeIsNumeric (typeId v)"

definition bothIntegers :: "value \<Rightarrow> value \<Rightarrow> bool" where
  "bothIntegers a b = (typeIsInteger (typeId a) \<and> typeIsInteger (typeId b))"

text \<open>\<open>(x < y) ? -1 : (x > y ? 1 : 0)\<close>.\<close>

definition three_way :: "bool \<Rightarrow> bool \<Rightarrow> int" where
  "three_way lt gt = (if lt then - 1 else if gt then 1 else 0)"

text \<open>-1, 0 or 1, and 2 when a side is NULL.\<close>

definition compareValues :: "value \<Rightarrow> value \<Rightarrow> int res" where
  "compareValues a b =
     (if isNull a \<or> isNull b then Inr 2
      else if isNumeric a \<and> isNumeric b then
        (if bothIntegers a b then
           rbind (toInt64 a) (\<lambda>x. rbind (toInt64 b) (\<lambda>y.
             Inr (three_way (sint x < sint y) (sint y < sint x))))
         else
           rbind (toDouble a) (\<lambda>x. rbind (toDouble b) (\<lambda>y.
             Inr (three_way (f64_lt x y) (f64_lt y x)))))
      else if typeId a = BOOLEAN \<and> typeId b = BOOLEAN then
        rbind (getBool a) (\<lambda>x. rbind (getBool b) (\<lambda>y.
          Inr (if x = y then 0 else if \<not> x then - 1 else 1)))
      else if typeId a = VARCHAR \<and> typeId b = VARCHAR then
        rbind (getString a) (\<lambda>x. rbind (getString b) (\<lambda>y.
          Inr (three_way (x < y) (y < x))))
      else Inl (EvalError ''cannot compare values of incompatible types''))"

definition f64_nonzero :: "f64 \<Rightarrow> bool" where
  "f64_nonzero x = (\<not> f64_eq x (f64_zero False))"

text \<open>0 (false), 1 (true) or 2 (unknown).\<close>

definition truthiness :: "value \<Rightarrow> int res" where
  "truthiness v =
     (if isNull v then Inr 2
      else if typeId v = BOOLEAN then rmap (\<lambda>b. if b then 1 else 0) (getBool v)
      else if typeIsInteger (typeId v) then rmap (\<lambda>i. if i \<noteq> 0 then 1 else 0) (toInt64 v)
      else if typeIsFloat (typeId v) then rmap (\<lambda>d. if f64_nonzero d then 1 else 0) (toDouble v)
      else Inl (EvalError ''expression is not boolean-convertible''))"

definition boolValue :: "int \<Rightarrow> value" where
  "boolValue t = (if t = 2 then VNull else VBool (t = 1))"

subsection \<open>Arithmetic\<close>

text \<open>A signed 64-bit result: the exact integer, or undefined behaviour.\<close>

definition i64_exact :: "int \<Rightarrow> value res" where
  "i64_exact i =
     (if - (2 ^ 63) \<le> i \<and> i < 2 ^ 63 then Inr (VI64 (word_of_int i))
      else Inl (Undefined ''signed overflow''))"

text \<open>The remainder of C++, with the sign of the dividend.\<close>

definition c_rem :: "int \<Rightarrow> int \<Rightarrow> int" where
  "c_rem a b = (let m = \<bar>a\<bar> mod \<bar>b\<bar> in if a < 0 then - m else m)"

definition int_arith :: "binary_op \<Rightarrow> 64 word \<Rightarrow> 64 word \<Rightarrow> value res option" where
  "int_arith op a b = (case op of
       ADD \<Rightarrow> Some (i64_exact (sint a + sint b))
     | SUB \<Rightarrow> Some (i64_exact (sint a - sint b))
     | MUL \<Rightarrow> Some (i64_exact (sint a * sint b))
     | MOD \<Rightarrow> Some (if b = 0 then Inr VNull
                else if sint a = - (2 ^ 63) \<and> sint b = - 1 then Inl (Undefined ''signed overflow'')
                else Inr (VI64 (word_of_int (c_rem (sint a) (sint b)))))
     | _ \<Rightarrow> None)"

definition double_arith :: "(f64 \<Rightarrow> f64 \<Rightarrow> f64) \<Rightarrow> binary_op \<Rightarrow> f64 \<Rightarrow> f64 \<Rightarrow> value res" where
  "double_arith pw op a b = (case op of
       ADD \<Rightarrow> Inr (VF64 (f64_add a b))
     | SUB \<Rightarrow> Inr (VF64 (f64_sub a b))
     | MUL \<Rightarrow> Inr (VF64 (f64_mul a b))
     | DIV \<Rightarrow> Inr (if f64_nonzero b then VF64 (f64_div a b) else VNull)
     | MOD \<Rightarrow> Inr (if f64_nonzero b then VF64 (f64_fmod a b) else VNull)
     | POW \<Rightarrow> Inr (VF64 (pw a b))
     | _ \<Rightarrow> Inl (EvalError ''unsupported arithmetic operator''))"

definition evalArithmetic ::
    "(f64 \<Rightarrow> f64 \<Rightarrow> f64) \<Rightarrow> binary_op \<Rightarrow> value \<Rightarrow> value \<Rightarrow> value res" where
  "evalArithmetic pw op l r =
     (if isNull l \<or> isNull r then Inr VNull
      else if \<not> isNumeric l \<or> \<not> isNumeric r then
        Inl (EvalError ''arithmetic on non-numeric value'')
      else
        let general = rbind (toDouble l) (\<lambda>a. rbind (toDouble r) (\<lambda>b. double_arith pw op a b))
        in if bothIntegers l r \<and> op \<noteq> DIV then
             rbind (toInt64 l) (\<lambda>a. rbind (toInt64 r) (\<lambda>b.
               case int_arith op a b of Some res \<Rightarrow> res | None \<Rightarrow> general))
           else general)"

subsection \<open>LIKE\<close>

definition like_norm :: "bool \<Rightarrow> char \<Rightarrow> char" where
  "like_norm ci c = (if ci then tolower c else c)"

text \<open>The loop over \<open>ti\<close>, \<open>pi\<close>, \<open>star\<close> and \<open>tstar\<close>, and the one that skips the last \<open>%\<close>.\<close>

function like_tail :: "string \<Rightarrow> nat \<Rightarrow> bool" where
  "like_tail p pi =
     (if pi < length p \<and> p ! pi = CHR ''%'' then like_tail p (Suc pi) else pi = length p)"
  by pat_completeness auto
termination by (relation "measure (\<lambda>(p, pi). length p - pi)") auto

declare like_tail.simps [simp del]

function like_loop ::
    "bool \<Rightarrow> string \<Rightarrow> string \<Rightarrow> nat \<Rightarrow> nat \<Rightarrow> nat option \<Rightarrow> nat \<Rightarrow> bool" where
  "like_loop ci t p ti pi star tstar =
     (if ti < length t then
        (if pi < length p \<and> (p ! pi = CHR ''_'' \<or> like_norm ci (p ! pi) = like_norm ci (t ! ti))
         then like_loop ci t p (Suc ti) (Suc pi) star tstar
         else if pi < length p \<and> p ! pi = CHR ''%''
         then like_loop ci t p ti (Suc pi) (Some pi) ti
         else (case star of
             Some s \<Rightarrow> like_loop ci t p (Suc tstar) (Suc s) star (Suc tstar)
           | None \<Rightarrow> False))
      else like_tail p pi)"
  by pat_completeness auto
termination
  by (relation "measures
       [\<lambda>(ci, t, p, ti, pi, star, tstar). if star \<noteq> None \<and> ti < tstar then 1 else 0,
        \<lambda>(ci, t, p, ti, pi, star, tstar).
          case star of None \<Rightarrow> Suc (length t) | Some s \<Rightarrow> length t - tstar,
        \<lambda>(ci, t, p, ti, pi, star, tstar). (length t - ti) + (length p - pi)]")
     (auto split: option.splits)

declare like_loop.simps [simp del]

definition likeMatch :: "string \<Rightarrow> string \<Rightarrow> bool \<Rightarrow> bool" where
  "likeMatch text pattern ci = like_loop ci text pattern 0 0 None 0"

subsection \<open>The operators on evaluated operands\<close>

definition eval_not :: "value \<Rightarrow> value res" where
  "eval_not v = rmap (\<lambda>t. boolValue (if t = 2 then 2 else if t = 1 then 0 else 1)) (truthiness v)"

definition eval_unary :: "unary_op \<Rightarrow> value \<Rightarrow> value res" where
  "eval_unary op v = (case op of
       PLUS \<Rightarrow> Inr v
     | NEGATE \<Rightarrow>
         if isNull v then Inr VNull
         else if typeIsInteger (typeId v) then rbind (toInt64 v) (\<lambda>i. i64_exact (- sint i))
         else rmap (\<lambda>d. VF64 (f64_neg d)) (toDouble v)
     | NOT \<Rightarrow> eval_not v)"

definition compare_result :: "binary_op \<Rightarrow> int \<Rightarrow> value" where
  "compare_result op c =
     (if c = 2 then VNull
      else case op of
          EQ \<Rightarrow> VBool (c = 0) | NEQ \<Rightarrow> VBool (c \<noteq> 0)
        | LT \<Rightarrow> VBool (c < 0) | LTE \<Rightarrow> VBool (c \<le> 0)
        | GT \<Rightarrow> VBool (0 < c) | GTE \<Rightarrow> VBool (0 \<le> c)
        | _ \<Rightarrow> VNull)"

definition eval_like :: "bool \<Rightarrow> value \<Rightarrow> value \<Rightarrow> value res" where
  "eval_like ci l r =
     (if isNull l \<or> isNull r then Inr VNull
      else rbind (getString l) (\<lambda>t. rbind (getString r) (\<lambda>p. Inr (VBool (likeMatch t p ci)))))"

text \<open>Every operator but \<open>AND\<close> and \<open>OR\<close>, which do not evaluate both operands.\<close>

definition eval_binary ::
    "(f64 \<Rightarrow> f64 \<Rightarrow> f64) \<Rightarrow> binary_op \<Rightarrow> value \<Rightarrow> value \<Rightarrow> value res" where
  "eval_binary pw op l r =
     (if op \<in> {ADD, SUB, MUL, DIV, MOD, POW} then evalArithmetic pw op l r
      else if op \<in> {EQ, NEQ, LT, LTE, GT, GTE} then rmap (compare_result op) (compareValues l r)
      else if op = CONCAT then
        Inr (if isNull l \<or> isNull r then VNull else VStr (value_string l @ value_string r))
      else if op = LIKE then eval_like False l r
      else if op = ILIKE then eval_like True l r
      else Inl (EvalError ''unsupported binary operator in evaluator''))"

definition eval_between :: "bool \<Rightarrow> value \<Rightarrow> value \<Rightarrow> value \<Rightarrow> value res" where
  "eval_between negated v lo hi =
     rbind (compareValues v lo) (\<lambda>cl. rbind (compareValues v hi) (\<lambda>ch.
       Inr (if cl = 2 \<or> ch = 2 then VNull
            else let b = (0 \<le> cl \<and> ch \<le> 0) in VBool (if negated then \<not> b else b))))"

definition eval_cast :: "type_id \<Rightarrow> value \<Rightarrow> value res" where
  "eval_cast target v =
     (if isNull v then Inr VNull
      else if typeIsInteger target then rbind (toDouble v) (\<lambda>d. rmap VI64 (f64_to_i64 d))
      else if typeIsFloat target then rmap VF64 (toDouble v)
      else if target = VARCHAR then Inr (VStr (value_string v))
      else if target = BOOLEAN then rmap (\<lambda>t. VBool (t = 1)) (truthiness v)
      else Inr v)"

definition fn_abs :: "value \<Rightarrow> value res" where
  "fn_abs v =
     (if isNull v then Inr VNull
      else if typeIsInteger (typeId v) then rbind (toInt64 v) (\<lambda>i. i64_exact \<bar>sint i\<bar>)
      else rmap (\<lambda>d. VF64 (f64_abs d)) (toDouble v))"

definition fn_length :: "value \<Rightarrow> value res" where
  "fn_length v =
     (if isNull v then Inr VNull
      else rmap (\<lambda>s. VI64 (word_of_nat (length s))) (getString v))"

definition fn_map_chars :: "(char \<Rightarrow> char) \<Rightarrow> value \<Rightarrow> value res" where
  "fn_map_chars f v = (if isNull v then Inr VNull else rmap (\<lambda>s. VStr (map f s)) (getString v))"

definition fn_round :: "(f64 \<Rightarrow> f64 \<Rightarrow> f64) \<Rightarrow> f64 \<Rightarrow> 32 word \<Rightarrow> value" where
  "fn_round pw d nd =
     (let f = pw (f64_of_int 10) (f64_of_int (sint nd))
      in VF64 (f64_div (f64_roundi (f64_mul d f)) f))"

subsection \<open>Expressions\<close>

definition find_column :: "schema \<Rightarrow> string option \<Rightarrow> string \<Rightarrow> int" where
  "find_column sch t c =
     (let q = (case t of None \<Rightarrow> - 1 | Some tn \<Rightarrow> indexOf sch (tn @ ''.'' @ c))
      in if q < 0 then indexOf sch c else q)"

definition eval_column ::
    "schema \<Rightarrow> row \<Rightarrow> string option \<Rightarrow> string option \<Rightarrow> string \<Rightarrow> value res" where
  "eval_column sch row s t c =
     (if c = ''*'' then Inl (EvalError (quoted ''*'' @ '' is not a scalar expression''))
      else let idx = find_column sch t c
        in if idx < 0 then Inl (EvalError (''unknown column: '' @ columnRef_string s t c))
           else vec_at row (nat idx))"

text \<open>
  The loops of \<open>evaluate\<close> over the arguments of \<open>COALESCE\<close>, an IN list and the WHEN clauses,
  over the function \<open>f\<close> that evaluates one expression.
\<close>

fun coalesce_loop :: "('e \<Rightarrow> value res) \<Rightarrow> 'e list \<Rightarrow> value res" where
  "coalesce_loop f [] = Inr VNull"
| "coalesce_loop f (e # es) =
     rbind (f e) (\<lambda>v. if \<not> isNull v then Inr v else coalesce_loop f es)"

fun in_loop :: "('e \<Rightarrow> value res) \<Rightarrow> value \<Rightarrow> bool \<Rightarrow> bool \<Rightarrow> 'e list \<Rightarrow> value res" where
  "in_loop f v negated sawNull [] = Inr (if sawNull then VNull else VBool negated)"
| "in_loop f v negated sawNull (e # es) =
     rbind (f e) (\<lambda>iv.
       if isNull iv then in_loop f v negated True es
       else rbind (compareValues v iv) (\<lambda>c.
         if c = 0 then Inr (VBool (\<not> negated)) else in_loop f v negated sawNull es))"

fun case_loop ::
    "('e \<Rightarrow> value res) \<Rightarrow> value option \<Rightarrow> ('e \<times> 'e) list \<Rightarrow> 'e option \<Rightarrow> value res" where
  "case_loop f subject [] els = (case els of Some e \<Rightarrow> f e | None \<Rightarrow> Inr VNull)"
| "case_loop f subject (w # ws) els =
     rbind (rbind (f (fst w)) (\<lambda>cond.
              case subject of
                Some v \<Rightarrow> rmap (\<lambda>c. c = 0) (compareValues v cond)
              | None \<Rightarrow> rmap (\<lambda>t. t = 1) (truthiness cond)))
       (\<lambda>matched. if matched then f (snd w) else case_loop f subject ws els)"

lemma coalesce_loop_cong [fundef_cong]:
  "es = es' \<Longrightarrow> (\<And>e. e \<in> set es' \<Longrightarrow> f e = g e) \<Longrightarrow> coalesce_loop f es = coalesce_loop g es'"
  by (induction es' arbitrary: es) (auto intro: rbind_cong)

lemma in_loop_cong [fundef_cong]:
  "v = v' \<Longrightarrow> n = n' \<Longrightarrow> b = b' \<Longrightarrow> es = es' \<Longrightarrow> (\<And>e. e \<in> set es' \<Longrightarrow> f e = g e) \<Longrightarrow>
     in_loop f v n b es = in_loop g v' n' b' es'"
  by (induction es' arbitrary: es b b') (auto intro!: rbind_cong)

lemma case_loop_cong [fundef_cong]:
  "sj = sj' \<Longrightarrow> ws = ws' \<Longrightarrow> els = els' \<Longrightarrow>
     (\<And>w. w \<in> set ws' \<Longrightarrow> f (fst w) = g (fst w)) \<Longrightarrow>
     (\<And>w. w \<in> set ws' \<Longrightarrow> f (snd w) = g (snd w)) \<Longrightarrow>
     (\<And>e. els' = Some e \<Longrightarrow> f e = g e) \<Longrightarrow>
     case_loop f sj ws els = case_loop g sj' ws' els'"
proof (induction ws' arbitrary: ws)
  case (Cons w ws')
  have "f (fst w) = g (fst w)" "f (snd w) = g (snd w)"
    using Cons.prems(4,5) by simp_all
  moreover have "case_loop f sj ws' els = case_loop g sj' ws' els'"
    by (rule Cons.IH) (use Cons.prems in auto)
  ultimately show ?case using Cons.prems(1-3) by (simp cong: if_cong)
qed (auto split: option.splits)

lemma size_case_when:
  "w \<in> set ws \<Longrightarrow> size (fst w) < size_list (size_prod size size) ws
     \<and> size (snd w) < size_list (size_prod size size) ws"
  by (induction ws) auto

text \<open>
  \<open>evaluate\<close>. A call whose name or argument count matches no clause is unknown, and its
  arguments are not evaluated.
\<close>

function evaluate :: "(f64 \<Rightarrow> f64 \<Rightarrow> f64) \<Rightarrow> schema \<Rightarrow> row \<Rightarrow> expr \<Rightarrow> value res" where
  "evaluate pw sch row (Literal v) = Inr v"
| "evaluate pw sch row (ColumnRef s t c) = eval_column sch row s t c"
| "evaluate pw sch row (UnaryExpr op a) = rbind (evaluate pw sch row a) (eval_unary op)"
| "evaluate pw sch row (BinaryExpr op a b) =
     (if op = AND then
        rbind (rbind (evaluate pw sch row a) truthiness) (\<lambda>l.
          if l = 0 then Inr (VBool False)
          else rbind (rbind (evaluate pw sch row b) truthiness) (\<lambda>r.
            if r = 0 then Inr (VBool False)
            else if l = 2 \<or> r = 2 then Inr VNull
            else Inr (VBool True)))
      else if op = OR then
        rbind (rbind (evaluate pw sch row a) truthiness) (\<lambda>l.
          if l = 1 then Inr (VBool True)
          else rbind (rbind (evaluate pw sch row b) truthiness) (\<lambda>r.
            if r = 1 then Inr (VBool True)
            else if l = 2 \<or> r = 2 then Inr VNull
            else Inr (VBool False)))
      else
        rbind (evaluate pw sch row a) (\<lambda>l. rbind (evaluate pw sch row b) (\<lambda>r.
          eval_binary pw op l r)))"
| "evaluate pw sch row (IsNullExpr a negated) =
     rmap (\<lambda>v. VBool (if negated then \<not> isNull v else isNull v)) (evaluate pw sch row a)"
| "evaluate pw sch row (BetweenExpr a lo hi negated) =
     rbind (evaluate pw sch row a) (\<lambda>v.
     rbind (evaluate pw sch row lo) (\<lambda>l.
     rbind (evaluate pw sch row hi) (\<lambda>h. eval_between negated v l h)))"
| "evaluate pw sch row (InExpr a vals negated) =
     rbind (evaluate pw sch row a) (\<lambda>v.
       if isNull v then Inr VNull
       else case vals of
           InSelect sel \<Rightarrow> Inl (EvalError ''IN (subquery) is not supported by the evaluator'')
         | InList es \<Rightarrow> in_loop (evaluate pw sch row) v negated False es)"
| "evaluate pw sch row (CaseExpr subject whens els) =
     (case subject of
        None \<Rightarrow> case_loop (evaluate pw sch row) None whens els
      | Some a \<Rightarrow> rbind (evaluate pw sch row a) (\<lambda>v. case_loop (evaluate pw sch row) (Some v) whens els))"
| "evaluate pw sch row (CastExpr a ty) = rbind (evaluate pw sch row a) (eval_cast (dt_id ty))"
| "evaluate pw sch row (FunctionCall fn args dist star loc) =
     (if isAggregate fn then
        Inl (EvalError (''aggregate '' @ quoted fn @ '' cannot be evaluated as a scalar expression''))
      else if fn = ''COALESCE'' then coalesce_loop (evaluate pw sch row) args
      else case args of
          [] \<Rightarrow> Inl (EvalError (''unknown scalar function: '' @ fn))
        | a # rest \<Rightarrow>
            if fn = ''ABS'' \<and> rest = [] then rbind (evaluate pw sch row a) fn_abs
            else if fn = ''LENGTH'' \<and> rest = [] then rbind (evaluate pw sch row a) fn_length
            else if fn = ''UPPER'' \<and> rest = [] then rbind (evaluate pw sch row a) (fn_map_chars toupper)
            else if fn = ''LOWER'' \<and> rest = [] then rbind (evaluate pw sch row a) (fn_map_chars tolower)
            else if fn = ''ROUND'' then
              rbind (evaluate pw sch row a) (\<lambda>v.
                if isNull v then Inr VNull
                else rbind (toDouble v) (\<lambda>d.
                  rbind (case rest of
                           [] \<Rightarrow> Inr 0
                         | b # _ \<Rightarrow> rbind (evaluate pw sch row b) (\<lambda>w. rmap scast (toInt64 w)))
                    (\<lambda>nd. Inr (fn_round pw d nd))))
            else Inl (EvalError (''unknown scalar function: '' @ fn)))"
| "evaluate pw sch row (ExistsExpr sel negated) =
     Inl (EvalError ''expression type not supported by the evaluator'')"
| "evaluate pw sch row (SubqueryExpr sel) =
     Inl (EvalError ''expression type not supported by the evaluator'')"
| "evaluate pw sch row (WindowExpr f ps ks fr) =
     Inl (EvalError ''expression type not supported by the evaluator'')"
  by pat_completeness auto
termination
  by (relation "measure (\<lambda>(pw, sch, row, e). size e)")
     (auto simp: less_Suc_eq_le trans_le_add1 trans_le_add2
       dest!: size_case_when size_list_estimation' [where f = size and y = "size _"])

declare evaluate.simps [simp del]
lemmas eval_simps = evaluate.simps

definition evaluatePredicate ::
    "(f64 \<Rightarrow> f64 \<Rightarrow> f64) \<Rightarrow> schema \<Rightarrow> row \<Rightarrow> expr \<Rightarrow> bool res" where
  "evaluatePredicate pw sch row e =
     rbind (evaluate pw sch row e) (\<lambda>v.
       if isNull v then Inr False
       else if typeId v = BOOLEAN then getBool v
       else if typeIsInteger (typeId v) then rmap (\<lambda>i. i \<noteq> 0) (toInt64 v)
       else if typeIsFloat (typeId v) then rmap f64_nonzero (toDouble v)
       else Inr False)"

subsection \<open>Comparison and the connectives\<close>

lemma compareValues_null [simp]:
  "compareValues VNull v = Inr 2" "compareValues v VNull = Inr 2"
  by (simp_all add: compareValues_def)

lemma compareValues_two: "(compareValues a b = Inr 2) = (isNull a \<or> isNull b)"
  by (auto simp: compareValues_def three_way_def res_simps split: if_splits)

lemma compareValues_range: "compareValues a b = Inr c \<Longrightarrow> c \<in> {- 1, 0, 1, 2}"
  by (auto simp: compareValues_def three_way_def res_simps split: if_splits)

lemma truthiness_range: "truthiness v = Inr t \<Longrightarrow> t \<in> {0, 1, 2}"
  by (auto simp: truthiness_def res_simps split: if_splits)

lemma truthiness_boolValue [simp]:
  "t \<in> {0, 1, 2} \<Longrightarrow> truthiness (boolValue t) = Inr t"
  by (auto simp: truthiness_def boolValue_def)

lemma truthiness_simps [simp]:
  "truthiness VNull = Inr 2" "truthiness (VBool b) = Inr (if b then 1 else 0)"
  "truthiness (VI8 i8) = Inr (if (scast i8 :: 64 word) \<noteq> 0 then 1 else 0)"
  "truthiness (VI16 i16) = Inr (if (scast i16 :: 64 word) \<noteq> 0 then 1 else 0)"
  "truthiness (VI32 i32) = Inr (if (scast i32 :: 64 word) \<noteq> 0 then 1 else 0)"
  "truthiness (VI64 i64) = Inr (if i64 \<noteq> 0 then 1 else 0)"
  "truthiness (VF32 f) = Inr (if f64_nonzero (f32_to_f64 f) then 1 else 0)"
  "truthiness (VF64 d) = Inr (if f64_nonzero d then 1 else 0)"
  "truthiness (VStr s) = Inl (EvalError ''expression is not boolean-convertible'')"
  by (simp_all add: truthiness_def typeIsFloat_def)

lemma eval_not_simps [simp]:
  "eval_not VNull = Inr VNull" "eval_not (VBool b) = Inr (VBool (\<not> b))"
  by (simp_all add: eval_not_def boolValue_def)

text \<open>The value of NOT, read back.\<close>

lemma truthiness_eval_not:
  "rbind (eval_not v) truthiness = rmap (\<lambda>t. if t = 2 then 2 else if t = 1 then 0 else 1) (truthiness v)"
proof (cases "truthiness v")
  case (Inr t)
  then have "t \<in> {0, 1, 2}" by (rule truthiness_range)
  then show ?thesis using Inr by (auto simp: eval_not_def boolValue_def)
qed (simp add: eval_not_def)

text \<open>The result with the operands exchanged.\<close>

definition flip_cmp :: "int \<Rightarrow> int" where
  "flip_cmp c = (if c = 2 then 2 else - c)"

lemma typeId_isNull: "(typeId v = INVALID) = isNull v"
  by (cases v) auto

lemma three_way_simps [simp]:
  "three_way True g = - 1" "three_way False True = 1" "three_way False False = 0"
  by (simp_all add: three_way_def)

lemma three_way_range: "three_way l g \<in> {- 1, 0, 1}" "three_way l g \<noteq> 2"
  by (simp_all add: three_way_def)

lemma three_way_flip: "\<not> (l \<and> g) \<Longrightarrow> flip_cmp (three_way l g) = three_way g l"
  by (simp add: three_way_def flip_cmp_def)

lemma three_way_flips [simp]:
  "flip_cmp (three_way (f64_lt x y) (f64_lt y x)) = three_way (f64_lt y x) (f64_lt x y)"
  "flip_cmp (three_way (u < v) (v < u)) = three_way (v < u) (u < v)" for u :: "'a :: linorder"
  by (rule three_way_flip; auto dest: f64_lt_asym)+

lemma typeId_cases:
  "typeId v = BOOLEAN \<Longrightarrow> \<exists>b. v = VBool b" "typeId v = VARCHAR \<Longrightarrow> \<exists>s. v = VStr s"
  by (cases v; simp)+

lemma isNumeric_simps [simp]:
  "\<not> isNumeric VNull" "\<not> isNumeric (VBool b)" "isNumeric (VI8 i8)" "isNumeric (VI16 i16)"
  "isNumeric (VI32 i32)" "isNumeric (VI64 i64)" "isNumeric (VF32 f)" "isNumeric (VF64 d)"
  "\<not> isNumeric (VStr s)"
  by (simp_all add: isNumeric_def typeIsNumeric_def typeIsFloat_def)

lemma toInt64_integer: "typeIsInteger (typeId v) \<Longrightarrow> \<exists>i. toInt64 v = Inr i"
  by (cases v) auto

lemma toDouble_numeric: "isNumeric v \<Longrightarrow> \<exists>d. toDouble v = Inr d"
  by (cases v) (auto simp: isNumeric_def typeIsNumeric_def typeIsFloat_def)

lemma compareValues_flip: "compareValues b a = rmap flip_cmp (compareValues a b)"
proof -
  consider (null) "isNull a \<or> isNull b"
    | (num) "\<not> isNull a" "\<not> isNull b" "isNumeric a" "isNumeric b"
    | (other) "\<not> isNull a" "\<not> isNull b" "\<not> (isNumeric a \<and> isNumeric b)"
    by blast
  then show ?thesis
  proof cases
    case null
    then show ?thesis by (auto simp: compareValues_def flip_cmp_def)
  next
    case num
    then obtain x y where d: "toDouble a = Inr x" "toDouble b = Inr y"
      using toDouble_numeric by blast
    show ?thesis
    proof (cases "bothIntegers a b")
      case True
      then obtain i j where "toInt64 a = Inr i" "toInt64 b = Inr j"
        unfolding bothIntegers_def using toInt64_integer by blast
      moreover have "bothIntegers b a" using True by (simp add: bothIntegers_def)
      ultimately show ?thesis using num True by (simp add: compareValues_def)
    next
      case False
      moreover have "\<not> bothIntegers b a" using False by (auto simp: bothIntegers_def)
      ultimately show ?thesis using num d by (simp add: compareValues_def)
    qed
  next
    case other
    consider x y where "a = VBool x" "b = VBool y" | x y where "a = VStr x" "b = VStr y"
      | "\<not> (typeId a = BOOLEAN \<and> typeId b = BOOLEAN)" "\<not> (typeId a = VARCHAR \<and> typeId b = VARCHAR)"
      by (metis typeId_cases(1,2))
    then show ?thesis
    proof cases
      case 3
      then have n: "(typeId b = BOOLEAN \<and> typeId a = BOOLEAN) = False"
        "(typeId b = VARCHAR \<and> typeId a = VARCHAR) = False"
        "(typeId a = BOOLEAN \<and> typeId b = BOOLEAN) = False"
        "(typeId a = VARCHAR \<and> typeId b = VARCHAR) = False" by blast+
      from other have m: "(isNull a \<or> isNull b) = False" "(isNull b \<or> isNull a) = False"
        "(isNumeric a \<and> isNumeric b) = False" "(isNumeric b \<and> isNumeric a) = False" by blast+
      have "compareValues a b = Inl (EvalError ''cannot compare values of incompatible types'')"
        "compareValues b a = Inl (EvalError ''cannot compare values of incompatible types'')"
        unfolding compareValues_def by (simp_all only: n m if_False)
      then show ?thesis by simp
    next
      case (1 x y)
      then show ?thesis by (simp add: compareValues_def flip_cmp_def)
    next
      case (2 x y)
      then show ?thesis by (simp add: compareValues_def)
    qed
  qed
qed

lemma evaluatePredicate_truth:
  assumes "rbind (evaluate pw sch row e) truthiness = Inr t"
  shows "evaluatePredicate pw sch row e = Inr (t = 1)"
proof -
  from assms obtain v where ev: "evaluate pw sch row e = Inr v" and t: "truthiness v = Inr t"
    by (auto elim: rbindE)
  from ev t show ?thesis
    by (cases v) (simp_all add: evaluatePredicate_def typeIsFloat_def split: if_splits)
qed

subsection \<open>Three-valued logic\<close>

text \<open>The truth value of an expression, and the connectives on truth values.\<close>

definition truth :: "(f64 \<Rightarrow> f64 \<Rightarrow> f64) \<Rightarrow> schema \<Rightarrow> row \<Rightarrow> expr \<Rightarrow> int res" where
  "truth pw sch row e = rbind (evaluate pw sch row e) truthiness"

definition neg3 :: "int \<Rightarrow> int" where
  "neg3 t = (if t = 2 then 2 else if t = 1 then 0 else 1)"

definition and3 :: "int \<Rightarrow> int \<Rightarrow> int" where
  "and3 l r = (if l = 0 \<or> r = 0 then 0 else if l = 2 \<or> r = 2 then 2 else 1)"

definition or3 :: "int \<Rightarrow> int \<Rightarrow> int" where
  "or3 l r = (if l = 1 \<or> r = 1 then 1 else if l = 2 \<or> r = 2 then 2 else 0)"

lemma truth_cases:
  obtains e where "truth pw sch row a = Inl e"
  | "truth pw sch row a = Inr 0" | "truth pw sch row a = Inr 1" | "truth pw sch row a = Inr 2"
proof (cases "truth pw sch row a")
  case (Inr t)
  then have "t \<in> {0, 1, 2}" by (auto simp: truth_def elim!: rbindE dest: truthiness_range)
  with Inr that show ?thesis by auto
qed (use that in auto)

lemma evaluate_not:
  "evaluate pw sch row (UnaryExpr NOT a) = rmap (\<lambda>t. boolValue (neg3 t)) (truth pw sch row a)"
  by (cases "evaluate pw sch row a") (simp_all add: eval_simps eval_unary_def eval_not_def truth_def neg3_def)

lemma evaluate_and:
  "evaluate pw sch row (BinaryExpr AND a b) =
     rbind (truth pw sch row a) (\<lambda>l. if l = 0 then Inr (VBool False)
       else rmap (\<lambda>r. boolValue (and3 l r)) (truth pw sch row b))"
  by (cases rule: truth_cases [of pw sch row a]; cases rule: truth_cases [of pw sch row b])
     (simp_all add: eval_simps truth_def [symmetric] and3_def boolValue_def)

lemma evaluate_or:
  "evaluate pw sch row (BinaryExpr OR a b) =
     rbind (truth pw sch row a) (\<lambda>l. if l = 1 then Inr (VBool True)
       else rmap (\<lambda>r. boolValue (or3 l r)) (truth pw sch row b))"
  by (cases rule: truth_cases [of pw sch row a]; cases rule: truth_cases [of pw sch row b])
     (simp_all add: eval_simps truth_def [symmetric] or3_def boolValue_def)

lemma truth_boolValue: "evaluate pw sch row e = Inr (boolValue t) \<Longrightarrow> t \<in> {0, 1, 2} \<Longrightarrow> truth pw sch row e = Inr t"
  by (simp add: truth_def)

lemma truth_not: "truth pw sch row (UnaryExpr NOT a) = rmap neg3 (truth pw sch row a)"
  unfolding truth_def [of _ _ _ "UnaryExpr NOT a"] evaluate_not
  by (cases rule: truth_cases [of pw sch row a]) (simp_all add: neg3_def)

lemma truth_and:
  "truth pw sch row (BinaryExpr AND a b) =
     rbind (truth pw sch row a) (\<lambda>l. if l = 0 then Inr 0 else rmap (and3 l) (truth pw sch row b))"
  unfolding truth_def [of _ _ _ "BinaryExpr AND a b"] evaluate_and
  by (cases rule: truth_cases [of pw sch row a]; cases rule: truth_cases [of pw sch row b])
     (simp_all add: and3_def)

lemma truth_or:
  "truth pw sch row (BinaryExpr OR a b) =
     rbind (truth pw sch row a) (\<lambda>l. if l = 1 then Inr 1 else rmap (or3 l) (truth pw sch row b))"
  unfolding truth_def [of _ _ _ "BinaryExpr OR a b"] evaluate_or
  by (cases rule: truth_cases [of pw sch row a]; cases rule: truth_cases [of pw sch row b])
     (simp_all add: or3_def)

text \<open>
  C8: AND, OR and NOT form a De Morgan algebra over TRUE, FALSE and NULL: negating a
  conjunction is the disjunction of the negations and conversely, with the same value, the
  same exception and the same short cuts, for any operands.
\<close>

theorem evaluate_de_morgan:
  "evaluate pw sch row (UnaryExpr NOT (BinaryExpr AND a b))
     = evaluate pw sch row (BinaryExpr OR (UnaryExpr NOT a) (UnaryExpr NOT b)) \<and>
   evaluate pw sch row (UnaryExpr NOT (BinaryExpr OR a b))
     = evaluate pw sch row (BinaryExpr AND (UnaryExpr NOT a) (UnaryExpr NOT b))"
  unfolding evaluate_not [of _ _ _ "BinaryExpr AND a b"] evaluate_not [of _ _ _ "BinaryExpr OR a b"]
    evaluate_and evaluate_or truth_and truth_or truth_not
  by (cases rule: truth_cases [of pw sch row a]; cases rule: truth_cases [of pw sch row b])
     (simp_all add: and3_def or3_def neg3_def boolValue_def)

subsection \<open>IN, BETWEEN and CASE\<close>

text \<open>\<open>x = e1 OR (x = e2 OR \<dots> FALSE)\<close>.\<close>

definition eq_chain :: "expr \<Rightarrow> expr list \<Rightarrow> expr" where
  "eq_chain x es = foldr (\<lambda>e rest. BinaryExpr OR (BinaryExpr EQ x e) rest) es (Literal (VBool False))"

lemma eval_eq:
  "evaluate pw sch row x = Inr v \<Longrightarrow>
   evaluate pw sch row (BinaryExpr EQ x e)
     = rbind (evaluate pw sch row e) (\<lambda>w. rmap (compare_result EQ) (compareValues v w))"
  by (cases "evaluate pw sch row e") (simp_all add: eval_simps eval_binary_def)

lemma truth_eq:
  assumes "evaluate pw sch row x = Inr v" "\<not> isNull v"
  shows "truth pw sch row (BinaryExpr EQ x e) =
     rbind (evaluate pw sch row e) (\<lambda>w. if isNull w then Inr 2
       else rmap (\<lambda>c. if c = 0 then 1 else 0) (compareValues v w))"
proof (cases "evaluate pw sch row e")
  case (Inr w)
  show ?thesis
  proof (cases "compareValues v w")
    case (Inr c)
    with assms compareValues_two [of v w] have "(c = 2) = isNull w" by auto
    with Inr \<open>evaluate pw sch row e = Inr w\<close> assms show ?thesis
      by (auto simp: truth_def eval_eq compare_result_def eval_binary_def)
  next
    case (Inl err)
    moreover from Inl have "\<not> isNull w" by (auto simp: isNull_def)
    ultimately show ?thesis using \<open>evaluate pw sch row e = Inr w\<close> assms
      by (simp add: truth_def eval_eq eval_binary_def)
  qed
qed (use assms in \<open>simp add: truth_def eval_eq\<close>)

lemma in_loop_chain:
  assumes "evaluate pw sch row x = Inr v" "\<not> isNull v"
  shows "in_loop (evaluate pw sch row) v False saw es
    = rmap (\<lambda>t. boolValue (if saw \<and> t = 0 then 2 else t)) (truth pw sch row (eq_chain x es))"
proof (induction es arbitrary: saw)
  case Nil
  then show ?case by (simp add: eval_simps eq_chain_def truth_def boolValue_def)
next
  case (Cons e es)
  have chain: "eq_chain x (e # es) = BinaryExpr OR (BinaryExpr EQ x e) (eq_chain x es)"
    by (simp add: eq_chain_def)
  show ?case
    unfolding chain truth_or truth_eq [OF assms]
    apply (cases "evaluate pw sch row e"; simp)
    subgoal for w
    by (cases "compareValues v w"; cases rule: truth_cases [of pw sch row "eq_chain x es"])
      (auto simp: Cons.IH boolValue_def or3_def isNull_def)
    done
qed

text \<open>
  C16: \<open>x IN (e1, \<dots>, en)\<close> for a non-NULL \<open>x\<close> evaluates to what \<open>x = e1 OR \<dots> OR x = en\<close>
  does: TRUE on the first match, NULL when there is none but an item is NULL, else FALSE, and
  the same exception when an item before the first match fails.
\<close>

theorem in_list_is_or_chain:
  assumes "evaluate pw sch row x = Inr v" "\<not> isNull v"
  shows "evaluate pw sch row (InExpr x (InList es) False) = evaluate pw sch row (eq_chain x es)"
proof -
  have "evaluate pw sch row (eq_chain x es) = rmap boolValue (truth pw sch row (eq_chain x es))"
  proof (cases es)
    case (Cons e es')
    then show ?thesis by (simp add: eq_chain_def evaluate_or truth_or)
       (cases rule: truth_cases [of pw sch row "BinaryExpr EQ x e"]; simp add: or3_def boolValue_def rmap_def rbind_assoc)
  qed (simp add: eval_simps eq_chain_def truth_def boolValue_def)
  with assms show ?thesis
    by (simp add: eval_simps in_loop_chain)
qed


theorem in_list_is_or_chain_witness:
  "evaluate (\<lambda>x y. x) [] [] (InExpr (Literal (VI64 5)) (InList [Literal VNull, Literal (VI64 5)]) False)
     = Inr (VBool True)
   \<and> evaluate (\<lambda>x y. x) [] [] (eq_chain (Literal (VI64 5)) [Literal VNull, Literal (VI64 5)])
     = Inr (VBool True)"
proof -
  let ?items = "[Literal VNull, Literal (VI64 5)]"
  have five: "evaluate (\<lambda>x y. x) [] [] (Literal (VI64 5)) = Inr (VI64 5)" "\<not> isNull (VI64 5)"
    by (simp_all add: eval_simps)
  have "evaluate (\<lambda>x y. x) [] [] (InExpr (Literal (VI64 5)) (InList ?items) False) = Inr (VBool True)"
    by (simp add: eval_simps compareValues_def bothIntegers_def)
  with in_list_is_or_chain [OF five, of ?items] show ?thesis by simp
qed

definition between_conj :: "expr \<Rightarrow> expr \<Rightarrow> expr \<Rightarrow> expr" where
  "between_conj x lo hi = BinaryExpr AND (BinaryExpr GTE x lo) (BinaryExpr LTE x hi)"

lemma truth_compare:
  assumes "evaluate pw sch row x = Inr v" "evaluate pw sch row y = Inr w" "compareValues v w = Inr c"
  shows "truth pw sch row (BinaryExpr GTE x y) = Inr (if c = 2 then 2 else if 0 \<le> c then 1 else 0)"
    "truth pw sch row (BinaryExpr LTE x y) = Inr (if c = 2 then 2 else if c \<le> 0 then 1 else 0)"
    "truth pw sch row (BinaryExpr EQ x y) = Inr (if c = 2 then 2 else if c = 0 then 1 else 0)"
  using assms by (simp_all add: eval_simps truth_def eval_binary_def compare_result_def)

text \<open>
  C17: when BETWEEN evaluates (all three operands do, and compare), a result other than NULL is that
  of the conjunction of its two comparisons, of its negation for NOT BETWEEN. In a WHERE clause
  BETWEEN then keeps the rows that the conjunction keeps, also when a bound is NULL; NOT BETWEEN
  keeps those that the negated conjunction keeps, except where it is NULL itself: there it keeps no
  row (\<open>not_between_null_bound\<close>). Where BETWEEN throws, the conjunction may be decided by its first
  comparison; nothing is said of that.
\<close>

theorem between_is_conjunction:
  assumes "evaluate pw sch row (BetweenExpr x lo hi neg) = Inr r"
  shows "(r \<noteq> VNull \<longrightarrow> evaluate pw sch row
            (if neg then UnaryExpr NOT (between_conj x lo hi) else between_conj x lo hi) = Inr r)
    \<and> (\<not> neg \<longrightarrow> evaluatePredicate pw sch row (between_conj x lo hi)
                 = evaluatePredicate pw sch row (BetweenExpr x lo hi neg))
    \<and> (neg \<longrightarrow> rmap (\<lambda>keep. keep \<and> r \<noteq> VNull) (evaluatePredicate pw sch row (UnaryExpr NOT (between_conj x lo hi)))
                 = evaluatePredicate pw sch row (BetweenExpr x lo hi neg))"
proof -
  from assms obtain v l h cl ch where
    ev: "evaluate pw sch row x = Inr v" "evaluate pw sch row lo = Inr l" "evaluate pw sch row hi = Inr h"
    and c: "compareValues v l = Inr cl" "compareValues v h = Inr ch"
    and r: "r = (if cl = 2 \<or> ch = 2 then VNull
      else VBool (if neg then \<not> (0 \<le> cl \<and> ch \<le> 0) else 0 \<le> cl \<and> ch \<le> 0))"
    by (auto simp: eval_simps eval_between_def Let_def elim!: rbindE)
  note t = truth_compare [OF ev(1,2) c(1)] truth_compare [OF ev(1,3) c(2)]
  have conj: "truth pw sch row (between_conj x lo hi)
      = Inr (and3 (if cl = 2 then 2 else if 0 \<le> cl then 1 else 0) (if ch = 2 then 2 else if ch \<le> 0 then 1 else 0))"
    by (simp add: between_conj_def truth_and t and3_def)
  then have pred: "evaluatePredicate pw sch row (between_conj x lo hi)
      = Inr (and3 (if cl = 2 then 2 else if 0 \<le> cl then 1 else 0) (if ch = 2 then 2 else if ch \<le> 0 then 1 else 0) = 1)"
    unfolding truth_def by (rule evaluatePredicate_truth)
  have "evaluate pw sch row (between_conj x lo hi)
      = Inr (boolValue (and3 (if cl = 2 then 2 else if 0 \<le> cl then 1 else 0) (if ch = 2 then 2 else if ch \<le> 0 then 1 else 0)))"
    by (simp add: between_conj_def evaluate_and t and3_def boolValue_def)
  moreover have "evaluatePredicate pw sch row (UnaryExpr NOT (between_conj x lo hi))
      = Inr (neg3 (and3 (if cl = 2 then 2 else if 0 \<le> cl then 1 else 0) (if ch = 2 then 2 else if ch \<le> 0 then 1 else 0)) = 1)"
    using truth_not [of pw sch row "between_conj x lo hi", unfolded conj]
    unfolding truth_def by (intro evaluatePredicate_truth) simp
  ultimately show ?thesis
    using evaluate_not [of pw sch row "between_conj x lo hi", unfolded conj] pred
    unfolding evaluatePredicate_def [of _ _ _ "BetweenExpr x lo hi neg"] assms unfolding r
    by (auto simp: and3_def neg3_def boolValue_def)
qed

theorem between_is_conjunction_witness:
  "evaluate (\<lambda>x y. x) [] [] (UnaryExpr NOT (between_conj (Literal (VI64 7)) (Literal (VI64 1)) (Literal (VI64 5))))
     = Inr (VBool True)"
proof -
  have "evaluate (\<lambda>x y. x) [] [] (BetweenExpr (Literal (VI64 7)) (Literal (VI64 1)) (Literal (VI64 5)) True)
      = Inr (VBool True)"
    by (simp add: eval_simps eval_between_def compareValues_def bothIntegers_def three_way_def)
  from between_is_conjunction [OF this] show ?thesis by simp
qed

text \<open>With a NULL bound NOT BETWEEN is NULL where SQL's conjunction decides.\<close>

lemma not_between_null_bound:
  "evaluate pw [] [] (BetweenExpr (Literal (VI64 7)) (Literal (VI64 9)) (Literal VNull) True) = Inr VNull"
  "evaluate pw [] [] (UnaryExpr NOT (between_conj (Literal (VI64 7)) (Literal (VI64 9)) (Literal VNull)))
     = Inr (VBool True)"
  by (simp_all add: eval_simps eval_between_def eval_binary_def compareValues_def bothIntegers_def
      three_way_def between_conj_def compare_result_def eval_unary_def)

lemma case_cond:
  "rbind (evaluate pw sch row e) (\<lambda>c. rmap f (truthiness c)) = rmap f (truth pw sch row e)"
  by (cases "evaluate pw sch row e") (simp_all add: truth_def)

lemma case_loop_eq:
  assumes "evaluate pw sch row s = Inr v"
  shows "case_loop (evaluate pw sch row) (Some v) ws els
    = case_loop (evaluate pw sch row) None (map (\<lambda>(c, r). (BinaryExpr EQ s c, r)) ws) els"
proof (induction ws)
  case (Cons w ws)
  obtain c r where w: "w = (c, r)" by (cases w)
  have "rbind (evaluate pw sch row c) (\<lambda>d. rmap (\<lambda>k. k = 0) (compareValues v d))
      = rmap (\<lambda>t. t = 1) (truth pw sch row (BinaryExpr EQ s c))"
  proof (cases "evaluate pw sch row c")
    case (Inr d)
    note d = this
    show ?thesis
    proof (cases "compareValues v d")
      case (Inr k)
      with truth_compare(3) [OF assms d] d show ?thesis by simp
    qed (use d assms in \<open>simp add: truth_def eval_simps eval_binary_def\<close>)
  qed (use assms in \<open>simp add: truth_def eval_simps\<close>)
  with Cons.IH show ?case by (simp add: w case_cond split_def cong: if_cong)
qed simp

text \<open>
  \<open>CASE s WHEN c THEN r \<dots>\<close> evaluates to \<open>CASE WHEN s = c THEN r \<dots>\<close>: the same arm (an
  arm whose comparison is NULL is skipped), the same ELSE, and the same exceptions.
\<close>

lemma simple_case_is_searched_case:
  assumes "evaluate pw sch row s = Inr v"
  shows "evaluate pw sch row (CaseExpr (Some s) ws els)
    = evaluate pw sch row (CaseExpr None (map (\<lambda>(c, r). (BinaryExpr EQ s c, r)) ws) els)"
  using assms by (simp add: eval_simps case_loop_eq)

subsection \<open>LIKE\<close>

text \<open>What a pattern means: \<open>%\<close> any run of characters, \<open>_\<close> any one, else the character.\<close>

fun like_spec :: "bool \<Rightarrow> string \<Rightarrow> string \<Rightarrow> bool" where
  "like_spec ci [] t = (t = [])"
| "like_spec ci (c # p) t =
     (if c = CHR ''%'' then list_ex (like_spec ci p) (suffixes t)
      else t \<noteq> [] \<and> (c = CHR ''_'' \<or> like_norm ci c = like_norm ci (hd t)) \<and> like_spec ci p (tl t))"

lemma suffixes_drop: "u \<in> set (suffixes t) \<longleftrightarrow> (\<exists>k\<le>length t. u = drop k t)"
proof
  assume "u \<in> set (suffixes t)"
  then obtain v where "t = v @ u" by (auto simp: suffix_def)
  then show "\<exists>k\<le>length t. u = drop k t" by (intro exI [of _ "length v"]) simp
qed (auto simp: suffix_drop)

abbreviation like_at :: "bool \<Rightarrow> string \<Rightarrow> string \<Rightarrow> nat \<Rightarrow> nat \<Rightarrow> bool" where
  "like_at ci t p i j \<equiv> like_spec ci (drop i p) (drop j t)"

lemma like_at_percent:
  assumes "i < length p" "p ! i = CHR ''%''" "j \<le> length t"
  shows "like_at ci t p i j = (\<exists>k. j \<le> k \<and> k \<le> length t \<and> like_at ci t p (Suc i) k)"
proof -
  have "like_at ci t p i j = (\<exists>k \<le> length t - j. like_at ci t p (Suc i) (k + j))"
  proof -
    have "like_at ci t p i j = (\<exists>u \<in> set (suffixes (drop j t)). like_spec ci (drop (Suc i) p) u)"
      unfolding Cons_nth_drop_Suc [OF assms(1), symmetric] by (simp add: assms(2) list_ex_iff)
    also have "\<dots> = (\<exists>u. (\<exists>k \<le> length t - j. u = drop k (drop j t)) \<and> like_spec ci (drop (Suc i) p) u)"
      unfolding Bex_def suffixes_drop length_drop ..
    finally show ?thesis by auto
  qed
  also have "\<dots> = (\<exists>k. j \<le> k \<and> k \<le> length t \<and> like_at ci t p (Suc i) k)"
  proof
    assume "\<exists>k \<le> length t - j. like_at ci t p (Suc i) (k + j)"
    then obtain k where "k \<le> length t - j" "like_at ci t p (Suc i) (k + j)" by blast
    with assms(3) show "\<exists>k. j \<le> k \<and> k \<le> length t \<and> like_at ci t p (Suc i) k"
      by (intro exI [of _ "k + j"]) simp
  next
    assume "\<exists>k. j \<le> k \<and> k \<le> length t \<and> like_at ci t p (Suc i) k"
    then obtain k where "j \<le> k" "k \<le> length t" "like_at ci t p (Suc i) k" by blast
    then show "\<exists>k \<le> length t - j. like_at ci t p (Suc i) (k + j)"
      by (intro exI [of _ "k - j"]) simp
  qed
  finally show ?thesis .
qed

lemma like_at_char:
  assumes "i < length p" "p ! i \<noteq> CHR ''%''"
  shows "like_at ci t p i j =
    (j < length t \<and> (p ! i = CHR ''_'' \<or> like_norm ci (p ! i) = like_norm ci (t ! j))
     \<and> like_at ci t p (Suc i) (Suc j))"
  using assms by (auto simp: Cons_nth_drop_Suc [symmetric] hd_drop_conv_nth tl_drop drop_Suc)

lemma like_at_run:
  assumes "like_at ci t p i j" "i + l \<le> length p" "\<And>k. i \<le> k \<Longrightarrow> k < i + l \<Longrightarrow> p ! k \<noteq> CHR ''%''"
    "j \<le> length t"
  shows "j + l \<le> length t \<and> like_at ci t p (i + l) (j + l)"
  using assms
proof (induction l)
  case (Suc l)
  then have "j + l \<le> length t \<and> like_at ci t p (i + l) (j + l)" by simp
  with Suc.prems like_at_char [of "i + l" p ci "j + l" t] show ?case by simp
qed simp

lemma like_tail_spec: "i \<le> length p \<Longrightarrow> like_tail p i = like_spec ci (drop i p) []"
proof (induction p i rule: like_tail.induct)
  case (1 p i)
  then show ?case
    by (subst like_tail.simps) (cases "i < length p"; auto simp: Cons_nth_drop_Suc [symmetric])
qed

lemma tolower_percent: "tolower c = CHR ''%'' \<Longrightarrow> c = CHR ''%''"
proof -
  assume "tolower c = CHR ''%''"
  then have "byte (tolower c) = 37" by simp
  moreover have "byte (tolower c) = (if isupper c then byte c + 32 else byte c)"
    by (auto simp: tolower_def isupper_def)
  ultimately have "byte c = byte (CHR ''%'')"
    by (auto simp: isupper_def split: if_splits)
  then show ?thesis by (rule byte_inject)
qed

lemma like_norm_percent: "like_norm ci (CHR ''%'') = like_norm ci c \<Longrightarrow> c = CHR ''%''"
  using tolower_percent [of c] by (auto simp: like_norm_def tolower_def [of "CHR ''%''"] isupper_def split: if_splits)

text \<open>The loop, with the last \<open>%\<close> at \<open>s\<close> and \<open>tstar\<close> the first text position it leaves.\<close>

definition like_inv :: "string \<Rightarrow> string \<Rightarrow> nat \<Rightarrow> nat \<Rightarrow> nat option \<Rightarrow> nat \<Rightarrow> bool" where
  "like_inv t p ti pi star tstar = (ti \<le> length t \<and> pi \<le> length p \<and>
     (case star of None \<Rightarrow> True
      | Some s \<Rightarrow> tstar \<le> ti \<and> pi = Suc s + (ti - tstar) \<and>
          (\<forall>k. Suc s \<le> k \<and> k < pi \<longrightarrow> p ! k \<noteq> CHR ''%'')))"

definition like_alt :: "bool \<Rightarrow> string \<Rightarrow> string \<Rightarrow> nat option \<Rightarrow> nat \<Rightarrow> bool" where
  "like_alt ci t p star tstar = (case star of None \<Rightarrow> False
     | Some s \<Rightarrow> \<exists>k. tstar < k \<and> k \<le> length t \<and> like_at ci t p (Suc s) k)"

lemma like_loop_correct:
  "CHR ''%'' \<notin> set t \<Longrightarrow> like_inv t p ti pi star tstar \<Longrightarrow>
    like_loop ci t p ti pi star tstar = (like_at ci t p pi ti \<or> like_alt ci t p star tstar)"
proof (induction ci t p ti pi star tstar rule: like_loop.induct)
  case (1 ci t p ti pi star tstar)
  from "1.prems"(2) have inv: "like_inv t p ti pi star tstar" and np: "CHR ''%'' \<notin> set t"
    using "1.prems" by auto
  let ?match = "pi < length p \<and> (p ! pi = CHR ''_'' \<or> like_norm ci (p ! pi) = like_norm ci (t ! ti))"
  consider (fin) "\<not> ti < length t" | (match) "ti < length t" "?match"
    | (star) "ti < length t" "\<not> ?match" "pi < length p" "p ! pi = CHR ''%''"
    | (retry) "ti < length t" "\<not> ?match" "\<not> (pi < length p \<and> p ! pi = CHR ''%'')"
    by blast
  then show ?case
  proof cases
    case fin
    with inv have ti: "ti = length t" by (simp add: like_inv_def)
    have "\<not> like_alt ci t p star tstar"
    proof
      assume "like_alt ci t p star tstar"
      then obtain s k where s: "star = Some s" "tstar < k" "k \<le> length t" "like_at ci t p (Suc s) k"
        by (auto simp: like_alt_def split: option.splits)
      with inv have "k + (ti - tstar) \<le> length t"
        using like_at_run [of ci "Suc s" p k t "ti - tstar"] by (auto simp: like_inv_def)
      with s inv ti show False by (simp add: like_inv_def)
    qed
    with fin inv ti show ?thesis
      by (subst like_loop.simps) (simp add: like_inv_def like_tail_spec [of _ _ ci])
  next
    case match
    then have "t ! ti \<noteq> CHR ''%''" using np by (metis nth_mem)
    have p: "p ! pi \<noteq> CHR ''%''"
    proof
      assume "p ! pi = CHR ''%''"
      with match(2) have "like_norm ci (CHR ''%'') = like_norm ci (t ! ti)" by simp
      with like_norm_percent \<open>t ! ti \<noteq> CHR ''%''\<close> show False by blast
    qed
    have "like_inv t p (Suc ti) (Suc pi) star tstar"
      using inv match p by (auto simp: like_inv_def less_Suc_eq split: option.splits)
    from "1.IH"(1) [OF match np this] match p show ?thesis
      by (subst like_loop.simps) (simp add: like_at_char)
  next
    case star
    have "like_inv t p ti (Suc pi) (Some pi) ti"
      using inv star by (auto simp: like_inv_def)
    note IH = "1.IH"(2) [OF star(1,2) conjI [OF star(3,4)] np this]
    have at: "like_at ci t p pi ti = (like_at ci t p (Suc pi) ti \<or> like_alt ci t p (Some pi) ti)"
    proof -
      have ti: "ti \<le> length t" using star(1) by simp
      show ?thesis
        unfolding like_at_percent [OF star(3,4) ti] like_alt_def option.case
        using ti by (metis order_le_less)
    qed
    have "like_at ci t p pi ti" if alt: "like_alt ci t p star tstar"
    proof -
      from alt obtain s k where s: "star = Some s" "tstar < k" "k \<le> length t" "like_at ci t p (Suc s) k"
        by (auto simp: like_alt_def split: option.splits)
      with inv have "k + (ti - tstar) \<le> length t" "like_at ci t p pi (k + (ti - tstar))"
        using like_at_run [of ci "Suc s" p k t "ti - tstar"] by (auto simp: like_inv_def)
      moreover have "ti \<le> k + (ti - tstar)" using s by simp
      moreover have "ti \<le> length t" using star(1) by simp
      ultimately show ?thesis
        using like_at_percent [OF star(3,4), of _ t ci] by (meson le_trans)
    qed
    with star IH at show ?thesis
      by (subst like_loop.simps) auto
  next
    case retry
    have no: "\<not> like_at ci t p pi ti"
    proof (cases "pi < length p")
      case True
      with retry show ?thesis by (simp add: like_at_char)
    qed (use retry in simp)
    have step: "like_loop ci t p ti pi star tstar = (case star of
        Some s \<Rightarrow> like_loop ci t p (Suc tstar) (Suc s) star (Suc tstar) | None \<Rightarrow> False)"
      by (subst like_loop.simps) (simp only: retry if_True if_False)
    show ?thesis
    proof (cases star)
      case None
      with step no show ?thesis by (simp add: like_alt_def)
    next
      case (Some s)
      have "like_inv t p (Suc tstar) (Suc s) star (Suc tstar)"
        using inv retry Some by (auto simp: like_inv_def)
      note IH = "1.IH"(3) [OF retry Some np this]
      have "like_alt ci t p star tstar = (like_at ci t p (Suc s) (Suc tstar) \<or> like_alt ci t p star (Suc tstar))"
      proof -
        have "Suc tstar \<le> length t" using inv retry(1) Some by (simp add: like_inv_def)
        then show ?thesis unfolding Some like_alt_def option.case by (metis Suc_lessD Suc_lessI lessI)
      qed
      with step Some IH no show ?thesis by simp
    qed
  qed
qed

text \<open>
  C5: the greedy matcher, which remembers only the last \<open>%\<close>, decides the declarative meaning of
  a LIKE or ILIKE pattern for every text without a \<open>%\<close> in it: it finds a match whenever some
  way to stretch the \<open>%\<close>s gives one.
\<close>

theorem likeMatch_decides_pattern:
  assumes "CHR ''%'' \<notin> set t"
  shows "likeMatch t p ci = like_spec ci p t"
  using like_loop_correct [of t p 0 0 None 0 ci] assms
  by (simp add: likeMatch_def like_inv_def like_alt_def)

theorem likeMatch_decides_pattern_witness:
  "CHR ''%'' \<notin> set ''aXbaxc'' \<and> likeMatch ''aXbaxc'' ''a%Ax_'' True"
proof -
  have no: "CHR ''%'' \<notin> set ''aXbaxc''" by simp
  have "like_spec True ''a%Ax_'' ''aXbaxc''" by code_simp
  with likeMatch_decides_pattern [OF no, of "''a%Ax_''" True] no show ?thesis by simp
qed

text \<open>A \<open>%\<close> in the text is taken as a match of the wildcard itself.\<close>

lemma likeMatch_percent_text:
  "likeMatch ''%abc'' ''%'' ci = False" "like_spec ci ''%'' ''%abc''"
  by (cases ci; code_simp)+

subsection \<open>Integer arithmetic\<close>

lemma i64_exact_Inr: "i64_exact i = Inr v \<Longrightarrow> \<exists>w. v = VI64 w \<and> sint w = i"
  by (auto simp: i64_exact_def i64_range_def sint_word_of_int_range split: if_splits)

lemma c_rem_bounds: "b \<noteq> 0 \<Longrightarrow> \<bar>c_rem a b\<bar> < \<bar>b\<bar>"
  by (auto simp: c_rem_def Let_def)

lemma c_rem_div: "b \<noteq> 0 \<Longrightarrow> \<exists>q. a = q * b + c_rem a b"
proof -
  assume "b \<noteq> 0"
  have "\<bar>a\<bar> = \<bar>b\<bar> * (\<bar>a\<bar> div \<bar>b\<bar>) + \<bar>a\<bar> mod \<bar>b\<bar>" by simp
  moreover define q where "q = \<bar>a\<bar> div \<bar>b\<bar>"
  ultimately have e: "\<bar>a\<bar> = \<bar>b\<bar> * q + \<bar>a\<bar> mod \<bar>b\<bar>" by simp
  have b: "\<bar>b\<bar> * q = sgn b * q * b" by (simp add: abs_sgn)
  show ?thesis
  proof (cases "a < 0")
    case True
    with e have "a = - (sgn b * q) * b + c_rem a b"
      unfolding b by (simp add: c_rem_def Let_def)
    then show ?thesis by blast
  next
    case False
    with e have "a = (sgn b * q) * b + c_rem a b"
      unfolding b by (simp add: c_rem_def Let_def)
    then show ?thesis by blast
  qed
qed

text \<open>The remainder of a division that truncates, from the equation of that division.\<close>

lemma c_rem_sign: "b \<noteq> 0 \<Longrightarrow> c_rem a b = 0 \<or> sgn (c_rem a b) = sgn a"
proof -
  assume "b \<noteq> 0"
  define m where "m = \<bar>a\<bar> mod \<bar>b\<bar>"
  have "0 \<le> m" using \<open>b \<noteq> 0\<close> by (simp add: m_def)
  moreover have "a = 0 \<longrightarrow> m = 0" by (simp add: m_def)
  moreover have "c_rem a b = (if a < 0 then - m else m)" by (simp add: c_rem_def m_def)
  ultimately show ?thesis by (auto simp: sgn_if)
qed

lemma c_rem_unique:
  assumes "x = q * y + r" "\<bar>r\<bar> < \<bar>y\<bar>" "r = 0 \<or> sgn r = sgn x"
  shows "r = c_rem x y"
proof -
  have y: "y \<noteq> 0" using assms(2) by auto
  obtain p where p: "x = p * y + c_rem x y" using c_rem_div [OF y] by blast
  have "r - c_rem x y = (p - q) * y" using assms(1) p by (simp add: algebra_simps)
  moreover have "\<bar>r - c_rem x y\<bar> < \<bar>y\<bar>"
    using c_rem_bounds [OF y, of x] c_rem_sign [OF y, of x] assms(2,3) by (auto simp: sgn_if split: if_splits)
  ultimately have "\<bar>p - q\<bar> * \<bar>y\<bar> < 1 * \<bar>y\<bar>" by (simp add: abs_mult)
  then have "p = q" using y by (simp add: mult_less_cancel_right_pos)
  with \<open>r - c_rem x y = (p - q) * y\<close> show ?thesis by simp
qed

lemma c_rem_range:
  assumes "- (2 ^ 63) \<le> a" "a < 2 ^ 63" "b \<noteq> 0" 
  shows "- (2 ^ 63) \<le> c_rem a b \<and> c_rem a b < 2 ^ 63"
proof -
  define m where "m = \<bar>a\<bar> mod \<bar>b\<bar>"
  have "m \<le> \<bar>a\<bar>" unfolding m_def by (rule zmod_le_nonneg_dividend) simp
  moreover have "0 \<le> m" using assms(3) by (simp add: m_def)
  moreover have "c_rem a b = (if a < 0 then - m else m)" by (simp add: c_rem_def m_def)
  ultimately show ?thesis using assms(1,2) by auto
qed

lemma sint_range64: "- (2 ^ 63) \<le> sint w \<and> sint w < 2 ^ 63" for w :: "64 word"
  using sint_greater_eq [of w] sint_less [of w] by simp

text \<open>
  The meaning of an integer expression over the integers of mathematics, NULL being \<open>None\<close>: leaves are
  the values they hold at whatever width, operators are those of the ring, a remainder is that of the
  division that truncates towards zero, and NULL for a zero divisor. Where a subexpression has no value
  of 64 bits, there is no meaning.
\<close>

definition holds_int :: "value \<Rightarrow> int option \<Rightarrow> bool" where
  "holds_int v x = (case v of
       VNull \<Rightarrow> x = None
     | VI8 w \<Rightarrow> x = Some (sint w) | VI16 w \<Rightarrow> x = Some (sint w)
     | VI32 w \<Rightarrow> x = Some (sint w) | VI64 w \<Rightarrow> x = Some (sint w)
     | _ \<Rightarrow> False)"

definition fits_64 :: "int \<Rightarrow> bool" where
  "fits_64 i = (- 9223372036854775808 \<le> i \<and> i \<le> 9223372036854775807)"

inductive int_meaning :: "(expr \<Rightarrow> value res) \<Rightarrow> expr \<Rightarrow> int option \<Rightarrow> bool" for leaf where
  int_literal: "leaf (Literal v) = Inr v \<Longrightarrow> holds_int v x \<Longrightarrow> int_meaning leaf (Literal v) x"
| int_column: "leaf (ColumnRef c t n) = Inr v \<Longrightarrow> holds_int v x \<Longrightarrow> int_meaning leaf (ColumnRef c t n) x"
| int_plus: "int_meaning leaf e x \<Longrightarrow> int_meaning leaf (UnaryExpr PLUS e) x"
| int_minus: "int_meaning leaf e (Some x) \<Longrightarrow> fits_64 (- x) \<Longrightarrow> int_meaning leaf (UnaryExpr NEGATE e) (Some (- x))"
| int_minus_null: "int_meaning leaf e None \<Longrightarrow> int_meaning leaf (UnaryExpr NEGATE e) None"
| int_add: "int_meaning leaf a (Some x) \<Longrightarrow> int_meaning leaf b (Some y) \<Longrightarrow> fits_64 (x + y) \<Longrightarrow>
    int_meaning leaf (BinaryExpr ADD a b) (Some (x + y))"
| int_sub: "int_meaning leaf a (Some x) \<Longrightarrow> int_meaning leaf b (Some y) \<Longrightarrow> fits_64 (x - y) \<Longrightarrow>
    int_meaning leaf (BinaryExpr SUB a b) (Some (x - y))"
| int_mul: "int_meaning leaf a (Some x) \<Longrightarrow> int_meaning leaf b (Some y) \<Longrightarrow> fits_64 (x * y) \<Longrightarrow>
    int_meaning leaf (BinaryExpr MUL a b) (Some (x * y))"
| int_rem: "int_meaning leaf a (Some x) \<Longrightarrow> int_meaning leaf b (Some y) \<Longrightarrow> fits_64 q \<Longrightarrow>
    x = q * y + r \<Longrightarrow> \<bar>r\<bar> < \<bar>y\<bar> \<Longrightarrow> r = 0 \<or> sgn r = sgn x \<Longrightarrow> int_meaning leaf (BinaryExpr MOD a b) (Some r)"
| int_rem_zero: "int_meaning leaf a (Some x) \<Longrightarrow> int_meaning leaf b (Some 0) \<Longrightarrow> int_meaning leaf (BinaryExpr MOD a b) None"
| int_null: "int_meaning leaf a x \<Longrightarrow> int_meaning leaf b y \<Longrightarrow> x = None \<or> y = None \<Longrightarrow> op \<in> {ADD, SUB, MUL, MOD} \<Longrightarrow>
    int_meaning leaf (BinaryExpr op a b) None"

lemma holds_int_None: "holds_int v None = (v = VNull)"
  by (cases v) (simp_all add: holds_int_def)

lemma holds_int_Some:
  assumes "holds_int v (Some x)"
  obtains w where "toInt64 v = Inr w" "sint w = x" "\<not> isNull v" "typeIsInteger (typeId v)" "isNumeric v"
proof (cases v)
  case (VI8 w)
  with assms that [of "scast w"] show ?thesis
    by (simp add: holds_int_def sint_up_scast is_up isNumeric_def typeIsNumeric_def)
next
  case (VI16 w)
  with assms that [of "scast w"] show ?thesis
    by (simp add: holds_int_def sint_up_scast is_up isNumeric_def typeIsNumeric_def)
next
  case (VI32 w)
  with assms that [of "scast w"] show ?thesis
    by (simp add: holds_int_def sint_up_scast is_up isNumeric_def typeIsNumeric_def)
next
  case (VI64 w)
  with assms that [of w] show ?thesis by (simp add: holds_int_def isNumeric_def typeIsNumeric_def)
qed (use assms in \<open>simp_all add: holds_int_def\<close>)

lemma i64_exact_fits: "fits_64 i \<Longrightarrow> \<exists>w. i64_exact i = Inr (VI64 w) \<and> sint w = i"
  by (auto simp: fits_64_def i64_exact_def sint_word_of_int_range i64_range_def)

lemma eval_plain_binary:
  assumes "evaluate pw sch row a = Inr v" "evaluate pw sch row b = Inr w" "op \<in> {ADD, SUB, MUL, MOD}"
  shows "evaluate pw sch row (BinaryExpr op a b) = evalArithmetic pw op v w"
  using assms by (auto simp: eval_simps eval_binary_def)

lemma arithmetic_ints:
  assumes "holds_int v (Some x)" "holds_int w (Some y)" "op \<in> {ADD, SUB, MUL, MOD}"
  obtains a b where "sint a = x" "sint b = y" "\<And>res. int_arith op a b = Some res \<Longrightarrow> evalArithmetic pw op v w = res"
proof -
  obtain a where a: "toInt64 v = Inr a" "sint a = x" "\<not> isNull v" "typeIsInteger (typeId v)" "isNumeric v"
    using assms(1) by (rule holds_int_Some)
  obtain b where b: "toInt64 w = Inr b" "sint b = y" "\<not> isNull w" "typeIsInteger (typeId w)" "isNumeric w"
    using assms(2) by (rule holds_int_Some)
  show thesis
    by (rule that [OF a(2) b(2)]) (use a b assms(3) in \<open>auto simp: evalArithmetic_def bothIntegers_def Let_def\<close>)
qed

text \<open>
  C18: an expression of integers of any width, columns, NULLs, \<open>+\<close>, \<open>-\<close>, \<open>*\<close>, \<open>%\<close> and the signs
  evaluates to its mathematical value whenever every part of it has one within 64 bits: no operand is
  cut to the narrower width or rounded through DOUBLE, a remainder has the sign of the dividend, and
  NULL operands and zero divisors give NULL, not an error.
\<close>

theorem integer_arithmetic_exact:
  assumes "int_meaning (evaluate pw sch row) e x"
  shows "\<exists>v. evaluate pw sch row e = Inr v \<and> holds_int v x"
  using assms
proof induction
  case (int_plus e x)
  then show ?case by (auto simp: eval_simps eval_unary_def)
next
  case (int_minus e x)
  then obtain v where v: "evaluate pw sch row e = Inr v" "holds_int v (Some x)" by blast
  obtain w where "toInt64 v = Inr w" "sint w = x" "\<not> isNull v" "typeIsInteger (typeId v)"
    using v(2) by (rule holds_int_Some)
  with v(1) i64_exact_fits [OF int_minus.hyps(2)] show ?case
    by (auto simp: eval_simps eval_unary_def holds_int_def)
next
  case (int_minus_null e)
  then show ?case by (auto simp: eval_simps eval_unary_def holds_int_None)
next
  case (int_add a x b y)
  then obtain v w where vw: "evaluate pw sch row a = Inr v" "evaluate pw sch row b = Inr w"
    "holds_int v (Some x)" "holds_int w (Some y)" by blast
  obtain a' b' where "sint a' = x" "sint b' = y" "\<And>res. int_arith ADD a' b' = Some res \<Longrightarrow> evalArithmetic pw ADD v w = res"
    by (rule arithmetic_ints [OF vw(3,4), of ADD pw]) simp_all
  with i64_exact_fits [OF int_add.hyps(3)] show ?case
    by (auto simp: eval_plain_binary [OF vw(1,2)] int_arith_def holds_int_def)
next
  case (int_sub a x b y)
  then obtain v w where vw: "evaluate pw sch row a = Inr v" "evaluate pw sch row b = Inr w"
    "holds_int v (Some x)" "holds_int w (Some y)" by blast
  obtain a' b' where "sint a' = x" "sint b' = y" "\<And>res. int_arith SUB a' b' = Some res \<Longrightarrow> evalArithmetic pw SUB v w = res"
    by (rule arithmetic_ints [OF vw(3,4), of SUB pw]) simp_all
  with i64_exact_fits [OF int_sub.hyps(3)] show ?case
    by (auto simp: eval_plain_binary [OF vw(1,2)] int_arith_def holds_int_def)
next
  case (int_mul a x b y)
  then obtain v w where vw: "evaluate pw sch row a = Inr v" "evaluate pw sch row b = Inr w"
    "holds_int v (Some x)" "holds_int w (Some y)" by blast
  obtain a' b' where "sint a' = x" "sint b' = y" "\<And>res. int_arith MUL a' b' = Some res \<Longrightarrow> evalArithmetic pw MUL v w = res"
    by (rule arithmetic_ints [OF vw(3,4), of MUL pw]) simp_all
  with i64_exact_fits [OF int_mul.hyps(3)] show ?case
    by (auto simp: eval_plain_binary [OF vw(1,2)] int_arith_def holds_int_def)
next
  case (int_rem a x b y q r)
  then obtain v w where vw: "evaluate pw sch row a = Inr v" "evaluate pw sch row b = Inr w"
    "holds_int v (Some x)" "holds_int w (Some y)" by blast
  obtain a' b' where ab: "sint a' = x" "sint b' = y" "\<And>res. int_arith MOD a' b' = Some res \<Longrightarrow> evalArithmetic pw MOD v w = res"
    by (rule arithmetic_ints [OF vw(3,4), of MOD pw]) simp_all
  have y: "y \<noteq> 0" using int_rem.hyps(5) by auto
  have r: "r = c_rem x y" using int_rem.hyps by (intro c_rem_unique)
  have "\<not> (x = - (2 ^ 63) \<and> y = - 1)" using int_rem.hyps(3-5) by (auto simp: fits_64_def)
  then have "int_arith MOD a' b' = Some (Inr (VI64 (word_of_int r)))"
    using y ab(1,2) r by (auto simp: int_arith_def)
  moreover have "sint (word_of_int r :: 64 word) = r"
    using c_rem_range [of x y] sint_range64 [of a'] y ab(1) r by (auto simp: i64_range_def sint_word_of_int_range)
  ultimately show ?case using ab(3) by (simp add: eval_plain_binary [OF vw(1,2)] holds_int_def)
next
  case (int_rem_zero a x b)
  then obtain v w where vw: "evaluate pw sch row a = Inr v" "evaluate pw sch row b = Inr w"
    "holds_int v (Some x)" "holds_int w (Some 0)" by blast
  obtain a' b' where ab: "sint a' = x" "sint b' = 0" "\<And>res. int_arith MOD a' b' = Some res \<Longrightarrow> evalArithmetic pw MOD v w = res"
    by (rule arithmetic_ints [OF vw(3,4), of MOD pw]) simp_all
  have "b' = 0" using ab(2) by (metis sint_0 signed_eq_0_iff)
  with ab(3) show ?case by (auto simp: eval_plain_binary [OF vw(1,2)] int_arith_def holds_int_def)
next
  case (int_null a x b y op)
  then show ?case by (auto simp: eval_plain_binary evalArithmetic_def holds_int_None)
qed auto

text \<open>\<open>-7 % 3 + n * 2\<close> for a narrow column \<open>n\<close> that holds 100.\<close>

theorem integer_arithmetic_exact_witness:
  "\<exists>v. evaluate (\<lambda>x y. x) (addColumn [] ''n'' (dt_int32 True)) [VI32 100]
      (BinaryExpr ADD (BinaryExpr MOD (UnaryExpr NEGATE (Literal (VI64 7))) (Literal (VI64 3)))
         (BinaryExpr MUL (ColumnRef None None ''n'') (Literal (VI64 2)))) = Inr v
    \<and> holds_int v (Some 199)"
proof -
  let ?ev = "evaluate (\<lambda>x y. x) (addColumn [] ''n'' (dt_int32 True)) [VI32 100]"
  have lit: "int_meaning ?ev (Literal (VI64 w)) (Some (sint w))" for w
    by (rule int_literal) (simp_all add: eval_simps holds_int_def)
  have n: "int_meaning ?ev (ColumnRef None None ''n'') (Some 100)"
    by (rule int_column [where v = "VI32 100"], code_simp) (simp add: holds_int_def)
  have "int_meaning ?ev (UnaryExpr NEGATE (Literal (VI64 7))) (Some (- 7))"
    using int_minus [OF lit [of 7]] by (simp add: fits_64_def)
  from int_rem [OF this lit [of 3], of "- 2" "- 1"]
  have rem: "int_meaning ?ev (BinaryExpr MOD (UnaryExpr NEGATE (Literal (VI64 7))) (Literal (VI64 3))) (Some (- 1))"
    by (simp add: fits_64_def)
  have "int_meaning ?ev (BinaryExpr MUL (ColumnRef None None ''n'') (Literal (VI64 2))) (Some 200)"
    using int_mul [OF n lit [of 2]] by (simp add: fits_64_def)
  from int_add [OF rem this] show ?thesis by (intro integer_arithmetic_exact) (simp add: fits_64_def)
qed

end
