(* ===== verification/LQ_RowOps.thy ===== *)
theory LQ_RowOps
  imports LQ_Eval
begin

section \<open>The row algorithms of the blocking operators\<close>

text \<open>
  What \<open>Sort\<close>, \<open>Distinct\<close>, \<open>HashAggregate\<close> and \<open>HashJoin\<close> of
  \<open>src/execution/physical_plan.cpp\<close> do with the rows they have read: the comparator of
  \<open>Sort::build\<close>, \<open>rowKey\<close>, the accumulators of \<open>HashAggregate::build\<close> and \<open>next\<close>, and
  \<open>HashJoin::computeResult\<close>. The operators themselves are in \<open>LQ_Exec\<close>.
  Lemmas: sorting under the contract of a strict weak order (locale \<open>strict_weak\<close>,
  interpretation \<open>ordby\<close>) is sorted, stable and, by uniqueness, what every stable sort
  computes, for the order of the keys written out apart from the comparator (\<open>comes_before\<close>);
  \<open>rowKey\<close> is injective on values without text it can confuse; a join is the
  relational join with its NULL-extended rows.
\<close>

subsection \<open>Sort\<close>

text \<open>\<open>va\<close> and \<open>vb\<close> under one key: \<open>Some b\<close> returns from the comparator, \<open>None\<close> continues.\<close>

definition key_compare :: "sort_key \<Rightarrow> value \<Rightarrow> value \<Rightarrow> bool option res" where
  "key_compare k va vb =
     (let an = isNull va; bn = isNull vb in
      if an \<or> bn then
        (if an \<and> bn then Inr None
         else let nullsFirst = (sk_nulls k = NULLS_FIRST \<or> (sk_nulls k = UNSPECIFIED \<and> sk_order k = ASC))
           in Inr (Some (if an then nullsFirst else \<not> nullsFirst)))
      else rbind (value_lt va vb) (\<lambda>l.
        rbind (if l then Inr (- 1) else rmap (\<lambda>g. if g then 1 else 0) (value_lt vb va)) (\<lambda>cmp.
          if cmp = (0 :: int) then Inr None
          else Inr (Some (if sk_order k = ASC then cmp < 0 else 0 < cmp)))))"

fun row_less :: "(f64 \<Rightarrow> f64 \<Rightarrow> f64) \<Rightarrow> schema \<Rightarrow> sort_key list \<Rightarrow> row \<Rightarrow> row \<Rightarrow> bool res" where
  "row_less pw sch [] a b = Inr False"
| "row_less pw sch (k # ks) a b =
     rbind (evaluate pw sch a (sk_expr k)) (\<lambda>va.
     rbind (evaluate pw sch b (sk_expr k)) (\<lambda>vb.
     rbind (key_compare k va vb) (\<lambda>r.
       case r of Some before \<Rightarrow> Inr before | None \<Rightarrow> row_less pw sch ks a b)))"

text \<open>
  \<open>std::stable_sort\<close> over a comparator that may throw, as stable insertion. Under a strict
  weak order its result does not depend on the algorithm (\<open>stable_sort_unique\<close> below).
\<close>

fun stable_insert :: "('a \<Rightarrow> 'a \<Rightarrow> bool res) \<Rightarrow> 'a \<Rightarrow> 'a list \<Rightarrow> 'a list res" where
  "stable_insert lt x [] = Inr [x]"
| "stable_insert lt x (y # ys) =
     rbind (lt y x) (\<lambda>b. if b then rmap (Cons y) (stable_insert lt x ys) else Inr (x # y # ys))"

fun stable_sort :: "('a \<Rightarrow> 'a \<Rightarrow> bool res) \<Rightarrow> 'a list \<Rightarrow> 'a list res" where
  "stable_sort lt [] = Inr []"
| "stable_sort lt (x # xs) = rbind (stable_sort lt xs) (stable_insert lt x)"

definition sort_rows ::
    "(f64 \<Rightarrow> f64 \<Rightarrow> f64) \<Rightarrow> schema \<Rightarrow> sort_key list \<Rightarrow> row list \<Rightarrow> row list res" where
  "sort_rows pw sch ks rs = stable_sort (row_less pw sch ks) rs"

lemma stable_insert_mset: "stable_insert lt x ys = Inr zs \<Longrightarrow> mset zs = add_mset x (mset ys)"
  by (induction ys arbitrary: zs) (auto simp: res_simps split: if_splits)

lemma stable_sort_mset: "stable_sort lt xs = Inr ys \<Longrightarrow> mset ys = mset xs"
  by (induction xs arbitrary: ys) (auto simp: res_simps dest: stable_insert_mset)

text \<open>The contract of a comparator: a strict weak order on a carrier.\<close>

locale strict_weak =
  fixes S :: "'a set" and lt :: "'a \<Rightarrow> 'a \<Rightarrow> bool"
  assumes irrefl: "a \<in> S \<Longrightarrow> \<not> lt a a"
    and trans: "a \<in> S \<Longrightarrow> b \<in> S \<Longrightarrow> c \<in> S \<Longrightarrow> lt a b \<Longrightarrow> lt b c \<Longrightarrow> lt a c"
    and cotrans: "a \<in> S \<Longrightarrow> b \<in> S \<Longrightarrow> c \<in> S \<Longrightarrow> lt a c \<Longrightarrow> lt a b \<or> lt b c"
begin

lemma asym: "a \<in> S \<Longrightarrow> b \<in> S \<Longrightarrow> lt a b \<Longrightarrow> \<not> lt b a"
  using irrefl trans by blast

definition equiv :: "'a \<Rightarrow> 'a \<Rightarrow> bool" where
  "equiv a b = (\<not> lt a b \<and> \<not> lt b a)"

definition stable_sorted :: "'a list \<Rightarrow> 'a list \<Rightarrow> bool" where
  "stable_sorted xs ys =
     (mset ys = mset xs \<and> sorted_wrt (\<lambda>a b. \<not> lt b a) ys
      \<and> (\<forall>a \<in> S. filter (equiv a) ys = filter (equiv a) xs))"

lemma stable_insert_ok:
  assumes "\<And>a b. a \<in> S \<Longrightarrow> b \<in> S \<Longrightarrow> ltm a b = Inr (lt a b)"
  shows "x \<in> S \<Longrightarrow> set ys \<subseteq> S \<Longrightarrow> sorted_wrt (\<lambda>a b. \<not> lt b a) ys \<Longrightarrow>
     \<exists>zs. stable_insert ltm x ys = Inr zs \<and> stable_sorted (x # ys) zs"
proof (induction ys)
  case Nil
  then show ?case by (simp add: stable_sorted_def)
next
  case (Cons y ys)
  show ?case
  proof (cases "lt y x")
    case True
    from Cons obtain zs where zs: "stable_insert ltm x ys = Inr zs" "stable_sorted (x # ys) zs"
      by auto
    have set: "set zs = insert x (set ys)"
      using zs(2) by (metis list.simps(15) set_mset_mset stable_sorted_def)
    have "sorted_wrt (\<lambda>a b. \<not> lt b a) (y # zs)"
      using Cons.prems zs(2) True asym set by (auto simp: stable_sorted_def)
    moreover have "filter (equiv a) (y # zs) = filter (equiv a) (x # y # ys)" if "a \<in> S" for a
    proof -
      have "\<not> (equiv a x \<and> equiv a y)"
        using True that Cons.prems cotrans [of y a x] by (auto simp: equiv_def)
      with zs(2) that show ?thesis by (auto simp: stable_sorted_def)
    qed
    ultimately show ?thesis
      using zs True Cons.prems assms by (auto simp: stable_sorted_def)
  next
    case False
    have "\<not> lt b x" if "b \<in> set ys" for b
      using that False Cons.prems cotrans [of b y x] by auto
    with False Cons.prems assms show ?thesis by (auto simp: stable_sorted_def)
  qed
qed

lemma stable_sort_ok:
  assumes "\<And>a b. a \<in> S \<Longrightarrow> b \<in> S \<Longrightarrow> ltm a b = Inr (lt a b)"
  shows "set xs \<subseteq> S \<Longrightarrow> \<exists>ys. stable_sort ltm xs = Inr ys \<and> stable_sorted xs ys"
proof (induction xs)
  case Nil
  then show ?case by (simp add: stable_sorted_def)
next
  case (Cons x xs)
  then obtain ys where ys: "stable_sort ltm xs = Inr ys" "stable_sorted xs ys" by auto
  then have "set ys \<subseteq> S" using Cons.prems by (metis insert_subset list.simps(15) set_mset_mset stable_sorted_def)
  with stable_insert_ok [OF assms, of x ys] Cons.prems ys(2) obtain zs
    where "stable_insert ltm x ys = Inr zs" "stable_sorted (x # ys) zs"
    by (auto simp: stable_sorted_def)
  with ys show ?case by (auto simp: stable_sorted_def)
qed

text \<open>A list has one stable sorting.\<close>

lemma stable_sort_unique:
  "set xs \<subseteq> S \<Longrightarrow> stable_sorted xs ys \<Longrightarrow> stable_sorted xs zs \<Longrightarrow> ys = zs"
proof (induction ys arbitrary: xs zs)
  case Nil
  then show ?case by (simp add: stable_sorted_def)
next
  case (Cons y ys)
  have sets: "set zs = set xs" "set (y # ys) = set xs"
    using Cons.prems by (metis set_mset_mset stable_sorted_def)+
  with Cons.prems obtain z zs' where zs: "zs = z # zs'" by (cases zs) auto
  have S: "y \<in> S" "z \<in> S" using sets zs Cons.prems(1) by auto
  have "\<not> lt z y" "\<not> lt y z"
    using Cons.prems sets zs irrefl [OF S(1)] by (auto simp: stable_sorted_def)
  then have e: "equiv y z" "equiv y y" "equiv z z" using irrefl S by (auto simp: equiv_def)
  have "filter (equiv y) (y # ys) = filter (equiv y) (z # zs')"
    using Cons.prems S unfolding zs stable_sorted_def by metis
  with e have yz: "y = z" by simp
  have "mset (y # ys) = mset (y # zs')"
    using Cons.prems(2,3) unfolding zs yz stable_sorted_def by metis
  then have m: "mset zs' = mset ys" by simp
  have f: "filter (equiv a) zs' = filter (equiv a) ys" if "a \<in> S" for a
  proof -
    have "filter (equiv a) (y # ys) = filter (equiv a) (y # zs')"
      using Cons.prems(2,3) that unfolding zs yz stable_sorted_def by metis
    then show ?thesis by (simp split: if_splits)
  qed
  have "stable_sorted ys ys" "stable_sorted ys zs'"
    using Cons.prems(2,3) m f unfolding zs by (simp_all add: stable_sorted_def)
  then show ?case using Cons.IH [of ys zs'] sets Cons.prems(1) zs yz by auto
qed

end

subsection \<open>The order of ORDER BY\<close>

fun value_nan :: "value \<Rightarrow> bool" where
  "value_nan (VF64 d) = f64_is_nan d"
| "value_nan (VF32 f) = f64_is_nan (f32_to_f64 f)"
| "value_nan _ = False"

definition vlt :: "value \<Rightarrow> value \<Rightarrow> bool" where
  "vlt a b = (value_lt a b = Inr True)"

definition ordered_values :: "type_id \<Rightarrow> value set" where
  "ordered_values t = {v. isNull v \<or> typeId v = t \<and> \<not> value_nan v}"

lemma vlt_cotrans:
  assumes "typeId a = t" "typeId b = t" "typeId c = t" "\<not> value_nan a" "\<not> value_nan b" "\<not> value_nan c"
    "vlt a c"
  shows "vlt a b \<or> vlt b c"
  using assms by (cases a; cases b; simp; cases c) (auto simp: vlt_def f64_lt_def)

definition key_before :: "sort_key \<Rightarrow> value \<Rightarrow> value \<Rightarrow> bool" where
  "key_before k a b = (key_compare k a b = Inr (Some True))"

lemma key_compare_ok:
  assumes "a \<in> ordered_values t" "b \<in> ordered_values t"
  shows "key_compare k a b = Inr (if key_before k a b then Some True
     else if key_before k b a then Some False else None)"
proof (cases "isNull a \<or> isNull b")
  case True
  then show ?thesis by (auto simp: key_compare_def key_before_def Let_def)
next
  case False
  with assms have "typeId a = typeId b" by (auto simp: ordered_values_def)
  then obtain x y where "value_lt a b = Inr x" "value_lt b a = Inr y"
    using value_lt_total by metis
  moreover have "\<not> (x \<and> y)" using calculation value_lt_asym by auto
  ultimately show ?thesis using False by (auto simp: key_compare_def key_before_def)
qed

lemma key_before_cases:
  assumes "a \<in> ordered_values t" "b \<in> ordered_values t"
  shows "key_before k a b =
    (if isNull a \<or> isNull b then
       isNull a \<noteq> isNull b \<and> (isNull a = (sk_nulls k = NULLS_FIRST \<or> (sk_nulls k = UNSPECIFIED \<and> sk_order k = ASC)))
     else if sk_order k = ASC then vlt a b else vlt b a)"
proof (cases "isNull a \<or> isNull b")
  case True
  then show ?thesis by (auto simp: key_compare_def key_before_def Let_def)
next
  case False
  with assms have "typeId a = typeId b" by (auto simp: ordered_values_def)
  then obtain x y where "value_lt a b = Inr x" "value_lt b a = Inr y"
    using value_lt_total by metis
  moreover have "\<not> (x \<and> y)" using calculation value_lt_asym by auto
  ultimately show ?thesis using False by (auto simp: key_compare_def key_before_def vlt_def)
qed

lemma vlt_irrefl: "\<not> vlt a a" by (simp add: vlt_def value_lt_irrefl)
lemma vlt_trans: "vlt a b \<Longrightarrow> vlt b c \<Longrightarrow> vlt a c"
  using value_lt_trans by (auto simp: vlt_def)

lemma strict_weak_key: "strict_weak (ordered_values t) (key_before k)"
proof
  fix a assume a: "a \<in> ordered_values t"
  then show "\<not> key_before k a a" by (simp add: key_before_cases [OF a a] vlt_irrefl)
next
  fix a b c assume m: "a \<in> ordered_values t" "b \<in> ordered_values t" "c \<in> ordered_values t"
    and "key_before k a b" "key_before k b c"
  then show "key_before k a c"
    unfolding key_before_cases [OF m(1,2)] key_before_cases [OF m(2,3)] key_before_cases [OF m(1,3)]
    by (auto split: if_splits intro: vlt_trans)
next
  fix a b c assume m: "a \<in> ordered_values t" "b \<in> ordered_values t" "c \<in> ordered_values t"
    and "key_before k a c"
  then show "key_before k a b \<or> key_before k b c"
    unfolding key_before_cases [OF m(1,2)] key_before_cases [OF m(2,3)] key_before_cases [OF m(1,3)]
    using vlt_cotrans [of a t b c] vlt_cotrans [of c t b a] m
    by (auto simp: ordered_values_def split: if_splits)
qed

text \<open>The orders on rows: one key after another.\<close>

lemma strict_weak_lex:
  assumes "strict_weak S p" "strict_weak S q"
  shows "strict_weak S (\<lambda>a b. p a b \<or> \<not> p b a \<and> q a b)"
proof
  note P = strict_weak.irrefl [OF assms(1)] strict_weak.trans [OF assms(1)] strict_weak.cotrans [OF assms(1)]
  note Q = strict_weak.irrefl [OF assms(2)] strict_weak.trans [OF assms(2)] strict_weak.cotrans [OF assms(2)]
  fix a b c
  show "a \<in> S \<Longrightarrow> \<not> (p a a \<or> \<not> p a a \<and> q a a)"
    using P(1) Q(1) by blast
  assume m: "a \<in> S" "b \<in> S" "c \<in> S"
  show "p a b \<or> \<not> p b a \<and> q a b \<Longrightarrow> p b c \<or> \<not> p c b \<and> q b c \<Longrightarrow> p a c \<or> \<not> p c a \<and> q a c"
    using P(2) [OF m] P(3) [OF m(3) m(2) m(1)] P(3) [OF m(1) m(3) m(2)] P(3) [OF m(2) m(1) m(3)] Q(2) [OF m] by blast
  show "p a c \<or> \<not> p c a \<and> q a c \<Longrightarrow> (p a b \<or> \<not> p b a \<and> q a b) \<or> (p b c \<or> \<not> p c b \<and> q b c)"
    using P(2) [OF m(3) m(2) m(1)] P(3) [OF m] P(2) [OF m(2,1,3)] P(2) [OF m(1,3,2)] P(3) [OF m(3,2,1)]
      P(3) [OF m(2) m(3) m(1)] P(3) [OF m(2) m(1) m(3)] P(3) [OF m(3) m(1) m(2)] P(1) [OF m(1)] Q(3) [OF m]
    by blast
qed

lemma strict_weak_image:
  assumes "strict_weak T p" "\<And>r. r \<in> S \<Longrightarrow> f r \<in> T"
  shows "strict_weak S (\<lambda>a b. p (f a) (f b))"
proof
  fix a b c
  show "a \<in> S \<Longrightarrow> \<not> p (f a) (f a)"
    using strict_weak.irrefl [OF assms(1)] assms(2) by blast
  assume "a \<in> S" "b \<in> S" "c \<in> S"
  then have m: "f a \<in> T" "f b \<in> T" "f c \<in> T" by (simp_all add: assms(2))
  show "p (f a) (f b) \<Longrightarrow> p (f b) (f c) \<Longrightarrow> p (f a) (f c)"
    by (rule strict_weak.trans [OF assms(1) m])
  show "p (f a) (f c) \<Longrightarrow> p (f a) (f b) \<or> p (f b) (f c)"
    by (rule strict_weak.cotrans [OF assms(1) m])
qed

text \<open>
  The rows that the keys can order: key \<open>i\<close> evaluates to NULL or to a value of type \<open>tys ! i\<close>
  that is not a NaN.
\<close>

fun sort_safe ::
    "(f64 \<Rightarrow> f64 \<Rightarrow> f64) \<Rightarrow> schema \<Rightarrow> sort_key list \<Rightarrow> type_id list \<Rightarrow> row \<Rightarrow> bool" where
  "sort_safe pw sch (k # ks) (t # ts) r =
     ((case evaluate pw sch r (sk_expr k) of
         Inl _ \<Rightarrow> False
       | Inr v \<Rightarrow> isNull v \<or> typeId v = t \<and> \<not> value_nan v) \<and> sort_safe pw sch ks ts r)"
| "sort_safe pw sch [] [] r = True"
| "sort_safe pw sch _ _ r = False"

definition row_before ::
    "(f64 \<Rightarrow> f64 \<Rightarrow> f64) \<Rightarrow> schema \<Rightarrow> sort_key list \<Rightarrow> row \<Rightarrow> row \<Rightarrow> bool" where
  "row_before pw sch ks a b = (row_less pw sch ks a b = Inr True)"

definition key_value :: "(f64 \<Rightarrow> f64 \<Rightarrow> f64) \<Rightarrow> schema \<Rightarrow> sort_key \<Rightarrow> row \<Rightarrow> value" where
  "key_value pw sch k r = (case evaluate pw sch r (sk_expr k) of Inl _ \<Rightarrow> VNull | Inr v \<Rightarrow> v)"

lemma sort_safe_key:
  assumes "sort_safe pw sch (k # ks) (t # ts) r"
  shows "evaluate pw sch r (sk_expr k) = Inr (key_value pw sch k r)"
    "key_value pw sch k r \<in> ordered_values t" "sort_safe pw sch ks ts r"
  using assms by (auto simp: key_value_def ordered_values_def split: sum.splits)

lemma row_less_safe:
  "sort_safe pw sch ks ts a \<Longrightarrow> sort_safe pw sch ks ts b \<Longrightarrow>
     row_less pw sch ks a b = Inr (row_before pw sch ks a b)"
proof (induction pw sch ks ts a rule: sort_safe.induct)
  case (1 pw sch k ks t ts a)
  note a = sort_safe_key [OF "1.prems"(1)] and b = sort_safe_key [OF "1.prems"(2)]
  have "\<exists>x. row_less pw sch (k # ks) a b = Inr x"
    using "1.IH" a b by (auto simp: key_compare_ok [OF a(2) b(2)])
  then show ?case by (auto simp: row_before_def)
qed (auto simp: row_before_def)

lemma row_before_Cons:
  assumes "sort_safe pw sch (k # ks) (t # ts) a" "sort_safe pw sch (k # ks) (t # ts) b"
  shows "row_before pw sch (k # ks) a b =
    (key_before k (key_value pw sch k a) (key_value pw sch k b) \<or>
     \<not> key_before k (key_value pw sch k b) (key_value pw sch k a) \<and> row_before pw sch ks a b)"
proof -
  note a = sort_safe_key [OF assms(1)] and b = sort_safe_key [OF assms(2)]
  show ?thesis
    unfolding row_before_def [of _ _ "k # ks"]
    using row_less_safe [OF a(3) b(3)] strict_weak.asym [OF strict_weak_key a(2) b(2), of k]
    by (auto simp: a(1) b(1) key_compare_ok [OF a(2) b(2)])
qed

lemma strict_weak_cong:
  assumes "strict_weak S p" "\<And>a b. a \<in> T \<Longrightarrow> b \<in> T \<Longrightarrow> q a b = p a b" "T \<subseteq> S"
  shows "strict_weak T q"
proof
  fix a b c
  show "a \<in> T \<Longrightarrow> \<not> q a a"
    using strict_weak.irrefl [OF assms(1)] assms(2,3) by auto
  assume "a \<in> T" "b \<in> T" "c \<in> T"
  then have e: "q a b = p a b" "q b c = p b c" "q a c = p a c" and m: "a \<in> S" "b \<in> S" "c \<in> S"
    using assms(2,3) by auto
  show "q a b \<Longrightarrow> q b c \<Longrightarrow> q a c"
    unfolding e by (rule strict_weak.trans [OF assms(1) m])
  show "q a c \<Longrightarrow> q a b \<or> q b c"
    unfolding e by (rule strict_weak.cotrans [OF assms(1) m])
qed

interpretation ordby: strict_weak "{r. sort_safe pw sch ks ts r}" "row_before pw sch ks"
  for pw sch ks ts
proof (induction ks arbitrary: ts)
  case Nil
  show ?case by (simp add: strict_weak_def row_before_def)
next
  case (Cons k ks)
  show ?case
  proof (cases ts)
    case Nil
    then show ?thesis by (simp add: strict_weak_def)
  next
    case (Cons t ts')
    let ?S = "{r. sort_safe pw sch (k # ks) ts r}"
    have "strict_weak ?S (\<lambda>a b. key_before k (key_value pw sch k a) (key_value pw sch k b))"
      by (rule strict_weak_image [OF strict_weak_key [of t]]) (use Cons sort_safe_key in blast)
    moreover have "strict_weak ?S (row_before pw sch ks)"
      by (rule strict_weak_cong [OF Cons.IH [of ts'] refl]) (auto simp: Cons)
    ultimately show ?thesis
      by (rule strict_weak_cong [OF strict_weak_lex]) (simp_all add: Cons row_before_Cons [of pw sch k ks t ts'])
  qed
qed

subsection \<open>Distinct\<close>

definition value_key :: "value \<Rightarrow> string" where
  "value_key v =
     (if isNull v then CHR 0x01 # ''N''
      else CHR 0x01 # nat_string (type_id_code (typeId v)) @ '':'' @ value_string v)"

definition rowKey :: "row \<Rightarrow> string" where
  "rowKey r = concat (map value_key r)"

text \<open>One iteration of the loop of \<open>Distinct::build\<close> over \<open>seen\<close> and \<open>rows_\<close>.\<close>

definition distinct_step :: "string list \<times> row list \<Rightarrow> row \<Rightarrow> string list \<times> row list" where
  "distinct_step st r =
     (let k = rowKey r in
      if k \<in> set (fst st) then st else (k # fst st, snd st @ [r]))"

text \<open>Its meaning: the rows whose key does not occur before.\<close>

fun first_rows :: "string set \<Rightarrow> row list \<Rightarrow> row list" where
  "first_rows K [] = []"
| "first_rows K (r # rs) =
     (if rowKey r \<in> K then first_rows K rs else r # first_rows (insert (rowKey r) K) rs)"

lemma distinct_fold:
  "snd (fold (\<lambda>r st. distinct_step st r) rs st) = snd st @ first_rows (set (fst st)) rs"
  by (induction rs arbitrary: st) (auto simp: distinct_step_def Let_def)

lemma first_rows_keys:
  "distinct (map rowKey (first_rows K rs))
   \<and> rowKey ` set (first_rows K rs) = rowKey ` set rs - K"
  by (induction rs arbitrary: K) (auto simp: image_iff)

lemma first_rows_subseq: "subseq (first_rows K rs) rs"
  by (induction rs arbitrary: K) auto

text \<open>
  The values whose text the key separates: everything but floating point, which is printed
  with six decimals, and text with the separator in it.
\<close>

definition key_safe :: "value \<Rightarrow> bool" where
  "key_safe v = (case v of VF64 _ \<Rightarrow> False | VF32 _ \<Rightarrow> False | VStr s \<Rightarrow> CHR 0x01 \<notin> set s | _ \<Rightarrow> True)"

lemma digit_not: "isdigit c \<Longrightarrow> c \<noteq> CHR 0x01" "isdigit c \<Longrightarrow> c \<noteq> CHR '':''" "isdigit c \<Longrightarrow> c \<noteq> CHR ''N''"
  by (auto simp: isdigit_def)

lemma nat_string_not:
  "CHR 0x01 \<notin> set (nat_string n)" "CHR '':'' \<notin> set (nat_string n)"
  using nat_string_digits digit_not by blast+

lemma value_string_safe: "key_safe v \<Longrightarrow> CHR 0x01 \<notin> set (value_string v)"
  by (cases v) (auto simp: key_safe_def dest!: int_string_chars digit_not(1))

definition key_body :: "value \<Rightarrow> string" where
  "key_body v = tl (value_key v)"

lemma value_key_body: "value_key v = CHR 0x01 # key_body v"
  by (simp add: value_key_def key_body_def)

lemma key_body_safe: "key_safe v \<Longrightarrow> CHR 0x01 \<notin> set (key_body v)"
  using value_string_safe [of v] nat_string_not by (auto simp: key_body_def value_key_def)

lemma split_at_sep:
  assumes "c \<notin> set a" "c \<notin> set b" "x = [] \<or> hd x = c" "y = [] \<or> hd y = c" "a @ x = b @ y"
  shows "a = b \<and> x = y"
proof -
  have "takeWhile (\<lambda>d. d \<noteq> c) (u @ z) = u" if "c \<notin> set u" "z = [] \<or> hd z = c" for u z
    using that by (cases z) (auto simp: takeWhile_append)
  with assms have "a = b" by metis
  with assms(5) show ?thesis by simp
qed

lemma value_string_inject:
  "typeId v = typeId w \<Longrightarrow> key_safe v \<Longrightarrow> key_safe w \<Longrightarrow> value_string v = value_string w \<Longrightarrow> v = w"
  by (cases v; cases w) (auto simp: key_safe_def dest: signed_word_eqI split: if_splits)

lemma typeId_code_inject: "type_id_code (typeId v) = type_id_code (typeId w) \<Longrightarrow> typeId v = typeId w"
  by (cases v; cases w) auto

lemma key_body_inject:
  assumes "key_safe v" "key_safe w" "key_body v = key_body w"
  shows "v = w"
proof (cases "isNull v \<or> isNull w")
  case True
  have "key_body u \<noteq> ''N''" if "\<not> isNull u" for u
  proof
    assume "key_body u = ''N''"
    with that have "hd (nat_string (type_id_code (typeId u)) @ '':'' @ value_string u) = CHR ''N''"
      by (simp add: key_body_def value_key_def)
    with nat_string_hd_digit [of "type_id_code (typeId u)"] digit_not(3) show False by simp
  qed
  moreover have "key_body u = ''N''" if "isNull u" for u
    using that by (simp add: key_body_def value_key_def)
  ultimately show ?thesis using True assms(3) by (metis isNull_def)
next
  case False
  with assms(3) have "nat_string (type_id_code (typeId v)) @ CHR '':'' # value_string v
      = nat_string (type_id_code (typeId w)) @ CHR '':'' # value_string w"
    by (simp add: key_body_def value_key_def)
  from split_at_sep [OF nat_string_not(2) nat_string_not(2) _ _ this]
  have "type_id_code (typeId v) = type_id_code (typeId w)" "value_string v = value_string w"
    by simp_all
  with assms(1,2) show ?thesis by (intro value_string_inject typeId_code_inject)
qed

lemma rowKey_inject:
  "list_all key_safe r \<Longrightarrow> list_all key_safe r' \<Longrightarrow> rowKey r = rowKey r' \<Longrightarrow> r = r'"
proof (induction r arbitrary: r')
  case Nil
  then show ?case by (cases r') (auto simp: rowKey_def value_key_body)
next
  case (Cons v r)
  then obtain w s where r': "r' = w # s"
    by (cases r') (auto simp: rowKey_def value_key_body)
  have sep: "rowKey u = [] \<or> hd (rowKey u) = CHR 0x01" for u
    by (cases u) (auto simp: rowKey_def value_key_body)
  from Cons.prems have e: "key_body v @ rowKey r = key_body w @ rowKey s"
    by (simp add: r' rowKey_def value_key_body)
  have n: "CHR 0x01 \<notin> set (key_body v)" "CHR 0x01 \<notin> set (key_body w)"
    using Cons.prems r' key_body_safe by auto
  have "key_body v = key_body w \<and> rowKey r = rowKey s"
    by (rule split_at_sep [OF n sep sep e])
  with Cons.prems Cons.IH [of s] show ?case by (auto simp: r' intro: key_body_inject)
qed

text \<open>Where it is not: two rows of text, and two numbers that agree to six decimals.\<close>

lemma rowKey_confuses_text:
  "rowKey [VStr ''a'', VStr ''b''] = rowKey [VStr (''a'' @ CHR 0x01 # ''8:b'')]"
  by code_simp

subsection \<open>Grouping and aggregation\<close>

text \<open>
  \<open>AccState\<close> keeps parallel vectors indexed by the aggregate; the model keeps one \<open>agg_cell\<close> per
  aggregate. The \<open>int64_t\<close> counters count rows and are natural numbers here.
\<close>

record agg =
  agg_func :: string
  agg_arg :: "expr option"
  agg_star :: bool
  agg_distinct :: bool
  agg_outName :: string
  agg_outType :: data_type

record agg_cell =
  numAcc :: f64
  counts :: nat
  minmax :: "value"
  seen :: "string list"

record acc_state =
  acc_cells :: "agg_cell list"
  keyValues :: row

type_synonym groups = "(string \<rightharpoonup> acc_state) \<times> string list"

definition new_cell :: agg_cell where
  "new_cell = \<lparr>numAcc = f64_zero False, counts = 0, minmax = VNull, seen = []\<rparr>"

definition newAcc :: "agg list \<Rightarrow> row \<Rightarrow> acc_state" where
  "newAcc aggs keyVals = \<lparr>acc_cells = map (\<lambda>_. new_cell) aggs, keyValues = keyVals\<rparr>"

definition distinct_key :: "value \<Rightarrow> string" where
  "distinct_key v = nat_string (type_id_code (typeId v)) @ '':'' @ value_string v"

text \<open>A non-NULL input of one aggregate.\<close>

definition agg_accumulate :: "agg \<Rightarrow> value \<Rightarrow> agg_cell \<Rightarrow> agg_cell res" where
  "agg_accumulate a v c =
     (let c' = c\<lparr>counts := Suc (counts c)\<rparr> in
      if agg_func a = ''SUM'' \<or> agg_func a = ''AVG'' then
        rmap (\<lambda>d. c'\<lparr>numAcc := f64_add (numAcc c) d\<rparr>) (toDouble v)
      else if agg_func a = ''MIN'' then
        rmap (\<lambda>b. if b then c'\<lparr>minmax := v\<rparr> else c')
          (if isNull (minmax c) then Inr True else value_lt v (minmax c))
      else if agg_func a = ''MAX'' then
        rmap (\<lambda>b. if b then c'\<lparr>minmax := v\<rparr> else c')
          (if isNull (minmax c) then Inr True else value_lt (minmax c) v)
      else Inr c')"

definition agg_input :: "agg \<Rightarrow> value \<Rightarrow> agg_cell \<Rightarrow> agg_cell res" where
  "agg_input a v c =
     (if isNull v then Inr c
      else if agg_distinct a then
        (if distinct_key v \<in> set (seen c) then Inr c
         else agg_accumulate a v (c\<lparr>seen := distinct_key v # seen c\<rparr>))
      else agg_accumulate a v c)"

text \<open>One row for one aggregate; the argument of a call without one is a null pointer.\<close>

definition agg_step ::
    "(f64 \<Rightarrow> f64 \<Rightarrow> f64) \<Rightarrow> schema \<Rightarrow> agg \<Rightarrow> agg_cell \<Rightarrow> row \<Rightarrow> agg_cell res" where
  "agg_step pw sch a c row =
     (if agg_star a then Inr (c\<lparr>counts := Suc (counts c)\<rparr>)
      else case agg_arg a of
          None \<Rightarrow> Inl (Undefined ''null pointer: aggregate argument'')
        | Some e \<Rightarrow> rbind (evaluate pw sch row e) (\<lambda>v. agg_input a v c))"

definition cells_step ::
    "(f64 \<Rightarrow> f64 \<Rightarrow> f64) \<Rightarrow> schema \<Rightarrow> agg list \<Rightarrow> agg_cell list \<Rightarrow> row \<Rightarrow> agg_cell list res" where
  "cells_step pw sch aggs cells row =
     rmapM (\<lambda>(a, c). agg_step pw sch a c row) (zip aggs cells)"

definition group_values ::
    "(f64 \<Rightarrow> f64 \<Rightarrow> f64) \<Rightarrow> schema \<Rightarrow> expr list \<Rightarrow> row \<Rightarrow> row res" where
  "group_values pw sch keys row = rmapM (evaluate pw sch row) keys"

text \<open>One iteration of the row loop of \<open>HashAggregate::build\<close>.\<close>

definition agg_absorb ::
    "(f64 \<Rightarrow> f64 \<Rightarrow> f64) \<Rightarrow> schema \<Rightarrow> expr list \<Rightarrow> agg list \<Rightarrow> groups \<Rightarrow> row \<Rightarrow> groups res" where
  "agg_absorb pw sch keys aggs gs row =
     rbind (group_values pw sch keys row) (\<lambda>kv.
       let gk = rowKey kv;
           gs' = (case fst gs gk of
                    Some _ \<Rightarrow> gs
                  | None \<Rightarrow> ((fst gs)(gk \<mapsto> newAcc aggs kv), snd gs @ [gk]));
           st = the (fst gs' gk)
       in rmap (\<lambda>cells. ((fst gs')(gk \<mapsto> st\<lparr>acc_cells := cells\<rparr>), snd gs'))
            (cells_step pw sch aggs (acc_cells st) row))"

text \<open>Without GROUP BY and without input there is still one group.\<close>

definition agg_finish :: "expr list \<Rightarrow> agg list \<Rightarrow> groups \<Rightarrow> groups" where
  "agg_finish keys aggs gs =
     (if keys = [] \<and> snd gs = [] then ((fst gs)(rowKey [] \<mapsto> newAcc aggs []), snd gs @ [rowKey []])
      else gs)"

definition agg_value :: "agg \<Rightarrow> agg_cell \<Rightarrow> value" where
  "agg_value a c =
     (if agg_func a = ''COUNT'' then VI64 (word_of_nat (counts c))
      else if agg_func a = ''SUM'' then (if counts c = 0 then VNull else VF64 (numAcc c))
      else if agg_func a = ''AVG'' then
        (if counts c = 0 then VNull else VF64 (f64_div (numAcc c) (f64_of_int (int (counts c)))))
      else if agg_func a = ''MIN'' \<or> agg_func a = ''MAX'' then minmax c
      else VNull)"

definition group_row :: "agg list \<Rightarrow> acc_state \<Rightarrow> row" where
  "group_row aggs st = keyValues st @ map (\<lambda>(a, c). agg_value a c) (zip aggs (acc_cells st))"

definition agg_rows :: "agg list \<Rightarrow> groups \<Rightarrow> row list res" where
  "agg_rows aggs gs =
     rmapM (\<lambda>k. case fst gs k of
         None \<Rightarrow> Inl (OutOfRange ''unordered_map::at'')
       | Some st \<Rightarrow> Inr (group_row aggs st)) (snd gs)"

text \<open>
  The meaning of the loop: the keys in the order of their first row, and for every key the
  aggregates folded over the rows that have it.
\<close>

definition row_group :: "(f64 \<Rightarrow> f64 \<Rightarrow> f64) \<Rightarrow> schema \<Rightarrow> expr list \<Rightarrow> row \<Rightarrow> string" where
  "row_group pw sch keys row = (case group_values pw sch keys row of Inl _ \<Rightarrow> [] | Inr kv \<Rightarrow> rowKey kv)"

definition first_occurrences :: "'a list \<Rightarrow> 'a list" where
  "first_occurrences xs = rev (remdups (rev xs))"

lemma first_occurrences_simps [simp]:
  "first_occurrences [] = []" "set (first_occurrences xs) = set xs" "distinct (first_occurrences xs)"
  "first_occurrences (xs @ [x]) = (if x \<in> set xs then first_occurrences xs else first_occurrences xs @ [x])"
  by (simp_all add: first_occurrences_def)

definition groups_ok ::
    "(f64 \<Rightarrow> f64 \<Rightarrow> f64) \<Rightarrow> schema \<Rightarrow> expr list \<Rightarrow> agg list \<Rightarrow> row list \<Rightarrow> groups \<Rightarrow> bool" where
  "groups_ok pw sch keys aggs rs gs =
     (let group = row_group pw sch keys in
      snd gs = first_occurrences (map group rs) \<and> dom (fst gs) = group ` set rs
      \<and> (\<forall>k st. fst gs k = Some st \<longrightarrow>
           rfold (cells_step pw sch aggs) (map (\<lambda>_. new_cell) aggs) (filter (\<lambda>r. group r = k) rs)
             = Inr (acc_cells st)
           \<and> (\<exists>r \<in> set rs. group r = k \<and> group_values pw sch keys r = Inr (keyValues st))))"

lemma agg_absorb_ok:
  assumes "groups_ok pw sch keys aggs rs gs" "agg_absorb pw sch keys aggs gs r = Inr gs'"
  shows "groups_ok pw sch keys aggs (rs @ [r]) gs'"
proof -
  let ?g = "row_group pw sch keys"
  from assms(2) obtain kv where kv: "group_values pw sch keys r = Inr kv"
    by (auto simp: agg_absorb_def res_simps)
  then have gr: "?g r = rowKey kv" by (simp add: row_group_def)
  note ok = assms(1) [unfolded groups_ok_def Let_def]
  show ?thesis
  proof (cases "fst gs (rowKey kv)")
    case None
    then have new: "rowKey kv \<notin> ?g ` set rs" using ok by (metis domIff)
    then have no: "filter (\<lambda>x. ?g x = rowKey kv) rs = []"
      unfolding filter_empty_conv by (metis imageI)
    from assms(2) kv None obtain cells where cells:
        "cells_step pw sch aggs (map (\<lambda>_. new_cell) aggs) r = Inr cells"
        "gs' = ((fst gs)(rowKey kv \<mapsto> \<lparr>acc_cells = cells, keyValues = kv\<rparr>), snd gs @ [rowKey kv])"
      by (auto simp: agg_absorb_def newAcc_def Let_def res_simps)
    show ?thesis
      unfolding groups_ok_def Let_def cells(2)
      using ok new no kv gr cells(1) by (auto simp: row_group_def)
  next
    case (Some st)
    then have old: "rowKey kv \<in> ?g ` set rs" using ok by (metis domI)
    from assms(2) kv Some obtain cells where cells:
        "cells_step pw sch aggs (acc_cells st) r = Inr cells"
        "gs' = ((fst gs)(rowKey kv \<mapsto> st\<lparr>acc_cells := cells\<rparr>), snd gs)"
      by (auto simp: agg_absorb_def Let_def res_simps)
    have "rfold (cells_step pw sch aggs) (map (\<lambda>_. new_cell) aggs) (filter (\<lambda>x. ?g x = rowKey kv) rs)
        = Inr (acc_cells st)"
      using ok Some by blast
    then show ?thesis
      unfolding groups_ok_def Let_def cells(2)
      using ok old Some gr cells(1) by (auto simp: rfold_append)
  qed
qed

lemma agg_fold_ok:
  "groups_ok pw sch keys aggs rs0 gs \<Longrightarrow> rfold (agg_absorb pw sch keys aggs) gs rs = Inr gs' \<Longrightarrow>
     groups_ok pw sch keys aggs (rs0 @ rs) gs'"
proof (induction rs arbitrary: rs0 gs)
  case (Cons r rs)
  from Cons.prems(2) obtain g1 where g1: "agg_absorb pw sch keys aggs gs r = Inr g1"
      "rfold (agg_absorb pw sch keys aggs) g1 rs = Inr gs'"
    by (auto simp: res_simps)
  from Cons.IH [OF agg_absorb_ok [OF Cons.prems(1) g1(1)] g1(2)] show ?case by simp
qed simp

lemma groups_ok_empty: "groups_ok pw sch keys aggs [] (Map.empty, [])"
  by (simp add: groups_ok_def)

text \<open>The cells of one group, one aggregate at a time.\<close>

lemma cells_step_nth:
  "cells_step pw sch aggs cells r = Inr cells' \<Longrightarrow> length cells = length aggs \<Longrightarrow>
     length cells' = length aggs \<and> (\<forall>i < length aggs. agg_step pw sch (aggs ! i) (cells ! i) r = Inr (cells' ! i))"
  by (auto simp: cells_step_def rmapM_Inr_iff list_all2_conv_all_nth)

lemma cells_fold_nth:
  "rfold (cells_step pw sch aggs) cells rs = Inr cells' \<Longrightarrow> length cells = length aggs \<Longrightarrow>
     length cells' = length aggs
     \<and> (\<forall>i < length aggs. rfold (agg_step pw sch (aggs ! i)) (cells ! i) rs = Inr (cells' ! i))"
proof (induction rs arbitrary: cells)
  case (Cons r rs)
  from Cons.prems(1) obtain c1 where c1: "cells_step pw sch aggs cells r = Inr c1"
      "rfold (cells_step pw sch aggs) c1 rs = Inr cells'"
    by (auto simp: res_simps)
  from cells_step_nth [OF c1(1) Cons.prems(2)] Cons.IH [OF c1(2)] show ?case by auto
qed simp

lemma agg_star_count:
  "agg_star a \<Longrightarrow> rfold (agg_step pw sch a) c rs = Inr c' \<Longrightarrow> counts c' = counts c + length rs"
  by (induction rs arbitrary: c) (auto simp: agg_step_def)

text \<open>The inputs of an aggregate: its argument over the rows, without the NULLs.\<close>

definition agg_inputs :: "(f64 \<Rightarrow> f64 \<Rightarrow> f64) \<Rightarrow> schema \<Rightarrow> expr \<Rightarrow> row list \<Rightarrow> value list" where
  "agg_inputs pw sch e rs =
     concat (map (\<lambda>r. case evaluate pw sch r e of
       Inl _ \<Rightarrow> [] | Inr v \<Rightarrow> if isNull v then [] else [v]) rs)"

lemma agg_input_null [simp]: "isNull v \<Longrightarrow> agg_input a v c = Inr c"
  by (simp add: agg_input_def)

lemma agg_fold_inputs:
  assumes "\<not> agg_star a" "agg_arg a = Some e"
  shows "rfold (agg_step pw sch a) c rs = Inr c' \<Longrightarrow>
    rfold (\<lambda>c v. agg_input a v c) c (agg_inputs pw sch e rs) = Inr c'"
proof (induction rs arbitrary: c)
  case Nil
  then show ?case by (simp add: agg_inputs_def)
next
  case (Cons r rs)
  then show ?case
    using assms by (auto simp: agg_step_def agg_inputs_def res_simps)
qed

lemma agg_inputs_nonnull: "v \<in> set (agg_inputs pw sch e rs) \<Longrightarrow> \<not> isNull v"
  by (auto simp: agg_inputs_def split: sum.splits if_splits)

lemma agg_accumulate_count: "agg_accumulate a v c = Inr c' \<Longrightarrow> counts c' = Suc (counts c)"
  by (auto simp: agg_accumulate_def Let_def res_simps split: if_splits)

lemma agg_count_inputs:
  "\<not> agg_distinct a \<Longrightarrow> \<forall>v \<in> set vs. \<not> isNull v \<Longrightarrow>
   rfold (\<lambda>c v. agg_input a v c) c vs = Inr c' \<Longrightarrow> counts c' = counts c + length vs"
  by (induction vs arbitrary: c) (auto simp: agg_input_def res_simps dest!: agg_accumulate_count)

text \<open>MIN: \<open>m\<close> so far, and the inputs that led to it.\<close>

definition is_min :: "value list \<Rightarrow> value \<Rightarrow> bool" where
  "is_min vs m = (if vs = [] then isNull m else m \<in> set vs \<and> (\<forall>v \<in> set vs. value_lt v m \<noteq> Inr True))"

definition is_max :: "value list \<Rightarrow> value \<Rightarrow> bool" where
  "is_max vs m = (if vs = [] then isNull m else m \<in> set vs \<and> (\<forall>v \<in> set vs. value_lt m v \<noteq> Inr True))"

lemma is_min_snoc:
  assumes "is_min vs m" "\<forall>v \<in> set vs. \<not> isNull v" "(if isNull m then Inr True else value_lt v m) = Inr b"
  shows "is_min (vs @ [v]) (if b then v else m)"
proof (cases "vs = []")
  case True
  with assms show ?thesis by (auto simp: is_min_def value_lt_irrefl)
next
  case False
  with assms have m: "m \<in> set vs" "\<forall>u \<in> set vs. value_lt u m \<noteq> Inr True" "value_lt v m = Inr b"
    by (auto simp: is_min_def)
  have "value_lt u v \<noteq> Inr True" if "u \<in> set vs" b for u
    using m that value_lt_trans [of u v m] by auto
  with m False show ?thesis by (auto simp: is_min_def value_lt_irrefl)
qed

lemma is_max_snoc:
  assumes "is_max vs m" "\<forall>v \<in> set vs. \<not> isNull v" "(if isNull m then Inr True else value_lt m v) = Inr b"
  shows "is_max (vs @ [v]) (if b then v else m)"
proof (cases "vs = []")
  case True
  with assms show ?thesis by (auto simp: is_max_def value_lt_irrefl)
next
  case False
  with assms have m: "m \<in> set vs" "\<forall>u \<in> set vs. value_lt m u \<noteq> Inr True" "value_lt m v = Inr b"
    by (auto simp: is_max_def)
  have "value_lt v u \<noteq> Inr True" if "u \<in> set vs" b for u
    using m that value_lt_trans [of m v u] by auto
  with m False show ?thesis by (auto simp: is_max_def value_lt_irrefl)
qed

lemma agg_input_minmax:
  assumes "\<not> agg_distinct a" "\<not> isNull v" "agg_input a v c = Inr c1"
  shows "agg_func a = ''MIN'' \<Longrightarrow> \<exists>b. (if isNull (minmax c) then Inr True else value_lt v (minmax c)) = Inr b
      \<and> minmax c1 = (if b then v else minmax c)"
    "agg_func a = ''MAX'' \<Longrightarrow> \<exists>b. (if isNull (minmax c) then Inr True else value_lt (minmax c) v) = Inr b
      \<and> minmax c1 = (if b then v else minmax c)"
  using assms unfolding agg_input_def agg_accumulate_def Let_def by (auto simp: rmap_eq_Inr split del: if_split) (auto split: if_split)

lemma agg_minmax_fold:
  assumes "\<not> agg_distinct a" "\<forall>v \<in> set (pre @ vs). \<not> isNull v"
    and "rfold (\<lambda>c v. agg_input a v c) c vs = Inr c'"
  shows "agg_func a = ''MIN'' \<Longrightarrow> is_min pre (minmax c) \<Longrightarrow> is_min (pre @ vs) (minmax c')"
    "agg_func a = ''MAX'' \<Longrightarrow> is_max pre (minmax c) \<Longrightarrow> is_max (pre @ vs) (minmax c')"
  using assms
proof (induction vs arbitrary: pre c)
  case (Cons v vs)
  { case 1
    then obtain c1 where i: "agg_input a v c = Inr c1" "rfold (\<lambda>c v. agg_input a v c) c1 vs = Inr c'"
      by (auto simp: res_simps)
    with agg_input_minmax(1) [OF 1(3) _ i(1) 1(1)] 1(4) obtain b
      where b: "(if isNull (minmax c) then Inr True else value_lt v (minmax c)) = Inr b"
      and c1: "minmax c1 = (if b then v else minmax c)"
        "rfold (\<lambda>c v. agg_input a v c) c1 vs = Inr c'" by auto
    have "is_min (pre @ [v]) (minmax c1)"
      unfolding c1(1) by (rule is_min_snoc [OF 1(2) _ b]) (use 1(4) in simp)
    from Cons.IH(1) [OF 1(1) this 1(3) _ c1(2)] 1(4) show ?case by simp }
  { case 2
    then obtain c1 where i: "agg_input a v c = Inr c1" "rfold (\<lambda>c v. agg_input a v c) c1 vs = Inr c'"
      by (auto simp: res_simps)
    with agg_input_minmax(2) [OF 2(3) _ i(1) 2(1)] 2(4) obtain b
      where b: "(if isNull (minmax c) then Inr True else value_lt (minmax c) v) = Inr b"
      and c1: "minmax c1 = (if b then v else minmax c)"
        "rfold (\<lambda>c v. agg_input a v c) c1 vs = Inr c'" by auto
    have "is_max (pre @ [v]) (minmax c1)"
      unfolding c1(1) by (rule is_max_snoc [OF 2(2) _ b]) (use 2(4) in simp)
    from Cons.IH(2) [OF 2(1) this 2(3) _ c1(2)] 2(4) show ?case by simp }
qed simp_all

subsection \<open>Join\<close>

definition null_row :: "nat \<Rightarrow> row" where
  "null_row n = replicate n VNull"

text \<open>
  The inner loop of \<open>computeResult\<close> for one left row: what it emits, \<open>leftMatched\<close>, and
  \<open>rightMatched_\<close> afterwards.
\<close>

fun probe :: "(row \<Rightarrow> bool res) \<Rightarrow> row \<Rightarrow> row list \<Rightarrow> bool list \<Rightarrow> (row list \<times> bool \<times> bool list) res" where
  "probe on l [] ms = Inr ([], False, ms)"
| "probe on l (r # rs) ms =
     rbind (on (l @ r)) (\<lambda>ok.
     rbind (probe on l rs (tl ms)) (\<lambda>(out, matched, ms').
       Inr (if ok then ((l @ r) # out, True, True # ms') else (out, matched, hd ms # ms'))))"

fun probe_all ::
    "(row \<Rightarrow> bool res) \<Rightarrow> bool \<Rightarrow> nat \<Rightarrow> row list \<Rightarrow> row list \<Rightarrow> bool list \<Rightarrow> (row list \<times> bool list) res" where
  "probe_all on outer rcols [] rs ms = Inr ([], ms)"
| "probe_all on outer rcols (l # ls) rs ms =
     rbind (probe on l rs ms) (\<lambda>(out, matched, ms').
     rbind (probe_all on outer rcols ls rs ms') (\<lambda>(out', ms'').
       Inr (out @ (if \<not> matched \<and> outer then [l @ null_row rcols] else []) @ out', ms'')))"

definition join_on ::
    "(f64 \<Rightarrow> f64 \<Rightarrow> f64) \<Rightarrow> join_type \<Rightarrow> expr option \<Rightarrow> schema \<Rightarrow> row \<Rightarrow> bool res" where
  "join_on pw ty cond merged row =
     (if ty \<noteq> CROSS
      then (case cond of Some e \<Rightarrow> evaluatePredicate pw merged row e | None \<Rightarrow> Inr True)
      else Inr True)"

definition computeResult ::
    "(f64 \<Rightarrow> f64 \<Rightarrow> f64) \<Rightarrow> join_type \<Rightarrow> expr option \<Rightarrow> schema \<Rightarrow> schema \<Rightarrow> row list \<Rightarrow> row list \<Rightarrow> row list res" where
  "computeResult pw ty cond ls rs leftRows rightRows =
     rmap (\<lambda>(out, ms).
         out @ (if ty = RIGHT \<or> ty = FULL
                then map (\<lambda>(r, _). null_row (length ls) @ r) (filter (\<lambda>(_, m). \<not> m) (zip rightRows ms))
                else []))
       (probe_all (join_on pw ty cond (schema_merge ls rs)) (ty = LEFT \<or> ty = FULL) (length rs)
          leftRows rightRows (replicate (length rightRows) False))"

text \<open>The join as a relational operator, for a condition \<open>P\<close> on the combined row.\<close>

definition relational_join ::
    "join_type \<Rightarrow> (row \<Rightarrow> bool) \<Rightarrow> nat \<Rightarrow> nat \<Rightarrow> row list \<Rightarrow> row list \<Rightarrow> row list" where
  "relational_join ty P lcols rcols ls rs =
     concat (map (\<lambda>l.
         let matches = filter (\<lambda>r. P (l @ r)) rs in
         if matches = [] then (if ty = LEFT \<or> ty = FULL then [l @ null_row rcols] else [])
         else map (\<lambda>r. l @ r) matches) ls)
     @ (if ty = RIGHT \<or> ty = FULL
        then map (\<lambda>r. null_row lcols @ r) (filter (\<lambda>r. \<forall>l \<in> set ls. \<not> P (l @ r)) rs) else [])"

lemma probe_spec:
  "(\<And>r. r \<in> set rs \<Longrightarrow> on (l @ r) = Inr (P (l @ r))) \<Longrightarrow> length ms = length rs \<Longrightarrow>
   probe on l rs ms =
     Inr (map (\<lambda>r. l @ r) (filter (\<lambda>r. P (l @ r)) rs), filter (\<lambda>r. P (l @ r)) rs \<noteq> [],
          map2 (\<lambda>m r. m \<or> P (l @ r)) ms rs)"
proof (induction rs arbitrary: ms)
  case (Cons r rs)
  then show ?case by (cases ms) auto
qed simp

lemma probe_all_spec:
  "(\<And>l r. l \<in> set ls \<Longrightarrow> r \<in> set rs \<Longrightarrow> on (l @ r) = Inr (P (l @ r))) \<Longrightarrow> length ms = length rs \<Longrightarrow>
   probe_all on outer rcols ls rs ms =
     Inr (concat (map (\<lambda>l. let matches = filter (\<lambda>r. P (l @ r)) rs in
            if matches = [] then (if outer then [l @ null_row rcols] else [])
            else map (\<lambda>r. l @ r) matches) ls),
          map2 (\<lambda>m r. m \<or> (\<exists>l \<in> set ls. P (l @ r))) ms rs)"
proof (induction ls arbitrary: ms)
  case Nil
  have "map2 (\<lambda>m r. m) ms rs = ms"
    by (rule nth_equalityI) (use Nil in auto)
  then show ?case by simp
next
  case (Cons l ls)
  have p: "probe on l rs ms = Inr (map (\<lambda>r. l @ r) (filter (\<lambda>r. P (l @ r)) rs),
      filter (\<lambda>r. P (l @ r)) rs \<noteq> [], map2 (\<lambda>m r. m \<or> P (l @ r)) ms rs)"
    by (rule probe_spec) (use Cons.prems in auto)
  let ?ms = "map2 (\<lambda>m r. m \<or> P (l @ r)) ms rs"
  have flags: "map2 (\<lambda>m r. m \<or> (\<exists>l \<in> set ls. P (l @ r))) ?ms rs
      = map2 (\<lambda>m r. m \<or> (\<exists>l \<in> set (l # ls). P (l @ r))) ms rs"
    by (rule nth_equalityI) auto
  have "probe_all on outer rcols ls rs ?ms =
     Inr (concat (map (\<lambda>l. let matches = filter (\<lambda>r. P (l @ r)) rs in
            if matches = [] then (if outer then [l @ null_row rcols] else [])
            else map (\<lambda>r. l @ r) matches) ls),
          map2 (\<lambda>m r. m \<or> (\<exists>l \<in> set ls. P (l @ r))) ?ms rs)"
    by (rule Cons.IH) (use Cons.prems in auto)
  with p show ?case unfolding flags by (simp add: Let_def)
qed

lemma computeResult_relational:
  assumes "\<And>l r. l \<in> set lrows \<Longrightarrow> r \<in> set rrows \<Longrightarrow> join_on pw ty cond (schema_merge ls rs) (l @ r) = Inr (P (l @ r))"
  shows "computeResult pw ty cond ls rs lrows rrows
    = Inr (relational_join ty P (length ls) (length rs) lrows rrows)"
proof -
  let ?Q = "\<lambda>r. \<exists>l \<in> set lrows. P (l @ r)"
  have unmatched: "map (\<lambda>(r, _). null_row n @ r)
       (filter (\<lambda>(_, m). \<not> m) (zip rrows (map2 (\<lambda>m r. m \<or> Q r) (replicate (length rrows) False) rrows)))
      = map (\<lambda>r. null_row n @ r) (filter (\<lambda>r. \<not> Q r) rrows)" for Q n
    by (induction rrows) auto
  have probes: "probe_all (join_on pw ty cond (schema_merge ls rs)) (ty = LEFT \<or> ty = FULL) (length rs)
        lrows rrows (replicate (length rrows) False)
      = Inr (concat (map (\<lambda>l. let matches = filter (\<lambda>r. P (l @ r)) rrows in
            if matches = [] then (if ty = LEFT \<or> ty = FULL then [l @ null_row (length rs)] else [])
            else map (\<lambda>r. l @ r) matches) lrows),
          map2 (\<lambda>m r. m \<or> ?Q r) (replicate (length rrows) False) rrows)"
    by (rule probe_all_spec) (simp_all add: assms)
  have "(\<lambda>r. \<not> ?Q r) = (\<lambda>r. \<forall>l \<in> set lrows. \<not> P (l @ r))" by auto
  then show ?thesis
    unfolding computeResult_def relational_join_def probes rmap_simps prod.case unmatched by simp
qed

subsection \<open>What the operators promise\<close>

text \<open>
  What ORDER BY means, without the comparator of the code: the order of the values of one type, the
  place of NULL (\<open>NULLS FIRST\<close> or \<open>LAST\<close>; else first for ASC and last for DESC), the direction of a
  key, and the keys in turn, a later one counting only where the earlier ones tie.
\<close>

definition smaller :: "value \<Rightarrow> value \<Rightarrow> bool" where
  "smaller v w =
     (case v of
        VNull \<Rightarrow> False
      | VBool a \<Rightarrow> (case w of VBool b \<Rightarrow> a = False \<and> b = True | _ \<Rightarrow> False)
      | VI8 i \<Rightarrow> (case w of VI8 j \<Rightarrow> sint i < sint j | _ \<Rightarrow> False)
      | VI16 i \<Rightarrow> (case w of VI16 j \<Rightarrow> sint i < sint j | _ \<Rightarrow> False)
      | VI32 i \<Rightarrow> (case w of VI32 j \<Rightarrow> sint i < sint j | _ \<Rightarrow> False)
      | VI64 i \<Rightarrow> (case w of VI64 j \<Rightarrow> sint i < sint j | _ \<Rightarrow> False)
      | VF32 x \<Rightarrow> (case w of VF32 y \<Rightarrow> f64_lt (f32_to_f64 x) (f32_to_f64 y) | _ \<Rightarrow> False)
      | VF64 x \<Rightarrow> (case w of VF64 y \<Rightarrow> f64_lt x y | _ \<Rightarrow> False)
      | VStr s \<Rightarrow> (case w of VStr t \<Rightarrow> (map of_char s, map of_char t) \<in> lexord {(c, d :: nat). c < d} | _ \<Rightarrow> False))"

fun nulls_come_first :: "sort_order \<Rightarrow> nulls_order \<Rightarrow> bool" where
  "nulls_come_first _ NULLS_FIRST = True"
| "nulls_come_first _ NULLS_LAST = False"
| "nulls_come_first ASC UNSPECIFIED = True"
| "nulls_come_first DESC UNSPECIFIED = False"

definition precedes :: "sort_key \<Rightarrow> value \<Rightarrow> value \<Rightarrow> bool" where
  "precedes k v w =
     (if v = VNull then w \<noteq> VNull \<and> nulls_come_first (sk_order k) (sk_nulls k)
      else if w = VNull then \<not> nulls_come_first (sk_order k) (sk_nulls k)
      else case sk_order k of ASC \<Rightarrow> smaller v w | DESC \<Rightarrow> smaller w v)"

definition comes_before ::
    "(f64 \<Rightarrow> f64 \<Rightarrow> f64) \<Rightarrow> schema \<Rightarrow> sort_key list \<Rightarrow> row \<Rightarrow> row \<Rightarrow> bool" where
  "comes_before pw sch ks a b =
     (\<exists>i < length ks. precedes (ks ! i) (key_value pw sch (ks ! i) a) (key_value pw sch (ks ! i) b)
        \<and> (\<forall>j < i. \<not> precedes (ks ! j) (key_value pw sch (ks ! j) a) (key_value pw sch (ks ! j) b)
              \<and> \<not> precedes (ks ! j) (key_value pw sch (ks ! j) b) (key_value pw sch (ks ! j) a)))"

definition rows_tie ::
    "(f64 \<Rightarrow> f64 \<Rightarrow> f64) \<Rightarrow> schema \<Rightarrow> sort_key list \<Rightarrow> row \<Rightarrow> row \<Rightarrow> bool" where
  "rows_tie pw sch ks a b = (\<not> comes_before pw sch ks a b \<and> \<not> comes_before pw sch ks b a)"

definition is_stable_sorting ::
    "(f64 \<Rightarrow> f64 \<Rightarrow> f64) \<Rightarrow> schema \<Rightarrow> sort_key list \<Rightarrow> type_id list \<Rightarrow> row list \<Rightarrow> row list \<Rightarrow> bool" where
  "is_stable_sorting pw sch ks tys rs ys =
     (mset ys = mset rs \<and> sorted_wrt (\<lambda>a b. \<not> comes_before pw sch ks b a) ys
      \<and> (\<forall>a. sort_safe pw sch ks tys a \<longrightarrow>
           filter (rows_tie pw sch ks a) ys = filter (rows_tie pw sch ks a) rs))"

text \<open>The comparator decides that order.\<close>

lemma string_less_lexord: "(s < t) = ((map of_char s, map of_char t) \<in> lexord {(c, d :: nat). c < d})" for s t :: string
  by (induction s arbitrary: t; case_tac t) (auto simp: less_char_def)

lemma smaller_vlt: "smaller v w = vlt v w"
  by (cases v; cases w) (simp_all add: smaller_def vlt_def value_lt_def incompatible_def string_less_lexord)

lemma precedes_key_before:
  assumes "v \<in> ordered_values t" "w \<in> ordered_values t"
  shows "precedes k v w = key_before k v w"
  unfolding key_before_cases [OF assms]
  by (cases "sk_order k"; cases "sk_nulls k") (auto simp: precedes_def isNull_def smaller_vlt)

lemma comes_before_Cons:
  "comes_before pw sch (k # ks) a b =
    (precedes k (key_value pw sch k a) (key_value pw sch k b) \<or>
     \<not> precedes k (key_value pw sch k a) (key_value pw sch k b) \<and>
     \<not> precedes k (key_value pw sch k b) (key_value pw sch k a) \<and> comes_before pw sch ks a b)"
  unfolding comes_before_def by (auto simp: Ex_less_Suc2 All_less_Suc2)

lemma comes_before_row_before:
  "sort_safe pw sch ks ts a \<Longrightarrow> sort_safe pw sch ks ts b \<Longrightarrow> comes_before pw sch ks a b = row_before pw sch ks a b"
proof (induction pw sch ks ts a rule: sort_safe.induct)
  case (1 pw sch k ks t ts a)
  note a = sort_safe_key [OF "1.prems"(1)] and b = sort_safe_key [OF "1.prems"(2)]
  show ?case
    using "1.IH" [OF a(3) b(3)]
    by (auto simp: comes_before_Cons row_before_Cons [OF "1.prems"] precedes_key_before [OF a(2) b(2)]
      precedes_key_before [OF b(2) a(2)])
qed (simp_all add: comes_before_def row_before_def)

lemma is_stable_sorting_alt:
  assumes "\<And>r. r \<in> set rs \<Longrightarrow> sort_safe pw sch ks tys r"
  shows "is_stable_sorting pw sch ks tys rs ys = ordby.stable_sorted pw sch ks tys rs ys"
proof (cases "mset ys = mset rs")
  case True
  then have "set ys = set rs" by (rule mset_eq_setD)
  with assms have safe: "sort_safe pw sch ks tys r" if "r \<in> set ys \<union> set rs" for r using that by auto
  have "sorted_wrt (\<lambda>a b. \<not> comes_before pw sch ks b a) ys = sorted_wrt (\<lambda>a b. \<not> row_before pw sch ks b a) ys"
  proof -
    have "comes_before pw sch ks (ys ! j) (ys ! i) = row_before pw sch ks (ys ! j) (ys ! i)"
      if "i < j" "j < length ys" for i j
      by (rule comes_before_row_before; rule safe) (use that in auto)
    then show ?thesis by (auto simp: sorted_wrt_iff_nth_less)
  qed
  moreover have "filter (rows_tie pw sch ks a) zs = filter (ordby.equiv pw sch ks a) zs"
    if a: "sort_safe pw sch ks tys a" and zs: "zs = ys \<or> zs = rs" for a zs
  proof (rule filter_cong [OF refl])
    fix r assume "r \<in> set zs"
    then have "sort_safe pw sch ks tys r" using zs safe by auto
    with a show "rows_tie pw sch ks a r = ordby.equiv pw sch ks a r"
      by (simp add: rows_tie_def ordby.equiv_def comes_before_row_before [of pw sch ks tys])
  qed
  ultimately show ?thesis unfolding is_stable_sorting_def ordby.stable_sorted_def by auto
qed (simp add: is_stable_sorting_def ordby.stable_sorted_def)

text \<open>
  C10: ORDER BY over keys that evaluate to NULL or to values of one type per key (no NaN)
  succeeds and yields a permutation of the rows that is sorted as the keys ask (ASC or DESC, NULLs
  where NULLS FIRST or LAST or else the direction puts them, later keys only for ties) and in which
  rows that tie keep their order; there is only one such list, so the result is that of any stable sort.
\<close>

theorem order_by_sorts_stably:
  assumes "\<And>r. r \<in> set rs \<Longrightarrow> sort_safe pw sch ks tys r"
  shows "\<exists>ys. sort_rows pw sch ks rs = Inr ys \<and> is_stable_sorting pw sch ks tys rs ys
    \<and> (\<forall>zs. is_stable_sorting pw sch ks tys rs zs \<longrightarrow> zs = ys)"
proof -
  have sub: "set rs \<subseteq> {r. sort_safe pw sch ks tys r}" using assms by auto
  have total: "row_less pw sch ks a b = Inr (row_before pw sch ks a b)"
    if "a \<in> {r. sort_safe pw sch ks tys r}" "b \<in> {r. sort_safe pw sch ks tys r}" for a b
    using that row_less_safe by simp
  obtain ys where "stable_sort (row_less pw sch ks) rs = Inr ys" "ordby.stable_sorted pw sch ks tys rs ys"
    using ordby.stable_sort_ok [OF total sub] by blast
  moreover have "is_stable_sorting pw sch ks tys rs zs = ordby.stable_sorted pw sch ks tys rs zs" for zs
    by (rule is_stable_sorting_alt) (rule assms)
  ultimately show ?thesis
    using ordby.stable_sort_unique [OF sub] unfolding sort_rows_def by auto
qed

definition demo_schema :: schema where
  "demo_schema = addColumn (addColumn [] ''a'' (dt_int64 True)) ''b'' (dt_varchar (- 1) True)"

definition demo_keys :: "sort_key list" where
  "demo_keys = [SortKey (ColumnRef None None ''a'') DESC UNSPECIFIED]"

definition demo_rows :: "row list" where
  "demo_rows = [[VI64 1, VStr ''x''], [VNull, VStr ''y''], [VI64 2, VStr ''z''], [VI64 1, VStr ''w'']]"

theorem order_by_sorts_stably_witness:
  "sort_rows (\<lambda>x y. x) demo_schema demo_keys demo_rows
     = Inr [[VI64 2, VStr ''z''], [VI64 1, VStr ''x''], [VI64 1, VStr ''w''], [VNull, VStr ''y'']]
   \<and> is_stable_sorting (\<lambda>x y. x) demo_schema demo_keys [INT64] demo_rows
      [[VI64 2, VStr ''z''], [VI64 1, VStr ''x''], [VI64 1, VStr ''w''], [VNull, VStr ''y'']]"
proof -
  have "\<forall>r \<in> set demo_rows. sort_safe (\<lambda>x y. x) demo_schema demo_keys [INT64] r" by code_simp
  moreover have s: "sort_rows (\<lambda>x y. x) demo_schema demo_keys demo_rows
     = Inr [[VI64 2, VStr ''z''], [VI64 1, VStr ''x''], [VI64 1, VStr ''w''], [VNull, VStr ''y'']]"
    by code_simp
  ultimately show ?thesis
    using order_by_sorts_stably [of demo_rows "\<lambda>x y. x" demo_schema demo_keys "[INT64]"] by auto
qed

lemma distinct_fold_first:
  "inj_on rowKey (set rs) \<Longrightarrow> fold (\<lambda>r st. distinct_step st r) rs ([], []) = (ks, out) \<Longrightarrow>
     set ks = rowKey ` set rs \<and> out = first_occurrences rs"
proof (induction rs arbitrary: ks out rule: rev_induct)
  case (snoc r rs)
  obtain ks' out' where st: "fold (\<lambda>r st. distinct_step st r) rs ([], []) = (ks', out')" by force
  have "inj_on rowKey (set rs)" using snoc.prems(1) by (rule inj_on_subset) auto
  note IH = snoc.IH [OF this st]
  have "(rowKey r \<in> rowKey ` set rs) = (r \<in> set rs)" using snoc.prems(1) by (auto simp: inj_on_def)
  with IH snoc.prems(2) st show ?case by (auto simp: distinct_step_def first_occurrences_simps(4) split: if_splits)
qed (simp)

text \<open>
  C15: DISTINCT over rows of integers, booleans, NULLs and texts without the separator byte
  returns every row once, at the place of its first occurrence: the later copies are the ones dropped.
\<close>

theorem distinct_removes_duplicates:
  assumes "\<And>r. r \<in> set rs \<Longrightarrow> list_all key_safe r"
  shows "snd (fold (\<lambda>r st. distinct_step st r) rs ([], [])) = first_occurrences rs
    \<and> distinct (snd (fold (\<lambda>r st. distinct_step st r) rs ([], [])))
    \<and> set (snd (fold (\<lambda>r st. distinct_step st r) rs ([], []))) = set rs
    \<and> subseq (snd (fold (\<lambda>r st. distinct_step st r) rs ([], []))) rs"
proof -
  let ?out = "first_rows {} rs"
  have out: "snd (fold (\<lambda>r st. distinct_step st r) rs ([], [])) = ?out"
    by (simp add: distinct_fold)
  have sub: "set ?out \<subseteq> set rs" using first_rows_subseq [of "{}" rs] by (auto elim: list_emb_set)
  have inj: "inj_on rowKey (set rs)" using assms rowKey_inject by (auto simp: inj_on_def)
  have "rowKey ` set ?out = rowKey ` set rs" "distinct (map rowKey ?out)"
    using first_rows_keys [of "{}" rs] by auto
  with inj sub have "set ?out = set rs" "distinct ?out"
    by (auto simp: distinct_map inj_on_image_eq_iff)
  moreover have "?out = first_occurrences rs"
    using distinct_fold_first [OF inj prod.collapse [symmetric]] out by simp
  ultimately show ?thesis using first_rows_subseq unfolding out by blast
qed

definition demo_dups :: "row list" where
  "demo_dups = [[VI64 1, VStr ''1''], [VI64 1, VNull], [VI64 1, VStr ''1'']]"

theorem distinct_removes_duplicates_witness:
  "snd (fold (\<lambda>r st. distinct_step st r) demo_dups ([], [])) = [[VI64 1, VStr ''1''], [VI64 1, VNull]]"
proof -
  have "list_all key_safe r" if "r \<in> set demo_dups" for r
    using that by (auto simp: demo_dups_def key_safe_def)
  note distinct_removes_duplicates [OF this]
  moreover have "first_occurrences demo_dups = [[VI64 1, VStr ''1''], [VI64 1, VNull]]" by code_simp
  ultimately show ?thesis by simp
qed

text \<open>
  C12: after the aggregation loop there is one group per group key, in the order of the first
  row of each, and a group's cells are the aggregates folded over exactly the rows with its
  key, in input order.
\<close>

theorem group_by_partitions:
  assumes "rfold (agg_absorb pw sch keys aggs) (Map.empty, []) rs = Inr gs"
  shows "groups_ok pw sch keys aggs rs gs"
  using agg_fold_ok [OF groups_ok_empty assms] by simp

definition demo_agg :: "string \<Rightarrow> expr option \<Rightarrow> bool \<Rightarrow> agg" where
  "demo_agg f arg star = \<lparr>agg_func = f, agg_arg = arg, agg_star = star, agg_distinct = False,
     agg_outName = ''__agg0'', agg_outType = dt_int64 True\<rparr>"

definition by_b :: "expr list" where "by_b = [ColumnRef None None ''b'']"

theorem group_by_partitions_witness:
  "\<exists>gs. rfold (agg_absorb (\<lambda>x y. x) demo_schema by_b [demo_agg ''COUNT'' None True]) (Map.empty, []) demo_rows = Inr gs
     \<and> groups_ok (\<lambda>x y. x) demo_schema by_b [demo_agg ''COUNT'' None True] demo_rows gs"
proof -
  have "case rfold (agg_absorb (\<lambda>x y. x) demo_schema by_b [demo_agg ''COUNT'' None True]) (Map.empty, []) demo_rows
      of Inl _ \<Rightarrow> False | Inr gs \<Rightarrow> True" by code_simp
  then obtain gs where "rfold (agg_absorb (\<lambda>x y. x) demo_schema by_b [demo_agg ''COUNT'' None True]) (Map.empty, []) demo_rows = Inr gs"
    by (auto split: sum.splits)
  with group_by_partitions [OF this] show ?thesis by blast
qed

text \<open>
  C13: in the output row of a group, COUNT( * ) is the number of input rows of the group, and
  COUNT(e) without DISTINCT the number of those in which \<open>e\<close> is not NULL.
\<close>

theorem count_counts_rows:
  assumes "rfold (agg_absorb pw sch keys aggs) (Map.empty, []) rs = Inr gs"
    and "fst gs k = Some st" "i < length aggs" "agg_func (aggs ! i) = ''COUNT''"
    and "\<not> agg_star (aggs ! i) \<Longrightarrow> agg_arg (aggs ! i) = Some e \<and> \<not> agg_distinct (aggs ! i)"
  shows "map (\<lambda>(a, c). agg_value a c) (zip aggs (acc_cells st)) ! i =
    VI64 (word_of_nat (length
      (if agg_star (aggs ! i) then map (\<lambda>_. VNull) (filter (\<lambda>r. row_group pw sch keys r = k) rs)
       else agg_inputs pw sch e (filter (\<lambda>r. row_group pw sch keys r = k) rs))))"
proof -
  let ?rs = "filter (\<lambda>r. row_group pw sch keys r = k) rs"
  have "groups_ok pw sch keys aggs rs gs"
    using agg_fold_ok [OF groups_ok_empty assms(1)] by simp
  with assms(2) have "rfold (cells_step pw sch aggs) (map (\<lambda>_. new_cell) aggs) ?rs = Inr (acc_cells st)"
    by (auto simp: groups_ok_def Let_def)
  from cells_fold_nth [OF this] assms(3) have len: "length (acc_cells st) = length aggs"
    and f: "rfold (agg_step pw sch (aggs ! i)) new_cell ?rs = Inr (acc_cells st ! i)" by auto
  have "counts (acc_cells st ! i) = length (if agg_star (aggs ! i) then map (\<lambda>_. VNull) ?rs
      else agg_inputs pw sch e ?rs)"
  proof (cases "agg_star (aggs ! i)")
    case True
    with agg_star_count [OF True f] show ?thesis by (simp add: new_cell_def)
  next
    case False
    note a = assms(5) [OF False]
    from agg_fold_inputs [OF False conjunct1 [OF a] f] agg_inputs_nonnull agg_count_inputs [OF conjunct2 [OF a]] False
    show ?thesis by (fastforce simp: new_cell_def)
  qed
  with assms(3,4) len show ?thesis by (simp add: agg_value_def)
qed

theorem count_counts_rows_witness:
  "\<exists>gs st. rfold (agg_absorb (\<lambda>x y. x) demo_schema [] [demo_agg ''COUNT'' None True]) (Map.empty, []) demo_rows = Inr gs
     \<and> fst gs [] = Some st
     \<and> map (\<lambda>(a, c). agg_value a c) (zip [demo_agg ''COUNT'' None True] (acc_cells st)) ! 0 = VI64 4"
proof -
  have "case rfold (agg_absorb (\<lambda>x y. x) demo_schema [] [demo_agg ''COUNT'' None True]) (Map.empty, []) demo_rows
      of Inl _ \<Rightarrow> False | Inr gs \<Rightarrow> fst gs [] \<noteq> None" by code_simp
  then obtain gs st where gs:
      "rfold (agg_absorb (\<lambda>x y. x) demo_schema [] [demo_agg ''COUNT'' None True]) (Map.empty, []) demo_rows = Inr gs"
      "fst gs [] = Some st"
    by (auto split: sum.splits)
  have "filter (\<lambda>r. row_group (\<lambda>x y. x) demo_schema [] r = []) demo_rows = demo_rows" by code_simp
  with count_counts_rows [OF gs, of 0] gs show ?thesis
    by (simp add: demo_agg_def demo_rows_def)
qed

text \<open>
  C14: MIN (MAX) without DISTINCT over the non-NULL inputs of a group is NULL for none, and
  else one of them that no input is less (greater) than.
\<close>

theorem min_max_extremal:
  assumes "rfold (agg_absorb pw sch keys aggs) (Map.empty, []) rs = Inr gs"
    and "fst gs k = Some st" "i < length aggs"
    and "\<not> agg_star (aggs ! i)" "\<not> agg_distinct (aggs ! i)" "agg_arg (aggs ! i) = Some e"
  shows "(agg_func (aggs ! i) = ''MIN'' \<longrightarrow>
      is_min (agg_inputs pw sch e (filter (\<lambda>r. row_group pw sch keys r = k) rs))
        (map (\<lambda>(a, c). agg_value a c) (zip aggs (acc_cells st)) ! i)) \<and>
    (agg_func (aggs ! i) = ''MAX'' \<longrightarrow>
      is_max (agg_inputs pw sch e (filter (\<lambda>r. row_group pw sch keys r = k) rs))
        (map (\<lambda>(a, c). agg_value a c) (zip aggs (acc_cells st)) ! i))"
proof -
  let ?rs = "filter (\<lambda>r. row_group pw sch keys r = k) rs"
  have "groups_ok pw sch keys aggs rs gs"
    using agg_fold_ok [OF groups_ok_empty assms(1)] by simp
  with assms(2) have "rfold (cells_step pw sch aggs) (map (\<lambda>_. new_cell) aggs) ?rs = Inr (acc_cells st)"
    by (auto simp: groups_ok_def Let_def)
  from cells_fold_nth [OF this] assms(3) have len: "length (acc_cells st) = length aggs"
    and f: "rfold (agg_step pw sch (aggs ! i)) new_cell ?rs = Inr (acc_cells st ! i)" by auto
  note inp = agg_fold_inputs [OF assms(4,6) f]
  have nn: "\<forall>v \<in> set ([] @ agg_inputs pw sch e ?rs). \<not> isNull v" using agg_inputs_nonnull by auto
  show ?thesis
    using agg_minmax_fold [OF assms(5) nn inp] len assms(3)
    by (auto simp: new_cell_def is_min_def is_max_def agg_value_def)
qed

theorem min_max_extremal_witness:
  "\<exists>gs st. rfold (agg_absorb (\<lambda>x y. x) demo_schema [] [demo_agg ''MIN'' (Some (ColumnRef None None ''a'')) False])
       (Map.empty, []) demo_rows = Inr gs \<and> fst gs [] = Some st
     \<and> is_min [VI64 1, VI64 2, VI64 1] (map (\<lambda>(a, c). agg_value a c)
         (zip [demo_agg ''MIN'' (Some (ColumnRef None None ''a'')) False] (acc_cells st)) ! 0)"
proof -
  let ?aggs = "[demo_agg ''MIN'' (Some (ColumnRef None None ''a'')) False]"
  have "case rfold (agg_absorb (\<lambda>x y. x) demo_schema [] ?aggs) (Map.empty, []) demo_rows
      of Inl _ \<Rightarrow> False | Inr gs \<Rightarrow> fst gs [] \<noteq> None" by code_simp
  then obtain gs st where gs:
      "rfold (agg_absorb (\<lambda>x y. x) demo_schema [] ?aggs) (Map.empty, []) demo_rows = Inr gs" "fst gs [] = Some st"
    by (auto split: sum.splits)
  have "agg_inputs (\<lambda>x y. x) demo_schema (ColumnRef None None ''a'')
      (filter (\<lambda>r. row_group (\<lambda>x y. x) demo_schema [] r = []) demo_rows) = [VI64 1, VI64 2, VI64 1]" by code_simp
  with min_max_extremal [OF gs, of 0 "ColumnRef None None ''a''"] gs show ?thesis
    by (simp add: demo_agg_def)
qed

text \<open>
  C11: every kind of join is the relational join: the pairs of rows that satisfy the condition,
  left row by left row, then for LEFT and FULL the unmatched left rows padded with NULLs in
  their place, and for RIGHT and FULL the unmatched right rows padded with NULLs at the end.
\<close>

theorem join_is_relational:
  assumes "\<And>l r. l \<in> set leftRows \<Longrightarrow> r \<in> set rightRows \<Longrightarrow>
      join_on pw ty cond (schema_merge ls rs) (l @ r) = Inr (P (l @ r))"
  shows "computeResult pw ty cond ls rs leftRows rightRows
    = Inr (relational_join ty P (length ls) (length rs) leftRows rightRows)"
  using assms by (rule computeResult_relational)

theorem join_is_relational_witness:
  "computeResult (\<lambda>x y. x) FULL (Some (BinaryExpr EQ (ColumnRef None None ''a'') (ColumnRef None None ''c'')))
     (addColumn [] ''a'' (dt_int64 True)) (addColumn [] ''c'' (dt_int64 True))
     [[VI64 1], [VNull]] [[VI64 2], [VI64 1]]
   = Inr [[VI64 1, VI64 1], [VNull, VNull], [VNull, VI64 2]]"
proof -
  let ?on = "join_on (\<lambda>x y. x) FULL (Some (BinaryExpr EQ (ColumnRef None None ''a'') (ColumnRef None None ''c'')))
      (schema_merge (addColumn [] ''a'' (dt_int64 True)) (addColumn [] ''c'' (dt_int64 True)))"
  let ?P = "\<lambda>row. case ?on row of Inr b \<Rightarrow> b | Inl _ \<Rightarrow> False"
  have "\<forall>l \<in> set [[VI64 1], [VNull]]. \<forall>r \<in> set [[VI64 2], [VI64 1]]. ?on (l @ r) = Inr (?P (l @ r))"
    by code_simp
  then have "computeResult (\<lambda>x y. x) FULL (Some (BinaryExpr EQ (ColumnRef None None ''a'') (ColumnRef None None ''c'')))
      (addColumn [] ''a'' (dt_int64 True)) (addColumn [] ''c'' (dt_int64 True))
      [[VI64 1], [VNull]] [[VI64 2], [VI64 1]]
    = Inr (relational_join FULL ?P 1 1 [[VI64 1], [VNull]] [[VI64 2], [VI64 1]])"
    by (subst join_is_relational [of _ _ _ _ _ _ _ ?P]) (auto simp: addColumn_def)
  also have "relational_join FULL ?P 1 1 [[VI64 1], [VNull]] [[VI64 2], [VI64 1]]
      = [[VI64 1, VI64 1], [VNull, VNull], [VNull, VI64 2]]" by code_simp
  finally show ?thesis .
qed

end
