(* ===== verification/LQ_Column.thy ===== *)
theory LQ_Column
  imports LQ_Types
begin

section \<open>Typed column storage\<close>

text \<open>
  Model of \<open>src/storage/column.h\<close>: the validity bitmap over 64-bit words and the typed
  column. A read beyond a buffer is \<open>Undefined\<close>, as in the code. \<open>bitmap_bits\<close> and
  \<open>col_values\<close> are the abstract contents; \<open>stored t v\<close> is what a column of type \<open>t\<close> returns
  after \<open>v\<close> was appended (the integer types narrow, strings absorb everything).
  Lemmas: both stores meet the contract \<open>append_store\<close> (the interpretations \<open>bits\<close> and
  \<open>col\<close>), every read inside the column succeeds, and storing a value that was read back
  changes nothing (\<open>stored_idem\<close>).
\<close>

subsection \<open>ValidityBitmap\<close>

record bitmap =
  bm_words :: "64 word list"
  bm_count :: nat
  bm_anyNull :: bool

definition bitmap_new :: bitmap where
  "bitmap_new = \<lparr>bm_words = [], bm_count = 0, bm_anyNull = False\<rparr>"

definition bitmap_push :: "bitmap \<Rightarrow> bool \<Rightarrow> bitmap res" where
  "bitmap_push b valid =
     (let word = bm_count b div 64;
          ws = (if length (bm_words b) \<le> word then bm_words b @ [0] else bm_words b)
      in rbind (if valid then rmap (\<lambda>w. ws[word := set_bit (bm_count b mod 64) w]) (vec_at ws word)
                else Inr ws)
           (\<lambda>ws'. Inr \<lparr>bm_words = ws', bm_count = Suc (bm_count b),
                       bm_anyNull = (bm_anyNull b \<or> \<not> valid)\<rparr>))"

definition bitmap_isValid :: "bitmap \<Rightarrow> nat \<Rightarrow> bool res" where
  "bitmap_isValid b i = rmap (\<lambda>w. bit w (i mod 64)) (vec_at (bm_words b) (i div 64))"

text \<open>The scan for a NULL in \<open>assignRaw\<close>, over row numbers.\<close>

fun bitmap_scan :: "bitmap \<Rightarrow> nat list \<Rightarrow> bool res" where
  "bitmap_scan b [] = Inr False"
| "bitmap_scan b (i # is) = rbind (bitmap_isValid b i) (\<lambda>v. if \<not> v then Inr True else bitmap_scan b is)"

definition bitmap_assignRaw :: "64 word list \<Rightarrow> nat \<Rightarrow> bitmap res" where
  "bitmap_assignRaw ws n =
     (let b = \<lparr>bm_words = ws, bm_count = n, bm_anyNull = False\<rparr>
      in rmap (\<lambda>a. b\<lparr>bm_anyNull := a\<rparr>) (bitmap_scan b [0..<n]))"

definition bitmap_bits :: "bitmap \<Rightarrow> bool list" where
  "bitmap_bits b = map (\<lambda>i. bit (bm_words b ! (i div 64)) (i mod 64)) [0..<bm_count b]"

text \<open>Exactly the words that the rows need, no bit set beyond the last row, and the flag right.\<close>

definition wf_bitmap :: "bitmap \<Rightarrow> bool" where
  "wf_bitmap b =
     (length (bm_words b) = (bm_count b + 63) div 64
      \<and> (\<forall>i. bm_count b \<le> i \<longrightarrow> i div 64 < length (bm_words b) \<longrightarrow>
             \<not> bit (bm_words b ! (i div 64)) (i mod 64))
      \<and> bm_anyNull b = (False \<in> set (bitmap_bits b)))"

lemma length_bitmap_bits [simp]: "length (bitmap_bits b) = bm_count b"
  by (simp add: bitmap_bits_def)

lemma wf_bitmap_new [simp]:
  "wf_bitmap bitmap_new" "bitmap_bits bitmap_new = []" "bm_count bitmap_new = 0"
  by (simp_all add: wf_bitmap_def bitmap_new_def bitmap_bits_def)

lemma bitmap_isValid_wf:
  assumes "wf_bitmap b" "i < bm_count b"
  shows "bitmap_isValid b i = Inr (bitmap_bits b ! i)"
proof -
  from assms have "i div 64 < length (bm_words b)" unfolding wf_bitmap_def by linarith
  with assms show ?thesis by (simp add: bitmap_isValid_def bitmap_bits_def)
qed

lemma div_mod_64_inject: "i div 64 = j div 64 \<Longrightarrow> i mod 64 = j mod 64 \<Longrightarrow> i = (j::nat)"
  by (metis div_mult_mod_eq)

lemma bitmap_push_wf:
  assumes wf: "wf_bitmap b"
  shows "\<exists>b'. bitmap_push b v = Inr b' \<and> wf_bitmap b' \<and> bitmap_bits b' = bitmap_bits b @ [v]"
proof -
  define n where "n = bm_count b"
  define ws where "ws = (if length (bm_words b) \<le> n div 64 then bm_words b @ [0] else bm_words b)"
  define ws' where "ws' = (if v then ws[n div 64 := set_bit (n mod 64) (ws ! (n div 64))] else ws)"
  let ?b = "\<lparr>bm_words = ws', bm_count = Suc n, bm_anyNull = (bm_anyNull b \<or> \<not> v)\<rparr>"
  have len0: "length (bm_words b) = (n + 63) div 64" using wf by (simp add: wf_bitmap_def n_def)
  have len: "length ws = (Suc n + 63) div 64" unfolding ws_def using len0 by auto
  then have in_ws: "n div 64 < length ws" by linarith
  have lenw: "length ws' = (Suc n + 63) div 64" unfolding ws'_def using len by simp
  have old: "bit (ws ! (i div 64)) (i mod 64) = (i < n \<and> bit (bm_words b ! (i div 64)) (i mod 64))"
    if "i div 64 < length ws" for i
  proof (cases "i div 64 < length (bm_words b)")
    case True
    then have "ws ! (i div 64) = bm_words b ! (i div 64)" by (simp add: ws_def nth_append)
    with True wf show ?thesis unfolding wf_bitmap_def n_def by (metis not_le)
  next
    case False
    with that have "ws = bm_words b @ [0]" "i div 64 = length (bm_words b)"
      by (auto simp: ws_def split: if_splits)
    then have "ws ! (i div 64) = 0" by simp
    moreover have "\<not> i < n" using False len0 by linarith
    ultimately show ?thesis by simp
  qed
  have new: "bit (ws' ! (i div 64)) (i mod 64) =
      (if i = n then v else i < n \<and> bit (bm_words b ! (i div 64)) (i mod 64))"
    if "i div 64 < length ws" for i
  proof (cases "v \<and> i div 64 = n div 64")
    case True
    then have "ws' ! (i div 64) = set_bit (n mod 64) (ws ! (i div 64))"
      using in_ws by (simp add: ws'_def)
    then show ?thesis
      using True old [OF that] div_mod_64_inject [of i n] by (auto simp: bit_set_bit_iff)
  next
    case False
    then have "ws' ! (i div 64) = ws ! (i div 64)" by (auto simp: ws'_def nth_list_update)
    with old [OF that] False show ?thesis by auto
  qed
  have "bitmap_push b v = Inr ?b"
    using in_ws by (simp add: bitmap_push_def Let_def n_def [symmetric] ws_def [symmetric] ws'_def)
  moreover have bits: "bitmap_bits ?b = bitmap_bits b @ [v]"
  proof -
    have "i div 64 < length ws" if "i \<le> n" for i using that in_ws
      by (meson div_le_mono le_less_trans)
    then show ?thesis by (simp add: bitmap_bits_def n_def [symmetric] new)
  qed
  moreover have "wf_bitmap ?b"
    unfolding wf_bitmap_def bits
    using lenw len new wf by (auto simp: wf_bitmap_def)
  ultimately show ?thesis by blast
qed

lemma bitmap_scan_wf:
  assumes "\<forall>i \<in> set is. i div 64 < length (bm_words b)"
  shows "bitmap_scan b is = Inr (\<exists>i \<in> set is. \<not> bit (bm_words b ! (i div 64)) (i mod 64))"
  using assms by (induction "is") (auto simp: bitmap_isValid_def)

lemma bitmap_assignRaw_inverse:
  assumes "wf_bitmap b"
  shows "bitmap_assignRaw (bm_words b) (bm_count b) = Inr b"
proof -
  have "bitmap_scan \<lparr>bm_words = bm_words b, bm_count = bm_count b, bm_anyNull = False\<rparr> [0..<bm_count b]
      = Inr (\<exists>i \<in> {0..<bm_count b}. \<not> bit (bm_words b ! (i div 64)) (i mod 64))"
    using assms by (subst bitmap_scan_wf) (auto simp: wf_bitmap_def)
  moreover have "(\<exists>i \<in> {0..<bm_count b}. \<not> bit (bm_words b ! (i div 64)) (i mod 64)) = bm_anyNull b"
    using assms by (auto simp: wf_bitmap_def bitmap_bits_def)
  ultimately show ?thesis by (simp add: bitmap_assignRaw_def Let_def)
qed

interpretation bits: append_store wf_bitmap bitmap_push bitmap_bits "Inr :: bool \<Rightarrow> bool res"
  by unfold_locales (use bitmap_push_wf in auto)

subsection \<open>Column\<close>

datatype kind = KInt64 | KDouble | KString

definition kindOf :: "type_id \<Rightarrow> kind" where
  "kindOf t = (if t = FLOAT32 \<or> t = FLOAT64 then KDouble
               else if t = VARCHAR \<or> t = BLOB then KString else KInt64)"

record column =
  c_type :: data_type
  c_kind :: kind
  c_i64 :: "64 word list"
  c_f64 :: "f64 list"
  c_str :: "string list"
  c_valid :: bitmap

definition column_new :: "data_type \<Rightarrow> column" where
  "column_new t = \<lparr>c_type = t, c_kind = kindOf (dt_id t), c_i64 = [], c_f64 = [], c_str = [],
                  c_valid = bitmap_new\<rparr>"

definition column_size :: "column \<Rightarrow> nat" where
  "column_size c = bm_count (c_valid c)"

definition column_push_valid :: "column \<Rightarrow> bool \<Rightarrow> column res" where
  "column_push_valid c v = rmap (\<lambda>b. c\<lparr>c_valid := b\<rparr>) (bitmap_push (c_valid c) v)"

definition column_pushNull :: "column \<Rightarrow> column res" where
  "column_pushNull c =
     column_push_valid
       (case c_kind c of
          KInt64 \<Rightarrow> c\<lparr>c_i64 := c_i64 c @ [0]\<rparr>
        | KDouble \<Rightarrow> c\<lparr>c_f64 := c_f64 c @ [f64_zero False]\<rparr>
        | KString \<Rightarrow> c\<lparr>c_str := c_str c @ ['''']\<rparr>) False"

text \<open>\<open>append\<close>: the conversion is evaluated before anything is pushed.\<close>

definition int_cell :: "value \<Rightarrow> 64 word res" where
  "int_cell v = (if typeIsFloat (typeId v) then rbind (toDouble v) f64_to_i64 else toInt64 v)"

definition str_cell :: "value \<Rightarrow> string res" where
  "str_cell v = (if typeId v = VARCHAR then getString v else Inr (value_string v))"

definition column_append :: "column \<Rightarrow> value \<Rightarrow> column res" where
  "column_append c v =
     (if isNull v then column_pushNull c
      else case c_kind c of
        KInt64 \<Rightarrow> rbind (int_cell v) (\<lambda>x. column_push_valid (c\<lparr>c_i64 := c_i64 c @ [x]\<rparr>) True)
      | KDouble \<Rightarrow> rbind (toDouble v) (\<lambda>x. column_push_valid (c\<lparr>c_f64 := c_f64 c @ [x]\<rparr>) True)
      | KString \<Rightarrow> rbind (str_cell v) (\<lambda>x. column_push_valid (c\<lparr>c_str := c_str c @ [x]\<rparr>) True))"

text \<open>\<open>makeIntValue\<close>: the declared integer subtype, narrowed by a cast.\<close>

definition makeIntValue :: "type_id \<Rightarrow> 64 word \<Rightarrow> value" where
  "makeIntValue t x = (case t of
       BOOLEAN \<Rightarrow> VBool (x \<noteq> 0)
     | INT8 \<Rightarrow> VI8 (ucast x)
     | INT16 \<Rightarrow> VI16 (ucast x)
     | INT32 \<Rightarrow> VI32 (ucast x)
     | _ \<Rightarrow> VI64 x)"

definition column_valueAt :: "column \<Rightarrow> nat \<Rightarrow> value res" where
  "column_valueAt c i =
     rbind (bitmap_isValid (c_valid c) i) (\<lambda>ok.
       if \<not> ok then Inr VNull
       else case c_kind c of
         KInt64 \<Rightarrow> rmap (makeIntValue (dt_id (c_type c))) (vec_at (c_i64 c) i)
       | KDouble \<Rightarrow> rmap VF64 (vec_at (c_f64 c) i)
       | KString \<Rightarrow> rmap VStr (vec_at (c_str c) i))"

text \<open>\<open>restoreInt64\<close>, \<open>restoreDouble\<close>, \<open>restoreString\<close>.\<close>

definition column_restoreInt64 :: "column \<Rightarrow> 64 word list \<Rightarrow> 64 word list \<Rightarrow> nat \<Rightarrow> column res" where
  "column_restoreInt64 c data valid rows =
     rmap (\<lambda>b. c\<lparr>c_i64 := data, c_valid := b\<rparr>) (bitmap_assignRaw valid rows)"

definition column_restoreDouble :: "column \<Rightarrow> f64 list \<Rightarrow> 64 word list \<Rightarrow> nat \<Rightarrow> column res" where
  "column_restoreDouble c data valid rows =
     rmap (\<lambda>b. c\<lparr>c_f64 := data, c_valid := b\<rparr>) (bitmap_assignRaw valid rows)"

definition column_restoreString :: "column \<Rightarrow> string list \<Rightarrow> 64 word list \<Rightarrow> nat \<Rightarrow> column res" where
  "column_restoreString c data valid rows =
     rmap (\<lambda>b. c\<lparr>c_str := data, c_valid := b\<rparr>) (bitmap_assignRaw valid rows)"

definition wf_column :: "column \<Rightarrow> bool" where
  "wf_column c =
     (wf_bitmap (c_valid c) \<and> c_kind c = kindOf (dt_id (c_type c))
      \<and> length (c_i64 c) = (if c_kind c = KInt64 then column_size c else 0)
      \<and> length (c_f64 c) = (if c_kind c = KDouble then column_size c else 0)
      \<and> length (c_str c) = (if c_kind c = KString then column_size c else 0))"

text \<open>The value of a row that exists.\<close>

definition cell_value :: "column \<Rightarrow> nat \<Rightarrow> value" where
  "cell_value c i =
     (if \<not> bitmap_bits (c_valid c) ! i then VNull
      else case c_kind c of
        KInt64 \<Rightarrow> makeIntValue (dt_id (c_type c)) (c_i64 c ! i)
      | KDouble \<Rightarrow> VF64 (c_f64 c ! i)
      | KString \<Rightarrow> VStr (c_str c ! i))"

definition col_values :: "column \<Rightarrow> value list" where
  "col_values c = map (cell_value c) [0..<column_size c]"

lemma length_col_values [simp]: "length (col_values c) = column_size c"
  by (simp add: col_values_def)

lemma column_valueAt_wf:
  "wf_column c \<Longrightarrow> i < column_size c \<Longrightarrow> column_valueAt c i = Inr (col_values c ! i)"
  by (auto simp: column_valueAt_def wf_column_def column_size_def bitmap_isValid_wf col_values_def
      cell_value_def split: kind.splits)

lemma wf_column_new [simp]: "wf_column (column_new t)" "col_values (column_new t) = []"
    "c_type (column_new t) = t" "column_size (column_new t) = 0"
  by (simp_all add: wf_column_def column_new_def column_size_def col_values_def)

subsection \<open>What a column stores\<close>

text \<open>The value read back from a column of type \<open>t\<close> after appending \<open>v\<close>.\<close>

definition stored :: "type_id \<Rightarrow> value \<Rightarrow> value res" where
  "stored t v =
     (if isNull v then Inr VNull
      else case kindOf t of
        KInt64 \<Rightarrow> rmap (makeIntValue t) (int_cell v)
      | KDouble \<Rightarrow> rmap VF64 (toDouble v)
      | KString \<Rightarrow> rmap VStr (str_cell v))"

lemma column_push_valid_wf:
  assumes "wf_bitmap (c_valid c)"
  obtains b where "column_push_valid c v = Inr (c\<lparr>c_valid := b\<rparr>)" "wf_bitmap b"
    "bitmap_bits b = bitmap_bits (c_valid c) @ [v]" "bm_count b = Suc (bm_count (c_valid c))"
proof -
  from bitmap_push_wf [OF assms, of v] obtain b
    where b: "bitmap_push (c_valid c) v = Inr b" "wf_bitmap b"
      "bitmap_bits b = bitmap_bits (c_valid c) @ [v]" by blast
  then have "bm_count b = Suc (bm_count (c_valid c))"
    by (metis length_append_singleton length_bitmap_bits)
  with b show thesis by (intro that) (auto simp: column_push_valid_def)
qed

lemma column_append_stored:
  assumes wf: "wf_column c" and st: "stored (dt_id (c_type c)) v = Inr w"
  shows "\<exists>c'. column_append c v = Inr c' \<and> wf_column c' \<and> c_type c' = c_type c
           \<and> col_values c' = col_values c @ [w]"
proof -
  have wb: "wf_bitmap (c_valid c)" using wf by (simp add: wf_column_def)
  obtain d bv where d: "column_append c v = column_push_valid d bv"
      "c_valid d = c_valid c" "c_type d = c_type c" "c_kind d = c_kind c"
      "length (c_i64 d) = (if c_kind c = KInt64 then Suc (column_size c) else 0)"
      "length (c_f64 d) = (if c_kind c = KDouble then Suc (column_size c) else 0)"
      "length (c_str d) = (if c_kind c = KString then Suc (column_size c) else 0)"
      "take (column_size c) (c_i64 d) = c_i64 c" "take (column_size c) (c_f64 d) = c_f64 c"
      "take (column_size c) (c_str d) = c_str c"
      "w = (if \<not> bv then VNull else case c_kind c of
          KInt64 \<Rightarrow> makeIntValue (dt_id (c_type c)) (c_i64 d ! column_size c)
        | KDouble \<Rightarrow> VF64 (c_f64 d ! column_size c)
        | KString \<Rightarrow> VStr (c_str d ! column_size c))"
  proof (cases "isNull v")
    case True
    with st wf show ?thesis
      by (intro that [of "case c_kind c of KInt64 \<Rightarrow> c\<lparr>c_i64 := c_i64 c @ [0]\<rparr>
        | KDouble \<Rightarrow> c\<lparr>c_f64 := c_f64 c @ [f64_zero False]\<rparr> | KString \<Rightarrow> c\<lparr>c_str := c_str c @ ['''']\<rparr>" False])
        (auto simp: column_append_def column_pushNull_def stored_def wf_column_def split: kind.splits)
  next
    case False
    with st wf show ?thesis
    proof (cases "c_kind c")
      case KInt64
      with False st wf obtain x where "int_cell v = Inr x" "w = makeIntValue (dt_id (c_type c)) x"
        by (auto simp: stored_def wf_column_def res_simps)
      with KInt64 False wf show ?thesis
        by (intro that [of "c\<lparr>c_i64 := c_i64 c @ [x]\<rparr>" True])
          (auto simp: column_append_def wf_column_def nth_append)
    next
      case KDouble
      with False st wf obtain x where "toDouble v = Inr x" "w = VF64 x"
        by (auto simp: stored_def wf_column_def res_simps)
      with KDouble False wf show ?thesis
        by (intro that [of "c\<lparr>c_f64 := c_f64 c @ [x]\<rparr>" True])
          (auto simp: column_append_def wf_column_def nth_append)
    next
      case KString
      with False st wf obtain x where "str_cell v = Inr x" "w = VStr x"
        by (auto simp: stored_def wf_column_def res_simps)
      with KString False wf show ?thesis
        by (intro that [of "c\<lparr>c_str := c_str c @ [x]\<rparr>" True])
          (auto simp: column_append_def wf_column_def nth_append)
    qed
  qed
  from wb d(2) obtain b where b: "column_push_valid d bv = Inr (d\<lparr>c_valid := b\<rparr>)" "wf_bitmap b"
      "bitmap_bits b = bitmap_bits (c_valid c) @ [bv]" "bm_count b = Suc (bm_count (c_valid c))"
    by (metis column_push_valid_wf)
  let ?c = "d\<lparr>c_valid := b\<rparr>"
  have sz: "column_size ?c = Suc (column_size c)" by (simp add: column_size_def b(4))
  have lb: "length (bitmap_bits (c_valid c)) = column_size c" by (simp add: column_size_def)
  have old: "cell_value ?c i = cell_value c i" if "i < column_size c" for i
  proof -
    have "c_i64 d ! i = c_i64 c ! i" "c_f64 d ! i = c_f64 c ! i" "c_str d ! i = c_str c ! i"
      using that d(8-10) by (metis nth_take)+
    with that lb d(3,4) b(3) show ?thesis
      by (simp add: cell_value_def nth_append split: kind.splits)
  qed
  have "cell_value ?c (column_size c) = w"
    using d(3,4,11) b(3) lb by (simp add: cell_value_def nth_append split: kind.splits)
  with old sz have "col_values ?c = col_values c @ [w]"
    by (simp add: col_values_def)
  moreover have "wf_column ?c"
    using wf d b(2) sz by (auto simp: wf_column_def)
  ultimately show ?thesis using d(1,3) b(1) by auto
qed

lemma column_append_throws:
  "wf_column c \<Longrightarrow> stored (dt_id (c_type c)) v = Inl e \<Longrightarrow> column_append c v = Inl e"
  by (auto simp: stored_def column_append_def wf_column_def res_simps split: if_splits kind.splits)

interpretation col: append_store
    "\<lambda>c. wf_column c \<and> c_type c = t" column_append col_values "stored (dt_id t)" for t
  by unfold_locales (use column_append_stored column_append_throws in blast)+

lemma ucast_scast_narrow [simp]:
  "ucast (scast (w :: 8 word) :: 64 word) = w" "ucast (scast (x :: 16 word) :: 64 word) = x"
  "ucast (scast (y :: 32 word) :: 64 word) = y"
  by (rule bit_word_eqI, auto simp: bit_simps)+

text \<open>A value that was read from a column is stored unchanged.\<close>

lemma makeIntValue_not_null [simp]: "\<not> isNull (makeIntValue t x)"
  by (auto simp: makeIntValue_def split: type_id.splits)

lemma int_cell_makeIntValue:
  "rmap (makeIntValue t) (int_cell (makeIntValue t x)) = Inr (makeIntValue t x)"
  by (cases t) (auto simp: makeIntValue_def int_cell_def typeIsFloat_def)

lemma str_cell_VStr [simp]: "str_cell (VStr s) = Inr s"
  by (simp add: str_cell_def)

lemma stored_idem:
  assumes "stored t v = Inr w"
  shows "stored t w = Inr w"
proof (cases "isNull v")
  case True
  with assms show ?thesis by (auto simp: stored_def)
next
  case False
  show ?thesis
  proof (cases "kindOf t")
    case KInt64
    with False assms obtain x where "w = makeIntValue t x" by (auto simp: stored_def res_simps)
    with KInt64 int_cell_makeIntValue [of t x] show ?thesis by (simp add: stored_def)
  next
    case KDouble
    with False assms show ?thesis by (auto simp: stored_def res_simps)
  next
    case KString
    with False assms show ?thesis by (auto simp: stored_def res_simps)
  qed
qed

lemma stored_cell_value: "wf_column c \<Longrightarrow> stored (dt_id (c_type c)) (cell_value c i) = Inr (cell_value c i)"
  using int_cell_makeIntValue
  by (auto simp: cell_value_def stored_def wf_column_def split: kind.splits)

end
