(* ===== verification/LQ_Table.thy ===== *)
theory LQ_Table
  imports LQ_Column
begin

section \<open>Tables\<close>

text \<open>
  Model of \<open>src/storage/table.h\<close>. A table is a list of columns, one per schema field. The
  code's \<open>insertRow\<close> appends to the columns one after another and may throw in between, so the
  model returns the table as it is left behind together with the outcome.
  Lemmas: the well-formedness invariant (columns of the declared types, all of the same
  length), \<open>insertRow\<close> as appending the stored row to the abstract rows (\<open>table_rows\<close>), what a
  throwing insert leaves behind, and \<open>getRow\<close> as reading the abstract rows.
\<close>

record table =
  t_name :: string
  t_schema :: schema
  t_cols :: "column list"

definition table_new :: "string \<Rightarrow> schema \<Rightarrow> table" where
  "table_new n s = \<lparr>t_name = n, t_schema = s, t_cols = map (\<lambda>c. column_new (cd_type c)) s\<rparr>"

definition rowCount :: "table \<Rightarrow> nat" where
  "rowCount t = (case t_cols t of [] \<Rightarrow> 0 | c # _ \<Rightarrow> column_size c)"

definition columnCount :: "table \<Rightarrow> nat" where
  "columnCount t = length (t_cols t)"

definition columnAt :: "table \<Rightarrow> nat \<Rightarrow> column res" where
  "columnAt t i = vec_at (t_cols t) i"

definition columnIndex :: "table \<Rightarrow> string \<Rightarrow> int" where
  "columnIndex t name = indexOf (t_schema t) name"

fun insert_cols :: "column list \<Rightarrow> row \<Rightarrow> column list \<times> unit res" where
  "insert_cols [] vs = ([], Inr ())"
| "insert_cols (c # cs) [] = (c # cs, Inl (Undefined ''vector index''))"
| "insert_cols (c # cs) (v # vs) =
     (case column_append c v of
        Inl e \<Rightarrow> (c # cs, Inl e)
      | Inr c' \<Rightarrow> (case insert_cols cs vs of (cs', r) \<Rightarrow> (c' # cs', r)))"

definition insertRow :: "table \<Rightarrow> row \<Rightarrow> table \<times> unit res" where
  "insertRow t r =
     (if length r \<noteq> length (t_cols t) then (t, Inl (Undefined ''assert: row width''))
      else case insert_cols (t_cols t) r of (cs, out) \<Rightarrow> (t\<lparr>t_cols := cs\<rparr>, out))"

text \<open>\<open>bulkInsertColumns\<close>, column by column.\<close>

fun bulk_cols :: "column list \<Rightarrow> value list list \<Rightarrow> column list res" where
  "bulk_cols [] _ = Inr []"
| "bulk_cols (c # cs) [] = Inl (Undefined ''vector index'')"
| "bulk_cols (c # cs) (vs # vss) =
     rbind (rfold column_append c vs) (\<lambda>c'. rbind (bulk_cols cs vss) (\<lambda>cs'. Inr (c' # cs')))"

definition bulkInsertColumns :: "table \<Rightarrow> value list list \<Rightarrow> table res" where
  "bulkInsertColumns t cols =
     (if length cols \<noteq> length (t_cols t) then Inl (Undefined ''assert: column count'')
      else rmap (\<lambda>cs. t\<lparr>t_cols := cs\<rparr>) (bulk_cols (t_cols t) cols))"

definition table_getRow :: "table \<Rightarrow> nat \<Rightarrow> row res" where
  "table_getRow t r = rmapM (\<lambda>c. column_valueAt c r) (t_cols t)"

subsection \<open>Invariant and abstract contents\<close>

definition wf_table :: "table \<Rightarrow> bool" where
  "wf_table t =
     (map c_type (t_cols t) = map cd_type (t_schema t)
      \<and> (\<forall>c \<in> set (t_cols t). wf_column c \<and> column_size c = rowCount t))"

definition table_rows :: "table \<Rightarrow> row list" where
  "table_rows t = map (\<lambda>i. map (\<lambda>c. col_values c ! i) (t_cols t)) [0..<rowCount t]"

text \<open>What a row becomes when a table of that schema stores it.\<close>

definition stored_row :: "schema \<Rightarrow> row \<Rightarrow> row res" where
  "stored_row s vs =
     (if length vs \<noteq> length s then Inl (Undefined ''assert: row width'')
      else rmapM (\<lambda>(c, v). stored (dt_id (cd_type c)) v) (zip s vs))"

lemma wf_table_new [simp]: "wf_table (table_new n s)" "table_rows (table_new n s) = []"
    "t_schema (table_new n s) = s" "t_name (table_new n s) = n"
  by (auto simp: wf_table_def table_new_def table_rows_def rowCount_def o_def split: list.splits)

lemma wf_table_width: "wf_table t \<Longrightarrow> length (t_cols t) = length (t_schema t)"
  unfolding wf_table_def by (metis length_map)

lemma length_table_rows [simp]: "length (table_rows t) = rowCount t"
  by (simp add: table_rows_def)

lemma table_rows_width: "wf_table t \<Longrightarrow> r \<in> set (table_rows t) \<Longrightarrow> length r = length (t_schema t)"
  by (auto simp: table_rows_def wf_table_width)

lemma table_getRow_wf:
  assumes "wf_table t" "i < rowCount t"
  shows "table_getRow t i = Inr (table_rows t ! i)"
proof -
  have "table_getRow t i = Inr (map (\<lambda>c. col_values c ! i) (t_cols t))"
    unfolding table_getRow_def
    using assms by (intro rmapM_Inr_map) (auto simp: wf_table_def column_valueAt_wf)
  with assms(2) show ?thesis by (simp add: table_rows_def)
qed

lemma insert_cols_ok:
  "\<forall>c \<in> set cs. wf_column c \<Longrightarrow> length cs = length vs \<Longrightarrow>
   rmapM (\<lambda>(t, v). stored (dt_id t) v) (zip (map c_type cs) vs) = Inr ws \<Longrightarrow>
   \<exists>cs'. insert_cols cs vs = (cs', Inr ()) \<and>
     list_all2 (\<lambda>(c, w) c'. wf_column c' \<and> c_type c' = c_type c \<and> col_values c' = col_values c @ [w])
       (zip cs ws) cs'"
proof (induction cs vs arbitrary: ws rule: insert_cols.induct)
  case (3 c cs v vs)
  from "3.prems"(3) obtain w ws' where w: "stored (dt_id (c_type c)) v = Inr w" "ws = w # ws'"
      "rmapM (\<lambda>(t, v). stored (dt_id t) v) (zip (map c_type cs) vs) = Inr ws'"
    by (auto simp: res_simps)
  from column_append_stored [OF _ w(1)] "3.prems"(1) obtain c'
    where c': "column_append c v = Inr c'" "wf_column c'" "c_type c' = c_type c"
      "col_values c' = col_values c @ [w]" by auto
  from "3.IH" [OF c'(1) _ _ w(3)] "3.prems"(1,2) obtain cs'
    where "insert_cols cs vs = (cs', Inr ())"
      "list_all2 (\<lambda>(c, w) c'. wf_column c' \<and> c_type c' = c_type c \<and> col_values c' = col_values c @ [w])
         (zip cs ws') cs'" by auto
  with c' w(2) show ?case by simp
qed auto

lemma insert_cols_throws:
  "\<forall>c \<in> set cs. wf_column c \<Longrightarrow> length cs = length vs \<Longrightarrow>
   rmapM (\<lambda>(t, v). stored (dt_id t) v) (zip (map c_type cs) vs) = Inl e \<Longrightarrow>
   snd (insert_cols cs vs) = Inl e"
proof (induction cs vs rule: insert_cols.induct)
  case (3 c cs v vs)
  show ?case
  proof (cases "stored (dt_id (c_type c)) v")
    case (Inl e')
    with "3.prems" column_append_throws [of c v e'] show ?thesis by simp
  next
    case (Inr w)
    with column_append_stored [of c v w] "3.prems"(1) obtain c' where c': "column_append c v = Inr c'"
      by auto
    from Inr "3.prems"(3) have "rmapM (\<lambda>(t, v). stored (dt_id t) v) (zip (map c_type cs) vs) = Inl e"
      by (auto simp: res_simps)
    with "3.IH" [OF c'] "3.prems"(1,2) c' show ?thesis by (auto split: prod.splits)
  qed
qed auto

lemma stored_row_types:
  "length vs = length s \<Longrightarrow>
   stored_row s vs = rmapM (\<lambda>(t, v). stored (dt_id t) v) (zip (map cd_type s) vs)"
  unfolding stored_row_def
  by (simp add: zip_map1, induction s vs rule: list_induct2') auto

lemma stored_row_length: "stored_row s vs = Inr ws \<Longrightarrow> length vs = length s \<and> length ws = length s"
  by (auto simp: stored_row_def dest: rmapM_length split: if_splits)

text \<open>The code appends the stored row, for every table with at least one column.\<close>

lemma insertRow_stored:
  assumes wf: "wf_table t" and ne: "t_schema t \<noteq> []" and st: "stored_row (t_schema t) r = Inr ws"
  shows "\<exists>t'. insertRow t r = (t', Inr ()) \<and> wf_table t' \<and> t_schema t' = t_schema t \<and> t_name t' = t_name t
           \<and> table_rows t' = table_rows t @ [ws]"
proof -
  note w = wf_table_width [OF wf]
  from stored_row_length [OF st] have len: "length r = length (t_cols t)" "length ws = length (t_cols t)"
    using w by auto
  have "rmapM (\<lambda>(t, v). stored (dt_id t) v) (zip (map c_type (t_cols t)) r) = Inr ws"
    using st len(1) w wf by (simp add: stored_row_types wf_table_def)
  with insert_cols_ok [of "t_cols t" r ws] wf len(1) obtain cs where cs:
      "insert_cols (t_cols t) r = (cs, Inr ())"
      "list_all2 (\<lambda>(c, w) c'. wf_column c' \<and> c_type c' = c_type c \<and> col_values c' = col_values c @ [w])
         (zip (t_cols t) ws) cs"
    by (auto simp: wf_table_def)
  have lcs: "length cs = length (t_cols t)"
    using list_all2_lengthD [OF cs(2)] len by simp
  have each: "wf_column (cs ! i) \<and> c_type (cs ! i) = c_type (t_cols t ! i)
      \<and> col_values (cs ! i) = col_values (t_cols t ! i) @ [ws ! i]" if "i < length cs" for i
    using list_all2_nthD2 [OF cs(2) that] that lcs len by simp
  have size: "column_size (cs ! i) = Suc (rowCount t)" if "i < length cs" for i
  proof -
    have "length (col_values (cs ! i)) = Suc (column_size (t_cols t ! i))"
      using each [OF that] by simp
    with wf that lcs show ?thesis by (simp add: wf_table_def)
  qed
  let ?t = "t\<lparr>t_cols := cs\<rparr>"
  have rc: "rowCount ?t = Suc (rowCount t)"
    using size [of 0] ne w lcs by (cases cs) (auto simp: rowCount_def)
  have "map c_type cs = map c_type (t_cols t)"
    using each lcs by (auto simp: list_eq_iff_nth_eq)
  with wf each size rc have "wf_table ?t"
    by (auto simp: wf_table_def in_set_conv_nth)
  moreover have "table_rows ?t = table_rows t @ [ws]"
  proof -
    have "map (\<lambda>c. col_values c ! i) cs = map (\<lambda>c. col_values c ! i) (t_cols t)"
      if "i < rowCount t" for i
      using that each lcs wf by (auto simp: list_eq_iff_nth_eq nth_append wf_table_def)
    moreover have "map (\<lambda>c. col_values c ! rowCount t) cs = ws"
      using each lcs wf len by (auto simp: list_eq_iff_nth_eq nth_append wf_table_def)
    ultimately show ?thesis unfolding table_rows_def rc by simp
  qed
  ultimately show ?thesis using cs(1) len by (auto simp: insertRow_def)
qed

lemma insertRow_throws:
  assumes "wf_table t" "stored_row (t_schema t) r = Inl e"
  shows "snd (insertRow t r) = Inl e"
proof (cases "length r = length (t_schema t)")
  case True
  then have "rmapM (\<lambda>(t, v). stored (dt_id t) v) (zip (map c_type (t_cols t)) r) = Inl e"
    using assms by (simp add: stored_row_types wf_table_def)
  with True assms insert_cols_throws [of "t_cols t" r e] wf_table_width [of t] show ?thesis
    by (auto simp: insertRow_def wf_table_def split: prod.splits)
next
  case False
  with assms wf_table_width [of t] show ?thesis
    by (auto simp: insertRow_def stored_row_def)
qed

text \<open>The outcome as a value, for the callers that discard a table on which an insert throws.\<close>

definition insertRow_res :: "table \<Rightarrow> row \<Rightarrow> table res" where
  "insertRow_res t r = (case insertRow t r of (t', Inr _) \<Rightarrow> Inr t' | (_, Inl e) \<Rightarrow> Inl e)"

interpretation tbl: append_store
    "\<lambda>t. wf_table t \<and> t_schema t = s \<and> t_schema t \<noteq> [] \<and> t_name t = n" insertRow_res table_rows
    "stored_row s" for s n
proof unfold_locales
  fix t r ws
  assume "wf_table t \<and> t_schema t = s \<and> t_schema t \<noteq> [] \<and> t_name t = n" "stored_row s r = Inr ws"
  with insertRow_stored [of t r ws]
  show "\<exists>t'. insertRow_res t r = Inr t' \<and>
      (wf_table t' \<and> t_schema t' = s \<and> t_schema t' \<noteq> [] \<and> t_name t' = n) \<and>
      table_rows t' = table_rows t @ [ws]"
    by (auto simp: insertRow_res_def)
next
  fix t r e
  assume "wf_table t \<and> t_schema t = s \<and> t_schema t \<noteq> [] \<and> t_name t = n" "stored_row s r = Inl e"
  with insertRow_throws [of t r e] show "insertRow_res t r = Inl e"
    by (auto simp: insertRow_res_def split: prod.splits sum.splits)
qed

lemma rmapM_stored_idem:
  "rmapM (\<lambda>(t, v). stored (dt_id t) v) (zip ts vs) = Inr ws \<Longrightarrow> length ts = length vs \<Longrightarrow>
   rmapM (\<lambda>(t, v). stored (dt_id t) v) (zip ts ws) = Inr ws"
proof (induction ts vs arbitrary: ws rule: list_induct2')
  case (4 t ts v vs)
  then obtain w ws' where w: "stored (dt_id t) v = Inr w" "ws = w # ws'"
      "rmapM (\<lambda>(t, v). stored (dt_id t) v) (zip ts vs) = Inr ws'"
    by (auto simp: res_simps)
  with 4 stored_idem [OF w(1)] show ?case by simp
qed auto

lemma stored_row_idem: "stored_row s vs = Inr ws \<Longrightarrow> stored_row s ws = Inr ws"
  using stored_row_length [of s vs ws] rmapM_stored_idem [of "map cd_type s" vs ws]
  by (simp add: stored_row_types)

text \<open>Every row of a well-formed table is stored unchanged by a table of the same schema.\<close>

lemma stored_table_rows:
  assumes "wf_table t" "r \<in> set (table_rows t)"
  shows "stored_row (t_schema t) r = Inr r"
proof -
  from assms(2) obtain i where i: "i < rowCount t" "r = map (\<lambda>c. col_values c ! i) (t_cols t)"
    by (auto simp: table_rows_def)
  have eq: "map cd_type (t_schema t) = map c_type (t_cols t)" using assms(1) by (simp add: wf_table_def)
  have "rmapM (\<lambda>(t, v). stored (dt_id t) v) (zip (map c_type cs) (map (\<lambda>c. col_values c ! i) cs))
      = Inr (map (\<lambda>c. col_values c ! i) cs)" if "set cs \<subseteq> set (t_cols t)" for cs
    using that assms(1) i(1)
    by (induction cs) (auto simp: wf_table_def col_values_def stored_cell_value)
  then have "rmapM (\<lambda>(t, v). stored (dt_id t) v) (zip (map cd_type (t_schema t)) r) = Inr r"
    unfolding eq i(2) by blast
  moreover have "length r = length (t_schema t)" using wf_table_width [OF assms(1)] i(2) by simp
  ultimately show ?thesis by (simp add: stored_row_types)
qed

end
