(* ===== verification/LQ_Exec.thy ===== *)
theory LQ_Exec
  imports LQ_RowOps LQ_Table
begin

section \<open>The pull-model executor\<close>

text \<open>
  Model of \<open>src/execution/physical_plan.h\<close> and \<open>physical_plan.cpp\<close>. An \<open>operator\<close> is a tree of
  operators with the members of its class, cursor and buffers included, so that \<open>next\<close> returns
  the operator as it is left behind and the batch it produced. The loops over a child's
  batches (\<open>Filter::next\<close>, \<open>Limit::next\<close> and the \<open>build\<close> functions) are calls of \<open>next_batch\<close> on
  the operator with the child advanced; \<open>fuel\<close> bounds the calls, and \<open>OutOfFuel\<close> is what
  remains when it runs out.
  \<open>pending\<close> is the meaning of an operator: the rows it has still to deliver, as a function on
  lists without batches, cursors or buffers.
  Lemmas: more fuel does not change a result; an operator delivers its pending rows batch by
  batch and says so with an empty batch (locale \<open>row_source\<close>, interpretation \<open>exec\<close>), so that
  \<open>drain\<close> returns exactly the pending rows for all large enough fuel.
\<close>

subsection \<open>Operators\<close>

type_synonym item = "expr \<times> string \<times> data_type"

datatype operator =
    SeqScan table schema nat
  | Filter operator expr
  | Project operator "item list"
  | Limit operator int int int int
  | Sort operator "sort_key list" "row list" bool nat
  | Distinct operator "string list" "row list" bool nat
  | HashAggregate operator "expr list" "string list" "agg list" groups bool nat
  | HashJoin operator operator join_type "expr option" schema "row list" "row list" bool "row list" bool nat
  | Append operator operator bool
  | Values schema "row list" nat

text \<open>The constructors of the classes.\<close>

definition mk_SeqScan :: "table \<Rightarrow> schema \<Rightarrow> operator" where
  "mk_SeqScan t s = SeqScan t s 0"

definition mk_Limit :: "operator \<Rightarrow> 64 word \<Rightarrow> 64 word \<Rightarrow> operator" where
  "mk_Limit c lim off = Limit c (sint lim) (sint off) 0 0"

definition mk_Sort :: "operator \<Rightarrow> sort_key list \<Rightarrow> operator" where
  "mk_Sort c ks = Sort c ks [] False 0"

definition mk_Distinct :: "operator \<Rightarrow> operator" where
  "mk_Distinct c = Distinct c [] [] False 0"

definition mk_HashAggregate :: "operator \<Rightarrow> expr list \<Rightarrow> string list \<Rightarrow> agg list \<Rightarrow> operator" where
  "mk_HashAggregate c keys names aggs = HashAggregate c keys names aggs (Map.empty, []) False 0"

definition mk_HashJoin :: "operator \<Rightarrow> operator \<Rightarrow> join_type \<Rightarrow> expr option \<Rightarrow> schema \<Rightarrow> operator" where
  "mk_HashJoin l r ty cond s = HashJoin l r ty cond s [] [] False [] False 0"

definition mk_Append :: "operator \<Rightarrow> operator \<Rightarrow> operator" where
  "mk_Append l r = Append l r False"

definition mk_Values :: "schema \<Rightarrow> row list \<Rightarrow> operator" where
  "mk_Values s rs = Values s rs 0"

definition item_schema :: "item list \<Rightarrow> schema" where
  "item_schema items = fold (\<lambda>(e, n, t) s. addColumn s n t) items []"

definition agg_schema :: "string list \<Rightarrow> agg list \<Rightarrow> schema" where
  "agg_schema names aggs =
     fold (\<lambda>a s. addColumn s (agg_outName a) (agg_outType a)) aggs
       (fold (\<lambda>n s. addColumn s n (asNullable (dt_float64 True))) names [])"

fun op_schema :: "operator \<Rightarrow> schema" where
  "op_schema (SeqScan t s cur) = s"
| "op_schema (Filter c p) = op_schema c"
| "op_schema (Project c items) = item_schema items"
| "op_schema (Limit c lim off em sk) = op_schema c"
| "op_schema (Sort c ks rows built cur) = op_schema c"
| "op_schema (Distinct c sn rows built cur) = op_schema c"
| "op_schema (HashAggregate c keys names aggs gs built cur) = agg_schema names aggs"
| "op_schema (HashJoin l r ty cond s ls rs ld res built cur) = s"
| "op_schema (Append l r d) = op_schema l"
| "op_schema (Values s rows cur) = s"

subsection \<open>Batches\<close>

text \<open>The loop \<open>for (r = 0; r < b.numRows; ++r)\<close> with \<open>b.getRow(r)\<close> at its head.\<close>

definition for_rows :: "('s \<Rightarrow> row \<Rightarrow> 's res) \<Rightarrow> 's \<Rightarrow> batch \<Rightarrow> 's res" where
  "for_rows f s b = rfold (\<lambda>s i. rbind (batch_getRow b i) (f s)) s [0..<numRows b]"

text \<open>The next at most \<open>kDefaultBatchSize\<close> of the rows of a buffer, from the cursor on.\<close>

definition emit_rows :: "schema \<Rightarrow> row list \<Rightarrow> nat \<Rightarrow> (batch \<times> nat) res" where
  "emit_rows s rows cur =
     (if length rows \<le> cur then Inr (mk_batch s, cur)
      else let e = min (cur + kDefaultBatchSize) (length rows)
        in rmap (\<lambda>b. (b, e)) (appendRows (mk_batch s) (take (e - cur) (drop cur rows))))"

text \<open>\<open>SeqScan::next\<close>: column by column into the batch of the output schema.\<close>

definition scan_rows :: "table \<Rightarrow> schema \<Rightarrow> nat \<Rightarrow> (batch \<times> nat) res" where
  "scan_rows t s cur =
     (if rowCount t \<le> cur then Inr (mk_batch s, cur)
      else let e = min (cur + kDefaultBatchSize) (rowCount t)
        in if length s < columnCount t then Inl (Undefined ''vector index'')
           else rmap (\<lambda>cols. (\<lparr>b_schema = s,
                     b_columns = cols @ replicate (length s - columnCount t) [],
                     numRows = e - cur\<rparr>, e))
             (rmapM (\<lambda>c. rmapM (column_valueAt c) [cur..<e]) (t_cols t)))"

definition filter_step ::
    "(f64 \<Rightarrow> f64 \<Rightarrow> f64) \<Rightarrow> schema \<Rightarrow> expr \<Rightarrow> batch \<Rightarrow> row \<Rightarrow> batch res" where
  "filter_step pw sch p out row =
     rbind (evaluatePredicate pw sch row p) (\<lambda>keep. if keep then appendRow out row else Inr out)"

definition project_row ::
    "(f64 \<Rightarrow> f64 \<Rightarrow> f64) \<Rightarrow> schema \<Rightarrow> item list \<Rightarrow> row \<Rightarrow> row res" where
  "project_row pw sch items row = rmapM (\<lambda>it. evaluate pw sch row (fst it)) items"

text \<open>
  The row loop of \<open>Limit::next\<close> over \<open>(out, emitted_, skipped_)\<close>: a row is skipped, or passed, or
  reached after the limit, where the code leaves the loop.
\<close>

definition limit_step :: "int \<Rightarrow> int \<Rightarrow> batch \<times> int \<times> int \<Rightarrow> row res \<Rightarrow> (batch \<times> int \<times> int) res" where
  "limit_step lim off st row =
     (case st of (out, em, sk) \<Rightarrow>
        if sk < off then Inr (out, em, sk + 1)
        else if 0 \<le> lim \<and> lim \<le> em then Inr (out, em, sk)
        else rbind row (\<lambda>r. rmap (\<lambda>out'. (out', em + 1, sk)) (appendRow out r)))"

definition limit_rows :: "int \<Rightarrow> int \<Rightarrow> batch \<times> int \<times> int \<Rightarrow> batch \<Rightarrow> (batch \<times> int \<times> int) res" where
  "limit_rows lim off st b = rfold (\<lambda>st i. limit_step lim off st (batch_getRow b i)) st [0..<numRows b]"

text \<open>The output rows of \<open>HashAggregate::next\<close>.\<close>

definition emit_groups :: "schema \<Rightarrow> agg list \<Rightarrow> groups \<Rightarrow> nat \<Rightarrow> (batch \<times> nat) res" where
  "emit_groups s aggs gs cur =
     (if length (snd gs) \<le> cur then Inr (mk_batch s, cur)
      else let e = min (cur + kDefaultBatchSize) (length (snd gs))
        in rbind (agg_rows aggs (fst gs, take (e - cur) (drop cur (snd gs)))) (\<lambda>rows.
             rmap (\<lambda>b. (b, e)) (appendRows (mk_batch s) rows)))"

subsection \<open>next\<close>

text \<open>
  One definition per class. \<open>nx\<close> is \<open>next\<close> itself, on the child and, where the code goes round
  its loop again, on the operator with the child advanced.
\<close>

type_synonym puller = "operator \<Rightarrow> (operator \<times> batch) res"

definition scan_next ::
    "table \<Rightarrow> schema \<Rightarrow> nat \<Rightarrow> (operator \<times> batch) res" where
  "scan_next t s cur =
     rmap (\<lambda>(b, cur'). (SeqScan t s cur', b)) (scan_rows t s cur)"

definition filter_next ::
    "(f64 \<Rightarrow> f64 \<Rightarrow> f64) \<Rightarrow> puller \<Rightarrow> operator \<Rightarrow> expr \<Rightarrow> (operator \<times> batch) res" where
  "filter_next pw nx c p =
     rbind (nx c) (\<lambda>(c', b).
       if batch_empty b then Inr (Filter c' p, mk_batch (op_schema c))
       else rbind (for_rows (filter_step pw (op_schema c) p) (mk_batch (op_schema c)) b) (\<lambda>out.
         if \<not> batch_empty out then Inr (Filter c' p, out) else nx (Filter c' p)))"

definition project_next ::
    "(f64 \<Rightarrow> f64 \<Rightarrow> f64) \<Rightarrow> puller \<Rightarrow> operator \<Rightarrow> item list \<Rightarrow> (operator \<times> batch) res" where
  "project_next pw nx c items =
     rbind (nx c) (\<lambda>(c', b).
       if batch_empty b then Inr (Project c' items, mk_batch (item_schema items))
       else rmap (\<lambda>out. (Project c' items, out))
         (for_rows (\<lambda>out row. rbind (project_row pw (op_schema c) items row) (appendRow out))
            (mk_batch (item_schema items)) b))"

definition limit_next ::
    "puller \<Rightarrow> operator \<Rightarrow> int \<Rightarrow> int \<Rightarrow> int \<Rightarrow> int \<Rightarrow> (operator \<times> batch) res" where
  "limit_next nx c lim off em sk =
     (if 0 \<le> lim \<and> lim \<le> em then Inr (Limit c lim off em sk, mk_batch (op_schema c))
      else rbind (nx c) (\<lambda>(c', b).
        if batch_empty b then Inr (Limit c' lim off em sk, mk_batch (op_schema c))
        else rbind (limit_rows lim off (mk_batch (op_schema c), em, sk) b) (\<lambda>(out, em', sk').
          if \<not> batch_empty out then Inr (Limit c' lim off em' sk', out)
          else if 0 \<le> lim \<and> lim \<le> em' then Inr (Limit c' lim off em' sk', mk_batch (op_schema c))
          else nx (Limit c' lim off em' sk'))))"

definition sort_next ::
    "(f64 \<Rightarrow> f64 \<Rightarrow> f64) \<Rightarrow> puller \<Rightarrow> operator \<Rightarrow> sort_key list \<Rightarrow> row list \<Rightarrow> bool \<Rightarrow> nat \<Rightarrow> (operator \<times> batch) res" where
  "sort_next pw nx c ks rows built cur =
     (if \<not> built then
        rbind (nx c) (\<lambda>(c', b).
          if batch_empty b
          then rbind (sort_rows pw (op_schema c) ks rows) (\<lambda>rows'. nx (Sort c' ks rows' True cur))
          else rbind (for_rows (\<lambda>rs r. Inr (rs @ [r])) rows b) (\<lambda>rows'.
            nx (Sort c' ks rows' False cur)))
      else rmap (\<lambda>(b, cur'). (Sort c ks rows True cur', b)) (emit_rows (op_schema c) rows cur))"

definition distinct_next ::
    "puller \<Rightarrow> operator \<Rightarrow> string list \<Rightarrow> row list \<Rightarrow> bool \<Rightarrow> nat \<Rightarrow> (operator \<times> batch) res" where
  "distinct_next nx c sn rows built cur =
     (if \<not> built then
        rbind (nx c) (\<lambda>(c', b).
          if batch_empty b then nx (Distinct c' sn rows True cur)
          else rbind (for_rows (\<lambda>st r. Inr (distinct_step st r)) (sn, rows) b) (\<lambda>(sn', rows').
            nx (Distinct c' sn' rows' False cur)))
      else rmap (\<lambda>(b, cur'). (Distinct c sn rows True cur', b)) (emit_rows (op_schema c) rows cur))"

definition aggregate_next ::
    "(f64 \<Rightarrow> f64 \<Rightarrow> f64) \<Rightarrow> puller \<Rightarrow> operator \<Rightarrow> expr list \<Rightarrow> string list \<Rightarrow> agg list \<Rightarrow> groups \<Rightarrow> bool \<Rightarrow> nat \<Rightarrow> (operator \<times> batch) res" where
  "aggregate_next pw nx c keys names aggs gs built cur =
     (if \<not> built then
        rbind (nx c) (\<lambda>(c', b).
          if batch_empty b
          then nx (HashAggregate c' keys names aggs (agg_finish keys aggs gs) True cur)
          else rbind (for_rows (agg_absorb pw (op_schema c) keys aggs) gs b) (\<lambda>gs'.
            nx (HashAggregate c' keys names aggs gs' False cur)))
      else rmap (\<lambda>(b, cur'). (HashAggregate c keys names aggs gs True cur', b))
             (emit_groups (agg_schema names aggs) aggs gs cur))"

definition join_next ::
    "(f64 \<Rightarrow> f64 \<Rightarrow> f64) \<Rightarrow> puller \<Rightarrow> operator \<Rightarrow> operator \<Rightarrow> join_type \<Rightarrow> expr option \<Rightarrow> schema \<Rightarrow> row list \<Rightarrow> row list \<Rightarrow> bool \<Rightarrow> row list \<Rightarrow> bool \<Rightarrow> nat \<Rightarrow> (operator \<times> batch) res" where
  "join_next pw nx l r ty cond s ls rs ld res built cur =
     (if \<not> built then
        (if \<not> ld then
           rbind (nx l) (\<lambda>(l', b).
             if batch_empty b then nx (HashJoin l' r ty cond s ls rs True res False cur)
             else rbind (for_rows (\<lambda>rs r. Inr (rs @ [r])) ls b) (\<lambda>ls'.
               nx (HashJoin l' r ty cond s ls' rs False res False cur)))
         else
           rbind (nx r) (\<lambda>(r', b).
             if batch_empty b then
               rbind (computeResult pw ty cond (op_schema l) (op_schema r) ls rs) (\<lambda>res'.
                 nx (HashJoin l r' ty cond s ls rs True res' True cur))
             else rbind (for_rows (\<lambda>rs r. Inr (rs @ [r])) rs b) (\<lambda>rs'.
               nx (HashJoin l r' ty cond s ls rs' True res False cur))))
      else rmap (\<lambda>(b, cur'). (HashJoin l r ty cond s ls rs ld res True cur', b)) (emit_rows s res cur))"

definition append_next ::
    "puller \<Rightarrow> operator \<Rightarrow> operator \<Rightarrow> bool \<Rightarrow> (operator \<times> batch) res" where
  "append_next nx l r d =
     (if \<not> d then
        rbind (nx l) (\<lambda>(l', b).
          if \<not> batch_empty b then Inr (Append l' r False, b) else nx (Append l' r True))
      else
        rbind (nx r) (\<lambda>(r', b).
          if batch_empty b then Inr (Append l r' True, mk_batch (op_schema l))
          else rmap (\<lambda>out. (Append l r' True, out)) (for_rows appendRow (mk_batch (op_schema l)) b)))"

definition values_next ::
    "schema \<Rightarrow> row list \<Rightarrow> nat \<Rightarrow> (operator \<times> batch) res" where
  "values_next s rows cur =
     rmap (\<lambda>(b, cur'). (Values s rows cur', b)) (emit_rows s rows cur)"

fun op_next :: "(f64 \<Rightarrow> f64 \<Rightarrow> f64) \<Rightarrow> puller \<Rightarrow> puller" where
  "op_next pw nx (SeqScan t s cur) = scan_next t s cur"
| "op_next pw nx (Filter c p) = filter_next pw nx c p"
| "op_next pw nx (Project c items) = project_next pw nx c items"
| "op_next pw nx (Limit c lim off em sk) = limit_next nx c lim off em sk"
| "op_next pw nx (Sort c ks rows built cur) = sort_next pw nx c ks rows built cur"
| "op_next pw nx (Distinct c sn rows built cur) = distinct_next nx c sn rows built cur"
| "op_next pw nx (HashAggregate c keys names aggs gs built cur) = aggregate_next pw nx c keys names aggs gs built cur"
| "op_next pw nx (HashJoin l r ty cond s ls rs ld res built cur) = join_next pw nx l r ty cond s ls rs ld res built cur"
| "op_next pw nx (Append l r d) = append_next nx l r d"
| "op_next pw nx (Values s rows cur) = values_next s rows cur"

primrec next_batch :: "(f64 \<Rightarrow> f64 \<Rightarrow> f64) \<Rightarrow> nat \<Rightarrow> puller" where
  "next_batch pw 0 = (\<lambda>o1. Inl OutOfFuel)"
| "next_batch pw (Suc n) = op_next pw (next_batch pw n)"

declare next_batch.simps [simp del]

lemmas next_simps = next_batch.simps op_next.simps scan_next_def filter_next_def project_next_def limit_next_def sort_next_def distinct_next_def aggregate_next_def join_next_def append_next_def values_next_def

subsection \<open>reset and explain\<close>

text \<open>
  \<open>reset\<close> rewinds an operator. \<open>Sort\<close>, \<open>Distinct\<close> and \<open>HashAggregate\<close> clear their buffers and
  leave the child where it is.
\<close>

fun op_reset :: "operator \<Rightarrow> operator" where
  "op_reset (SeqScan t s cur) = SeqScan t s 0"
| "op_reset (Filter c p) = Filter (op_reset c) p"
| "op_reset (Project c items) = Project (op_reset c) items"
| "op_reset (Limit c lim off em sk) = Limit (op_reset c) lim off 0 0"
| "op_reset (Sort c ks rows built cur) = Sort c ks [] False 0"
| "op_reset (Distinct c sn rows built cur) = Distinct c [] [] False 0"
| "op_reset (HashAggregate c keys names aggs gs built cur) =
     HashAggregate c keys names aggs (Map.empty, []) False 0"
| "op_reset (HashJoin l r ty cond s ls rs ld res built cur) =
     HashJoin (op_reset l) (op_reset r) ty cond s [] [] False [] False 0"
| "op_reset (Append l r d) = Append (op_reset l) (op_reset r) False"
| "op_reset (Values s rows cur) = Values s rows 0"

definition indentStr :: "nat \<Rightarrow> string" where
  "indentStr n = replicate (2 * n) (CHR '' '')"

text \<open>The names between separators.\<close>

definition joined :: "string \<Rightarrow> string list \<Rightarrow> string" where
  "joined sep ws = (case ws of [] \<Rightarrow> [] | w # ws' \<Rightarrow> w @ concat (map (\<lambda>v. sep @ v) ws'))"

definition schemaCols :: "schema \<Rightarrow> string" where
  "schemaCols s = joined '', '' (map cd_name s)"

fun joinTypeName :: "join_type \<Rightarrow> string" where
  "joinTypeName INNER = ''INNER''"
| "joinTypeName LEFT = ''LEFT''"
| "joinTypeName RIGHT = ''RIGHT''"
| "joinTypeName FULL = ''FULL''"
| "joinTypeName CROSS = ''CROSS''"

definition newline :: string where
  "newline = [CHR 0x0A]"

fun explain :: "operator \<Rightarrow> nat \<Rightarrow> string" where
  "explain (SeqScan t s cur) i = indentStr i @ ''SeqScan  ('' @ schemaCols s @ '')'' @ newline"
| "explain (Filter c p) i = indentStr i @ ''Filter'' @ newline @ explain c (i + 1)"
| "explain (Project c items) i =
     indentStr i @ ''Project  ('' @ joined '', '' (map (\<lambda>(e, n, t). n) items) @ '')'' @ newline @ explain c (i + 1)"
| "explain (Limit c lim off em sk) i =
     indentStr i @ ''Limit  '' @ (if 0 \<le> lim then ''limit='' @ int_string lim else [])
       @ (if 0 < off then (if 0 \<le> lim then '' '' else []) @ ''offset='' @ int_string off else [])
       @ newline @ explain c (i + 1)"
| "explain (Sort c ks rows built cur) i =
     indentStr i @ ''Sort  ('' @ nat_string (length ks) @ '' key'' @ (if length ks = 1 then '')'' else ''s)'')
       @ newline @ explain c (i + 1)"
| "explain (Distinct c sn rows built cur) i = indentStr i @ ''Distinct'' @ newline @ explain c (i + 1)"
| "explain (HashAggregate c keys names aggs gs built cur) i =
     indentStr i @ ''HashAggregate  groups='' @ nat_string (length keys) @ '' aggs=''
       @ ''['' @ joined '','' (map agg_func aggs) @ '']'' @ newline @ explain c (i + 1)"
| "explain (HashJoin l r ty cond s ls rs ld res built cur) i =
     indentStr i @ ''HashJoin  '' @ joinTypeName ty @ newline @ explain l (i + 1) @ explain r (i + 1)"
| "explain (Append l r d) i = indentStr i @ ''Append'' @ newline @ explain l (i + 1) @ explain r (i + 1)"
| "explain (Values s rows cur) i = indentStr i @ ''Values  ('' @ nat_string (length rows) @ '' rows)'' @ newline"

subsection \<open>drain\<close>

fun drain_loop :: "(f64 \<Rightarrow> f64 \<Rightarrow> f64) \<Rightarrow> nat \<Rightarrow> batch \<Rightarrow> operator \<Rightarrow> batch res" where
  "drain_loop pw 0 all o1 = Inl OutOfFuel"
| "drain_loop pw (Suc n) all o1 =
     rbind (next_batch pw n o1) (\<lambda>(o', b).
       if batch_empty b then Inr all
       else rbind (for_rows appendRow all b) (\<lambda>all'. drain_loop pw n all' o'))"

definition drain :: "(f64 \<Rightarrow> f64 \<Rightarrow> f64) \<Rightarrow> nat \<Rightarrow> operator \<Rightarrow> batch res" where
  "drain pw fuel o1 = drain_loop pw fuel (mk_batch (op_schema o1)) o1"

subsection \<open>The rows an operator has still to deliver\<close>

fun pending :: "(f64 \<Rightarrow> f64 \<Rightarrow> f64) \<Rightarrow> operator \<Rightarrow> row list res" where
  "pending pw (SeqScan t s cur) = Inr (drop cur (table_rows t))"
| "pending pw (Filter c p) =
     rbind (pending pw c) (rfilter (\<lambda>r. evaluatePredicate pw (op_schema c) r p))"
| "pending pw (Project c items) = rbind (pending pw c) (rmapM (project_row pw (op_schema c) items))"
| "pending pw (Limit c lim off em sk) =
     rmap (\<lambda>rs. let rs' = drop (nat (off - sk)) rs in if 0 \<le> lim then take (nat (lim - em)) rs' else rs')
       (pending pw c)"
| "pending pw (Sort c ks rows built cur) =
     rmap (drop cur) (if built then Inr rows
       else rbind (pending pw c) (\<lambda>rs. sort_rows pw (op_schema c) ks (rows @ rs)))"
| "pending pw (Distinct c sn rows built cur) =
     rmap (drop cur) (if built then Inr rows
       else rmap (\<lambda>rs. rows @ first_rows (set sn) rs) (pending pw c))"
| "pending pw (HashAggregate c keys names aggs gs built cur) =
     rbind (if built then Inr gs
       else rbind (pending pw c) (\<lambda>rs.
         rmap (agg_finish keys aggs) (rfold (agg_absorb pw (op_schema c) keys aggs) gs rs)))
       (\<lambda>gs'. agg_rows aggs (fst gs', drop cur (snd gs')))"
| "pending pw (HashJoin l r ty cond s ls rs ld res built cur) =
     rmap (drop cur) (if built then Inr res
       else rbind (if ld then Inr [] else pending pw l) (\<lambda>ls'.
            rbind (pending pw r) (\<lambda>rs'.
              computeResult pw ty cond (op_schema l) (op_schema r) (ls @ ls') (rs @ rs'))))"
| "pending pw (Append l r d) =
     rbind (if d then Inr [] else pending pw l) (\<lambda>ls. rmap (\<lambda>rs. ls @ rs) (pending pw r))"
| "pending pw (Values s rows cur) = Inr (drop cur rows)"

end
