(* ===== verification/LQ_Deliver.thy ===== *)
theory LQ_Deliver
  imports LQ_Exec
begin

section \<open>Operators deliver their pending rows\<close>

text \<open>
  Correctness of \<open>next_batch\<close> and \<open>drain\<close> against \<open>pending\<close>. First the loops over batches as folds
  over their rows; then the invariant of an operator (every buffered row fits its schema,
  \<open>wf_op\<close>); then, operator by operator, that one call of \<open>next\<close> delivers a prefix of the pending
  rows, with an induction on the rows the child has pending for the operators that loop over
  their child; last, by induction on the height of the tree, all of it, in the form of the
  contract of a batch source (locale \<open>row_source\<close>, interpretation \<open>exec\<close>).
\<close>

subsection \<open>More fuel\<close>

text \<open>One unfolding of \<open>next_batch\<close> keeps the order, operator by operator.\<close>

lemma fuel_SeqScan:
  assumes "\<And>o2. fuel_le (next_batch pw n o2) (next_batch pw m o2)"
  shows "fuel_le (next_batch pw (Suc n) (SeqScan t s cur)) (next_batch pw (Suc m) (SeqScan t s cur))"
  unfolding next_simps by (intro fuel_le_steps assms fuel_le_refl)

lemma fuel_Filter:
  assumes "\<And>o2. fuel_le (next_batch pw n o2) (next_batch pw m o2)"
  shows "fuel_le (next_batch pw (Suc n) (Filter c p)) (next_batch pw (Suc m) (Filter c p))"
  unfolding next_simps by (intro fuel_le_steps assms fuel_le_refl)

lemma fuel_Project:
  assumes "\<And>o2. fuel_le (next_batch pw n o2) (next_batch pw m o2)"
  shows "fuel_le (next_batch pw (Suc n) (Project c items)) (next_batch pw (Suc m) (Project c items))"
  unfolding next_simps by (intro fuel_le_steps assms fuel_le_refl)

lemma fuel_Limit:
  assumes "\<And>o2. fuel_le (next_batch pw n o2) (next_batch pw m o2)"
  shows "fuel_le (next_batch pw (Suc n) (Limit c lim off em sk)) (next_batch pw (Suc m) (Limit c lim off em sk))"
  unfolding next_simps by (intro fuel_le_steps assms fuel_le_refl)

lemma fuel_Sort:
  assumes "\<And>o2. fuel_le (next_batch pw n o2) (next_batch pw m o2)"
  shows "fuel_le (next_batch pw (Suc n) (Sort c ks rows built cur)) (next_batch pw (Suc m) (Sort c ks rows built cur))"
  unfolding next_simps by (intro fuel_le_steps assms fuel_le_refl)

lemma fuel_Distinct:
  assumes "\<And>o2. fuel_le (next_batch pw n o2) (next_batch pw m o2)"
  shows "fuel_le (next_batch pw (Suc n) (Distinct c sn rows built cur)) (next_batch pw (Suc m) (Distinct c sn rows built cur))"
  unfolding next_simps by (intro fuel_le_steps assms fuel_le_refl)

lemma fuel_HashAggregate:
  assumes "\<And>o2. fuel_le (next_batch pw n o2) (next_batch pw m o2)"
  shows "fuel_le (next_batch pw (Suc n) (HashAggregate c keys names aggs gs built cur)) (next_batch pw (Suc m) (HashAggregate c keys names aggs gs built cur))"
  unfolding next_simps by (intro fuel_le_steps assms fuel_le_refl)

lemma fuel_HashJoin:
  assumes "\<And>o2. fuel_le (next_batch pw n o2) (next_batch pw m o2)"
  shows "fuel_le (next_batch pw (Suc n) (HashJoin l r ty cond s ls rs ld res built cur)) (next_batch pw (Suc m) (HashJoin l r ty cond s ls rs ld res built cur))"
  unfolding next_simps by (intro fuel_le_steps assms fuel_le_refl)

lemma fuel_Append:
  assumes "\<And>o2. fuel_le (next_batch pw n o2) (next_batch pw m o2)"
  shows "fuel_le (next_batch pw (Suc n) (Append l r d)) (next_batch pw (Suc m) (Append l r d))"
  unfolding next_simps by (intro fuel_le_steps assms fuel_le_refl)

lemma fuel_Values:
  assumes "\<And>o2. fuel_le (next_batch pw n o2) (next_batch pw m o2)"
  shows "fuel_le (next_batch pw (Suc n) (Values s rows cur)) (next_batch pw (Suc m) (Values s rows cur))"
  unfolding next_simps by (intro fuel_le_steps assms fuel_le_refl)

lemmas fuel_operators = fuel_SeqScan fuel_Filter fuel_Project fuel_Limit fuel_Sort fuel_Distinct fuel_HashAggregate fuel_HashJoin fuel_Append fuel_Values

lemma next_batch_fuel: "n \<le> m \<Longrightarrow> fuel_le (next_batch pw n o1) (next_batch pw m o1)"
proof (induction n arbitrary: m o1)
  case 0
  then show ?case by (simp add: next_simps fuel_le_out)
next
  case (Suc n)
  then obtain m' where m: "m = Suc m'" "n \<le> m'" by (cases m) auto
  have IH: "fuel_le (next_batch pw n o2) (next_batch pw m' o2)" for o2
    using Suc.IH m(2) by blast
  show ?case
    unfolding m(1) by (cases o1; hypsubst; rule fuel_operators; rule IH)
qed

lemma next_batch_mono: "next_batch pw n o1 = Inr x \<Longrightarrow> n \<le> m \<Longrightarrow> next_batch pw m o1 = Inr x"
  by (rule fuel_le_Inr [OF next_batch_fuel])

lemma drain_loop_fuel: "n \<le> m \<Longrightarrow> fuel_le (drain_loop pw n all o1) (drain_loop pw m all o1)"
proof (induction n arbitrary: m all o1)
  case (Suc n)
  then obtain m' where m: "m = Suc m'" "n \<le> m'" by (cases m) auto
  show ?case
    unfolding m(1) drain_loop.simps
    by (intro fuel_le_steps fuel_le_refl next_batch_fuel m(2) Suc.IH)
qed (simp add: fuel_le_out)

subsection \<open>Rows and batches\<close>

lemma rfold_map: "rfold f b (map g xs) = rfold (\<lambda>b x. f b (g x)) b xs"
  by (induction xs arbitrary: b) (auto simp: rbind_def split: sum.splits)

lemma for_rows_wf:
  assumes "wf_batch b"
  shows "for_rows f s b = rfold f s (rows_of b)"
proof -
  have row: "batch_getRow b i = Inr (map (\<lambda>col. col ! i) (b_columns b))" if "i < numRows b" for i
    unfolding batch_getRow_def using assms that by (intro rmapM_Inr_map) (auto simp: wf_batch_def)
  show ?thesis
    unfolding for_rows_def rows_of_def rfold_map by (rule rfold_cong) (auto simp: row)
qed

lemma limit_rows_wf:
  assumes "wf_batch b"
  shows "limit_rows lim off st b = rfold (\<lambda>st r. limit_step lim off st (Inr r)) st (rows_of b)"
proof -
  have row: "batch_getRow b i = Inr (map (\<lambda>col. col ! i) (b_columns b))" if "i < numRows b" for i
    unfolding batch_getRow_def using assms that by (intro rmapM_Inr_map) (auto simp: wf_batch_def)
  show ?thesis
    unfolding limit_rows_def rows_of_def rfold_map by (rule rfold_cong) (auto simp: row)
qed

lemma rfold_append_batch:
  assumes "wf_batch b" "\<And>r. r \<in> set rs \<Longrightarrow> length r = length (b_schema b)"
  shows "\<exists>b'. rfold appendRow b rs = Inr b' \<and> wf_batch b' \<and> b_schema b' = b_schema b \<and> rows_of b' = rows_of b @ rs"
  using appendRows_Inr [OF assms] by (metis appendRows_def)

lemma rfold_append_mapped:
  assumes "rmapM f rs = Inr ys" "wf_batch b" "\<And>r. r \<in> set ys \<Longrightarrow> length r = length (b_schema b)"
  shows "\<exists>b'. rfold (\<lambda>b r. rbind (f r) (appendRow b)) b rs = Inr b' \<and> wf_batch b' \<and> b_schema b' = b_schema b
    \<and> rows_of b' = rows_of b @ ys"
  using assms
proof (induction rs arbitrary: b ys)
  case (Cons r rs)
  then obtain y ys' where y: "f r = Inr y" "rmapM f rs = Inr ys'" "ys = y # ys'"
    by (auto simp: res_simps)
  from appendRow_Inr [OF Cons.prems(2), of y] Cons.prems(3) y(3) obtain b1
    where b1: "appendRow b y = Inr b1" "wf_batch b1" "rows_of b1 = rows_of b @ [y]" "b_schema b1 = b_schema b"
    by (metis list.set_intros(1))
  from Cons.IH [OF y(2) b1(2)] Cons.prems(3) b1 y show ?case by auto
qed simp

lemma rfold_filter_batch:
  assumes "rfilter (\<lambda>r. evaluatePredicate pw sch r p) rs = Inr ys" "wf_batch b"
    "\<And>r. r \<in> set rs \<Longrightarrow> length r = length (b_schema b)"
  shows "\<exists>b'. rfold (filter_step pw sch p) b rs = Inr b' \<and> wf_batch b' \<and> b_schema b' = b_schema b
    \<and> rows_of b' = rows_of b @ ys"
  using assms
proof (induction rs arbitrary: b ys)
  case (Cons r rs)
  then obtain k ys' where k: "evaluatePredicate pw sch r p = Inr k"
      "rfilter (\<lambda>r. evaluatePredicate pw sch r p) rs = Inr ys'" "ys = (if k then r # ys' else ys')"
    by (auto simp: res_simps)
  show ?case
  proof (cases k)
    case True
    from appendRow_Inr [OF Cons.prems(2), of r] Cons.prems(3) obtain b1
      where b1: "appendRow b r = Inr b1" "wf_batch b1" "rows_of b1 = rows_of b @ [r]" "b_schema b1 = b_schema b"
      by (metis list.set_intros(1))
    from Cons.IH [OF k(2) b1(2)] Cons.prems(3) b1 k True show ?thesis by (auto simp: filter_step_def)
  next
    case False
    with Cons.IH [OF k(2) Cons.prems(2)] Cons.prems(3) k show ?thesis by (auto simp: filter_step_def)
  qed
qed simp

text \<open>What \<open>Limit\<close> passes of a run of rows, and its counters afterwards.\<close>

fun limited :: "int \<Rightarrow> int \<Rightarrow> int \<Rightarrow> int \<Rightarrow> row list \<Rightarrow> row list \<times> int \<times> int" where
  "limited lim off em sk [] = ([], em, sk)"
| "limited lim off em sk (r # rs) =
     (if sk < off then limited lim off em (sk + 1) rs
      else if 0 \<le> lim \<and> lim \<le> em then limited lim off em sk rs
      else case limited lim off (em + 1) sk rs of (ys, st) \<Rightarrow> (r # ys, st))"

lemma limited_append:
  "limited lim off em sk (rs @ rs') =
     (case limited lim off em sk rs of (ys, em', sk') \<Rightarrow>
        case limited lim off em' sk' rs' of (ys', st) \<Rightarrow> (ys @ ys', st))"
  by (induction lim off em sk rs rule: limited.induct) (auto split: prod.splits)

lemma limited_done: "0 \<le> lim \<Longrightarrow> lim \<le> em \<Longrightarrow> fst (limited lim off em sk rs) = []"
  by (induction lim off em sk rs rule: limited.induct) auto

lemma limited_set: "set (fst (limited lim off em sk rs)) \<subseteq> set rs"
  by (induction lim off em sk rs rule: limited.induct) (auto split: prod.splits)

lemma limited_take_drop:
  "fst (limited lim off em sk rs) =
     (let rs' = drop (nat (off - sk)) rs in if 0 \<le> lim then take (nat (lim - em)) rs' else rs')"
proof (induction lim off em sk rs rule: limited.induct)
  case (2 lim off em sk r rs)
  show ?case
  proof (cases "sk < off")
    case True
    then have "nat (off - sk) = Suc (nat (off - (sk + 1)))" by simp
    with True 2 show ?thesis by simp
  next
    case False
    have step: "nat (lim - em) = Suc (nat (lim - (em + 1)))" if "em < lim" using that by simp
    show ?thesis
    proof (cases "0 \<le> lim \<and> lim \<le> em")
      case True
      with False 2 show ?thesis by simp
    next
      case False
      with \<open>\<not> sk < off\<close> 2(3) step show ?thesis by (auto simp: Let_def split: prod.splits)
    qed
  qed
qed simp

lemma rfold_limit_batch:
  assumes "wf_batch b" "\<And>r. r \<in> set rs \<Longrightarrow> length r = length (b_schema b)"
  shows "\<exists>b'. rfold (\<lambda>st r. limit_step lim off st (Inr r)) (b, em, sk) rs
      = Inr (b', snd (limited lim off em sk rs))
    \<and> wf_batch b' \<and> b_schema b' = b_schema b \<and> rows_of b' = rows_of b @ fst (limited lim off em sk rs)"
  using assms
proof (induction lim off em sk rs arbitrary: b rule: limited.induct)
  case (2 lim off em sk r rs)
  consider "sk < off" | "\<not> sk < off" "0 \<le> lim \<and> lim \<le> em" | "\<not> sk < off" "\<not> (0 \<le> lim \<and> lim \<le> em)"
    by blast
  then show ?case
  proof cases
    case 1
    with "2.IH"(1) [OF 1 "2.prems"(1)] "2.prems"(2) show ?thesis by (simp add: limit_step_def)
  next
    case 2
    with "2.IH"(2) [OF 2 "2.prems"(1)] "2.prems"(2) show ?thesis by (simp add: limit_step_def)
  next
    case 3
    from appendRow_Inr [OF "2.prems"(1), of r] "2.prems"(2) obtain b1
      where b1: "appendRow b r = Inr b1" "wf_batch b1" "rows_of b1 = rows_of b @ [r]" "b_schema b1 = b_schema b"
      by (metis list.set_intros(1))
    with "2.IH"(3) [OF 3 b1(2)] "2.prems"(2) 3 show ?thesis
      by (auto simp: limit_step_def split: prod.splits)
  qed
qed simp


subsection \<open>The invariant of an operator\<close>

abbreviation wide :: "nat \<Rightarrow> row list \<Rightarrow> bool" where
  "wide n rs \<equiv> \<forall>r \<in> set rs. length r = n"

text \<open>Every buffered row fits the schema it belongs to.\<close>

definition wf_groups :: "nat \<Rightarrow> nat \<Rightarrow> groups \<Rightarrow> bool" where
  "wf_groups k a gs = (\<forall>key st. fst gs key = Some st \<longrightarrow>
     length (keyValues st) = k \<and> length (acc_cells st) = a)"

fun wf_op :: "operator \<Rightarrow> bool" where
  "wf_op (SeqScan t s cur) = (wf_table t \<and> length s = length (t_schema t))"
| "wf_op (Filter c p) = wf_op c"
| "wf_op (Project c items) = wf_op c"
| "wf_op (Limit c lim off em sk) = wf_op c"
| "wf_op (Sort c ks rows built cur) = (wf_op c \<and> wide (length (op_schema c)) rows)"
| "wf_op (Distinct c sn rows built cur) = (wf_op c \<and> wide (length (op_schema c)) rows)"
| "wf_op (HashAggregate c keys names aggs gs built cur) =
     (wf_op c \<and> length names = length keys \<and> wf_groups (length keys) (length aggs) gs)"
| "wf_op (HashJoin l r ty cond s ls rs ld res built cur) =
     (wf_op l \<and> wf_op r \<and> length s = length (op_schema l) + length (op_schema r)
      \<and> wide (length (op_schema l)) ls \<and> wide (length (op_schema r)) rs \<and> wide (length s) res)"
| "wf_op (Append l r d) = (wf_op l \<and> wf_op r \<and> length (op_schema l) = length (op_schema r))"
| "wf_op (Values s rows cur) = wide (length s) rows"

text \<open>The height of the tree, which no step changes.\<close>

fun op_depth :: "operator \<Rightarrow> nat" where
  "op_depth (SeqScan t s cur) = 0"
| "op_depth (Filter c p) = Suc (op_depth c)"
| "op_depth (Project c items) = Suc (op_depth c)"
| "op_depth (Limit c lim off em sk) = Suc (op_depth c)"
| "op_depth (Sort c ks rows built cur) = Suc (op_depth c)"
| "op_depth (Distinct c sn rows built cur) = Suc (op_depth c)"
| "op_depth (HashAggregate c keys names aggs gs built cur) = Suc (op_depth c)"
| "op_depth (HashJoin l r ty cond s ls rs ld res built cur) = Suc (max (op_depth l) (op_depth r))"
| "op_depth (Append l r d) = Suc (max (op_depth l) (op_depth r))"
| "op_depth (Values s rows cur) = 0"

lemma length_item_schema [simp]: "length (item_schema items) = length items"
  by (simp add: item_schema_def case_prod_unfold fold_addColumn)

lemma length_agg_schema [simp]: "length (agg_schema names aggs) = length names + length aggs"
  by (simp add: agg_schema_def fold_addColumn [where f = "\<lambda>n. n"] fold_addColumn)

lemma agg_absorb_wf:
  assumes "agg_absorb pw sch keys aggs gs r = Inr gs'" "wf_groups (length keys) (length aggs) gs"
  shows "wf_groups (length keys) (length aggs) gs'"
proof -
  from assms(1) obtain kv where kv: "group_values pw sch keys r = Inr kv"
    by (auto simp: agg_absorb_def res_simps)
  then have lkv: "length kv = length keys" by (auto simp: group_values_def dest: rmapM_length)
  show ?thesis
  proof (cases "fst gs (rowKey kv)")
    case None
    with assms(1) kv obtain cells where
        "cells_step pw sch aggs (map (\<lambda>_. new_cell) aggs) r = Inr cells"
        "gs' = ((fst gs)(rowKey kv \<mapsto> \<lparr>acc_cells = cells, keyValues = kv\<rparr>), snd gs @ [rowKey kv])"
      by (auto simp: agg_absorb_def newAcc_def Let_def res_simps)
    moreover from this(1) have "length cells = length aggs" by (auto simp: cells_step_def dest: rmapM_length)
    ultimately show ?thesis using assms(2) lkv by (auto simp: wf_groups_def)
  next
    case (Some st)
    with assms(1) kv obtain cells where c:
        "cells_step pw sch aggs (acc_cells st) r = Inr cells"
        "gs' = ((fst gs)(rowKey kv \<mapsto> st\<lparr>acc_cells := cells\<rparr>), snd gs)"
      by (auto simp: agg_absorb_def Let_def res_simps)
    from Some assms(2) have "length (acc_cells st) = length aggs" "length (keyValues st) = length keys"
      by (auto simp: wf_groups_def)
    moreover with c(1) have "length cells = length aggs" by (auto simp: cells_step_def dest: rmapM_length)
    ultimately show ?thesis using assms(2) c(2) by (auto simp: wf_groups_def)
  qed
qed

lemma agg_fold_wf:
  "rfold (agg_absorb pw sch keys aggs) gs rs = Inr gs' \<Longrightarrow> wf_groups (length keys) (length aggs) gs \<Longrightarrow>
   wf_groups (length keys) (length aggs) gs'"
  by (erule rfold_inv) (auto intro: agg_absorb_wf)

lemma agg_finish_wf: "wf_groups (length keys) a gs \<Longrightarrow> a = length aggs \<Longrightarrow> wf_groups (length keys) a (agg_finish keys aggs gs)"
  by (auto simp: agg_finish_def wf_groups_def newAcc_def)

lemma agg_rows_wide:
  assumes "agg_rows aggs gs = Inr rs" "wf_groups k (length aggs) gs"
  shows "wide (k + length aggs) rs"
proof
  fix r
  assume "r \<in> set rs"
  with assms(1) obtain key where "(case fst gs key of None \<Rightarrow> Inl (OutOfRange ''unordered_map::at'')
       | Some st \<Rightarrow> Inr (group_row aggs st)) = Inr r"
    unfolding agg_rows_def rmapM_Inr_iff by (auto simp: in_set_conv_nth list_all2_conv_all_nth)
  then obtain st where st: "fst gs key = Some st" "r = group_row aggs st"
    by (auto split: option.splits)
  from assms(2) st(1) have "length (keyValues st) = k" "length (acc_cells st) = length aggs"
    unfolding wf_groups_def by blast+
  then show "length r = k + length aggs" using st(2) by (simp add: group_row_def)
qed

lemma probe_wide:
  "probe on l rs ms = Inr (out, m, ms') \<Longrightarrow> wide n rs \<Longrightarrow> wide (length l + n) out"
  by (induction on l rs ms arbitrary: out m ms' rule: probe.induct)
    (auto simp: res_simps split: if_splits prod.splits)

lemma probe_all_wide:
  "probe_all on outer n ls rs ms = Inr (out, ms') \<Longrightarrow> wide k ls \<Longrightarrow> wide n rs \<Longrightarrow> wide (k + n) out"
proof (induction on outer n ls rs ms arbitrary: out ms' rule: probe_all.induct)
  case (2 on outer n l ls rs ms)
  from "2.prems"(1) obtain out1 m1 ms1 out2 where p: "probe on l rs ms = Inr (out1, m1, ms1)"
      "probe_all on outer n ls rs ms1 = Inr (out2, ms')"
      "out = out1 @ (if \<not> m1 \<and> outer then [l @ null_row n] else []) @ out2"
    by (auto simp: res_simps split: prod.splits)
  have "wide (k + n) out2"
    using "2.IH" [OF p(1) refl refl p(2)] "2.prems"(2,3) by simp
  moreover have "wide (k + n) out1"
    using probe_wide [OF p(1) "2.prems"(3)] "2.prems"(2) by simp
  ultimately show ?case using p(3) "2.prems"(2) by (auto simp: null_row_def)
qed simp

lemma computeResult_wide:
  assumes "computeResult pw ty cond ls rs lrows rrows = Inr out"
    and "wide (length ls) lrows" "wide (length rs) rrows"
  shows "wide (length ls + length rs) out"
proof -
  from assms(1) obtain o1 ms where o1: "probe_all (join_on pw ty cond (schema_merge ls rs))
      (ty = LEFT \<or> ty = FULL) (length rs) lrows rrows (replicate (length rrows) False) = Inr (o1, ms)"
      "out = o1 @ (if ty = RIGHT \<or> ty = FULL
                then map (\<lambda>(r, _). null_row (length ls) @ r) (filter (\<lambda>(_, m). \<not> m) (zip rrows ms))
                else [])"
    by (auto simp: computeResult_def res_simps)
  show ?thesis
    using probe_all_wide [OF o1(1) assms(2,3)] assms(3) o1(2)
    by (auto simp: null_row_def dest: set_zip_leftD)
qed

lemma sort_rows_set: "sort_rows pw sch ks rs = Inr ys \<Longrightarrow> set ys = set rs"
  unfolding sort_rows_def by (drule stable_sort_mset) (metis set_mset_mset)

lemma first_rows_set: "set (first_rows K rs) \<subseteq> set rs"
  by (induction rs arbitrary: K) (simp_all, blast)

lemma project_rows_wide: "rmapM (project_row pw sch items) rs = Inr ys \<Longrightarrow> wide (length items) ys"
  by (induction rs arbitrary: ys) (auto simp: res_simps project_row_def dest: rmapM_length)

text \<open>What an operator has still to deliver fits its schema.\<close>

lemma pending_wide: "wf_op o1 \<Longrightarrow> pending pw o1 = Inr rs \<Longrightarrow> wide (length (op_schema o1)) rs"
proof (induction o1 arbitrary: rs)
  case (SeqScan t s cur)
  then show ?case using table_rows_width [of t] by (auto dest: in_set_dropD)
next
  case (Filter c p)
  then show ?case by (fastforce simp: res_simps dest: rfilter_set)
next
  case (Project c items)
  then show ?case by (auto simp: res_simps dest: project_rows_wide)
next
  case (Limit c lim off em sk)
  then obtain rs0 where "pending pw c = Inr rs0" "set rs \<subseteq> set rs0"
    by (auto simp: res_simps Let_def dest!: in_set_dropD in_set_takeD split: if_splits)
  with Limit show ?case by auto
next
  case (Sort c ks rows built cur)
  then show ?case by (fastforce simp: res_simps dest: in_set_dropD sort_rows_set split: if_splits)
next
  case (Distinct c sn rows built cur)
  then show ?case using first_rows_set by (fastforce simp: res_simps dest: in_set_dropD split: if_splits)
next
  case (HashAggregate c keys names aggs gs built cur)
  from HashAggregate.prems(2) [unfolded pending.simps]
  obtain gs' where gs': "(if built then Inr gs else rbind (pending pw c) (\<lambda>rs.
         rmap (agg_finish keys aggs) (rfold (agg_absorb pw (op_schema c) keys aggs) gs rs))) = Inr gs'"
      "agg_rows aggs (fst gs', drop cur (snd gs')) = Inr rs"
    by (rule rbindE)
  have "wf_groups (length keys) (length aggs) gs'"
  proof (cases built)
    case False
    with gs'(1) obtain rs0 gs0 where "rfold (agg_absorb pw (op_schema c) keys aggs) gs rs0 = Inr gs0"
        "gs' = agg_finish keys aggs gs0"
      by (auto simp: rbind_eq_Inr rmap_eq_Inr)
    with HashAggregate.prems(1) show ?thesis by (simp add: agg_finish_wf agg_fold_wf)
  qed (use gs'(1) HashAggregate.prems(1) in simp)
  then have "wf_groups (length keys) (length aggs) (fst gs', drop cur (snd gs'))"
    by (simp add: wf_groups_def)
  with agg_rows_wide [OF gs'(2)] HashAggregate.prems(1) show ?case by simp
next
  case (HashJoin l r ty cond s ls rrows ld res built cur)
  show ?case
  proof (cases built)
    case False
    with HashJoin.prems(2) obtain ls' rs' out where p: "(if ld then Inr [] else pending pw l) = Inr ls'"
        "pending pw r = Inr rs'" "rs = drop cur out"
        "computeResult pw ty cond (op_schema l) (op_schema r) (ls @ ls') (rrows @ rs') = Inr out"
      by (auto simp: res_simps)
    have "wide (length (op_schema l)) (ls @ ls')"
      using HashJoin.IH(1) p(1) HashJoin.prems(1) by (auto split: if_splits)
    moreover have "wide (length (op_schema r)) (rrows @ rs')"
      using HashJoin.IH(2) p(2) HashJoin.prems(1) by auto
    ultimately show ?thesis
      using computeResult_wide [OF p(4)] p(3) HashJoin.prems(1) by (auto dest: in_set_dropD)
  qed (use HashJoin.prems in \<open>auto dest: in_set_dropD\<close>)
next
  case (Append l r d)
  then show ?case by (fastforce simp: res_simps split: if_splits)
next
  case (Values s rows cur)
  then show ?case by (auto dest: in_set_dropD)
qed


subsection \<open>An operator delivers its pending rows\<close>

text \<open>
  \<open>delivers o1 rs\<close>: with enough fuel, \<open>next\<close> returns the first of the rows \<open>rs\<close> in a batch of
  the operator's schema, leaves an operator of the same shape that has the others pending, and
  returns the empty batch only when there are no others.
\<close>

definition delivers :: "(f64 \<Rightarrow> f64 \<Rightarrow> f64) \<Rightarrow> operator \<Rightarrow> row list \<Rightarrow> bool" where
  "delivers pw o1 rs = (\<exists>n o' b rs'. next_batch pw n o1 = Inr (o', b)
     \<and> wf_op o' \<and> op_depth o' = op_depth o1 \<and> op_schema o' = op_schema o1 \<and> pending pw o' = Inr rs'
     \<and> wf_batch b \<and> b_schema b = op_schema o1 \<and> rs = rows_of b @ rs' \<and> (rows_of b = [] \<longrightarrow> rs' = []))"

lemma deliversI:
  assumes "next_batch pw n o1 = Inr (o', b)" "wf_op o'" "op_depth o' = op_depth o1"
    "op_schema o' = op_schema o1" "pending pw o' = Inr rs'" "wf_batch b" "b_schema b = op_schema o1"
    "rs = rows_of b @ rs'" "rows_of b = [] \<Longrightarrow> rs' = []"
  shows "delivers pw o1 rs"
  unfolding delivers_def using assms by blast

lemma deliversE:
  assumes "delivers pw c rs"
  obtains (stop) n c' b where "\<And>m. n \<le> m \<Longrightarrow> next_batch pw m c = Inr (c', b)" "batch_empty b" "rs = []"
      "wf_op c'" "op_depth c' = op_depth c" "op_schema c' = op_schema c" "pending pw c' = Inr []"
  | (more) n c' b rs' where "\<And>m. n \<le> m \<Longrightarrow> next_batch pw m c = Inr (c', b)" "\<not> batch_empty b"
      "wf_op c'" "op_depth c' = op_depth c" "op_schema c' = op_schema c" "pending pw c' = Inr rs'"
      "wf_batch b" "b_schema b = op_schema c" "rs = rows_of b @ rs'" "length rs' < length rs"
proof -
  from assms obtain n c' b rs' where d: "next_batch pw n c = Inr (c', b)" "wf_op c'"
      "op_depth c' = op_depth c" "op_schema c' = op_schema c" "pending pw c' = Inr rs'" "wf_batch b"
      "b_schema b = op_schema c" "rs = rows_of b @ rs'" "rows_of b = [] \<longrightarrow> rs' = []"
    unfolding delivers_def by blast
  have m: "next_batch pw m c = Inr (c', b)" if "n \<le> m" for m
    by (rule next_batch_mono [OF d(1) that])
  show thesis
  proof (cases "batch_empty b")
    case True
    then have "rows_of b = []" by (simp add: batch_empty_rows)
    with d m True show thesis by (intro stop [of n c' b]) auto
  next
    case False
    then have "0 < numRows b" by (simp add: batch_empty_def)
    with d m False show thesis by (intro more [of n c' b rs']) auto
  qed
qed

lemma delivers_later:
  assumes "\<And>m. n \<le> m \<Longrightarrow> next_batch pw (Suc m) o1 = next_batch pw m o2" "delivers pw o2 rs"
    "op_depth o2 = op_depth o1" "op_schema o2 = op_schema o1"
  shows "delivers pw o1 rs"
proof -
  from assms(2) obtain k o' b rs' where d: "next_batch pw k o2 = Inr (o', b)" "wf_op o'"
      "op_depth o' = op_depth o2" "op_schema o' = op_schema o2" "pending pw o' = Inr rs'" "wf_batch b"
      "b_schema b = op_schema o2" "rs = rows_of b @ rs'" "rows_of b = [] \<longrightarrow> rs' = []"
    unfolding delivers_def by blast
  have "next_batch pw (max n k) o2 = Inr (o', b)" by (rule next_batch_mono [OF d(1)]) simp
  then have "next_batch pw (Suc (max n k)) o1 = Inr (o', b)" using assms(1) by simp
  then show ?thesis
    by (rule deliversI [of pw _ _ o' b rs']) (use d assms(3,4) in auto)
qed

text \<open>The next batch of a buffer.\<close>

lemma emit_rows_ok:
  assumes "wide (length s) rows"
  obtains b cur' where "emit_rows s rows cur = Inr (b, cur')" "wf_batch b" "b_schema b = s"
    "drop cur rows = rows_of b @ drop cur' rows" "rows_of b = [] \<Longrightarrow> drop cur' rows = []"
proof (cases "length rows \<le> cur")
  case True
  then show thesis by (intro that [of "mk_batch s" cur]) (auto simp: emit_rows_def)
next
  case False
  let ?e = "min (cur + kDefaultBatchSize) (length rows)"
  let ?out = "take (?e - cur) (drop cur rows)"
  have "\<And>r. r \<in> set ?out \<Longrightarrow> length r = length s" using assms by (meson in_set_dropD in_set_takeD)
  with appendRows_Inr [of "mk_batch s" ?out] obtain b where
    b: "appendRows (mk_batch s) ?out = Inr b" "wf_batch b" "rows_of b = ?out" "b_schema b = s" by auto
  have "drop cur rows = ?out @ drop ?e rows"
    using False by (metis add.commute append_take_drop_id drop_drop le_add_diff_inverse2 linorder_not_le min.bounded_iff
        le_add1 less_imp_le)
  moreover have "?out \<noteq> []" using False by (simp add: kDefaultBatchSize_def)
  ultimately show thesis using b False by (intro that [of b ?e]) (auto simp: emit_rows_def Let_def)
qed

lemma delivers_SeqScan:
  assumes "wf_op (SeqScan t s cur)"
  shows "delivers pw (SeqScan t s cur) (drop cur (table_rows t))"
proof -
  have t: "wf_table t" "length s = length (t_schema t)" "length (t_cols t) = length s"
    using assms wf_table_width [of t] by simp_all
  have "\<exists>b cur'. scan_rows t s cur = Inr (b, cur') \<and> wf_batch b \<and> b_schema b = s
      \<and> drop cur (table_rows t) = rows_of b @ drop cur' (table_rows t)
      \<and> (rows_of b = [] \<longrightarrow> drop cur' (table_rows t) = [])"
  proof (cases "rowCount t \<le> cur")
    case True
    then show ?thesis by (intro exI [of _ "mk_batch s"] exI [of _ cur]) (auto simp: scan_rows_def)
  next
    case False
    let ?e = "min (cur + kDefaultBatchSize) (rowCount t)"
    let ?cols = "map (\<lambda>c. map ((!) (col_values c)) [cur..<?e]) (t_cols t)"
    let ?b = "\<lparr>b_schema = s, b_columns = ?cols, numRows = ?e - cur\<rparr>"
    have cell: "rmapM (column_valueAt c) [cur..<?e] = Inr (map ((!) (col_values c)) [cur..<?e])"
      if "c \<in> set (t_cols t)" for c
      using that t(1) by (intro rmapM_Inr_map) (auto simp: wf_table_def column_valueAt_wf)
    have "rmapM (\<lambda>c. rmapM (column_valueAt c) [cur..<?e]) (t_cols t) = Inr ?cols"
      by (intro rmapM_Inr_map cell)
    then have "scan_rows t s cur = Inr (?b, ?e)"
      using False t(3) by (simp add: scan_rows_def columnCount_def Let_def)
    moreover have "wf_batch ?b" using t(3) by (auto simp: wf_batch_def)
    moreover have rows: "rows_of ?b = map (\<lambda>i. map (\<lambda>c. col_values c ! i) (t_cols t)) [cur..<?e]"
      by (rule nth_equalityI) (auto simp: rows_of_def)
    moreover have "drop cur (table_rows t) = rows_of ?b @ drop ?e (table_rows t)"
    proof -
      have "[cur..<rowCount t] = [cur..<?e] @ [?e..<rowCount t]"
        using False upt_add_eq_append [of cur ?e "rowCount t - ?e"] by simp
      then show ?thesis unfolding rows by (simp add: table_rows_def drop_map)
    qed
    moreover have "rows_of ?b \<noteq> []" using False unfolding rows by (simp add: kDefaultBatchSize_def)
    ultimately show ?thesis by (intro exI [of _ ?b] exI [of _ ?e]) simp
  qed
  then obtain b cur' where b: "scan_rows t s cur = Inr (b, cur')" "wf_batch b" "b_schema b = s"
      "drop cur (table_rows t) = rows_of b @ drop cur' (table_rows t)"
      "rows_of b = [] \<longrightarrow> drop cur' (table_rows t) = []" by blast
  show ?thesis
    by (rule deliversI [of pw "Suc 0" _ "SeqScan t s cur'" b "drop cur' (table_rows t)"])
      (use b assms in \<open>auto simp: next_simps\<close>)
qed

lemma delivers_Values:
  assumes "wf_op (Values s rows cur)"
  shows "delivers pw (Values s rows cur) (drop cur rows)"
proof -
  from assms emit_rows_ok [where s = s and rows = rows and cur = cur] obtain b cur' where b: "emit_rows s rows cur = Inr (b, cur')"
      "wf_batch b" "b_schema b = s" "drop cur rows = rows_of b @ drop cur' rows"
      "rows_of b = [] \<Longrightarrow> drop cur' rows = []" by auto
  show ?thesis
    by (rule deliversI [of pw "Suc 0" _ "Values s rows cur'" b "drop cur' rows"])
      (use b assms in \<open>auto simp: next_simps\<close>)
qed



lemma for_rows_collect: "wf_batch b \<Longrightarrow> for_rows (\<lambda>rs r. Inr (rs @ [r])) rows b = Inr (rows @ rows_of b)"
proof -
  have "rfold (\<lambda>rs r. Inr (rs @ [r])) rows xs = Inr (rows @ xs)" for xs :: "row list"
    by (induction xs arbitrary: rows) auto
  then show "wf_batch b \<Longrightarrow> ?thesis" by (simp add: for_rows_wf)
qed

lemma for_rows_distinct:
  "wf_batch b \<Longrightarrow> for_rows (\<lambda>st r. Inr (distinct_step st r)) st b = Inr (fold (\<lambda>r st. distinct_step st r) (rows_of b) st)"
proof -
  have "rfold (\<lambda>st r. Inr (distinct_step st r)) st xs = Inr (fold (\<lambda>r st. distinct_step st r) xs st)" for xs
    by (induction xs arbitrary: st) auto
  then show "wf_batch b \<Longrightarrow> ?thesis" by (simp add: for_rows_wf)
qed

lemma delivers_Filter:
  assumes child: "\<And>c rs. op_depth c = d \<Longrightarrow> wf_op c \<Longrightarrow> pending pw c = Inr rs \<Longrightarrow> delivers pw c rs"
  shows "op_depth c = d \<Longrightarrow> wf_op c \<Longrightarrow> pending pw c = Inr rs \<Longrightarrow>
    rfilter (\<lambda>r. evaluatePredicate pw (op_schema c) r p) rs = Inr ys \<Longrightarrow> delivers pw (Filter c p) ys"
proof (induction "length rs" arbitrary: c rs ys rule: less_induct)
  case less
  from child [OF less.prems(1-3)] show ?case
  proof (cases rule: deliversE)
    case (stop n c' b)
    show ?thesis
      by (intro deliversI [of pw "Suc n" _ "Filter c' p" "mk_batch (op_schema c)" "[]"])
        (use stop less.prems in \<open>auto simp: next_simps\<close>)
  next
    case (more n c' b rs')
    from less.prems(4) [unfolded more(9) rfilter_append] obtain out rest where
      f: "rfilter (\<lambda>r. evaluatePredicate pw (op_schema c) r p) (rows_of b) = Inr out"
        "rfilter (\<lambda>r. evaluatePredicate pw (op_schema c) r p) rs' = Inr rest" "ys = out @ rest"
      by (auto simp: res_simps)
    obtain b' where b': "rfold (filter_step pw (op_schema c) p) (mk_batch (op_schema c)) (rows_of b) = Inr b'"
        "wf_batch b'" "b_schema b' = op_schema c" "rows_of b' = out"
      using rfold_filter_batch [OF f(1), of "mk_batch (op_schema c)"] rows_of_width [OF more(7)] more(8) by auto
    show ?thesis
    proof (cases "batch_empty b'")
      case True
      have del: "delivers pw (Filter c' p) ys"
        using less.hyps [OF more(10), of c' ys] less.prems(1) more f True b'(4)
        by (simp add: batch_empty_rows)
      have step: "next_batch pw (Suc m) (Filter c p) = next_batch pw m (Filter c' p)" if "n \<le> m" for m
        using more(1) [OF that] more(2,7) b'(1) True by (simp add: next_simps for_rows_wf)
      show ?thesis
        by (rule delivers_later [of n, OF _ del]) (use step more in auto)
    next
      case False
      with b'(4) have "out \<noteq> []" by (simp add: batch_empty_rows)
      then show ?thesis
        by (intro deliversI [of pw "Suc n" _ "Filter c' p" b' rest])
          (use more b' False f in \<open>auto simp: next_simps for_rows_wf\<close>)
    qed
  qed
qed

lemma delivers_Project:
  assumes d: "delivers pw c rs" and ys: "rmapM (project_row pw (op_schema c) items) rs = Inr ys"
  shows "delivers pw (Project c items) ys"
  using d
proof (cases rule: deliversE)
  case (stop n c' b)
  show ?thesis
    by (intro deliversI [of pw "Suc n" _ "Project c' items" "mk_batch (item_schema items)" "[]"])
      (use stop ys in \<open>auto simp: next_simps\<close>)
next
  case (more n c' b rs')
  from ys [unfolded more(9) rmapM_append] obtain out rest where
    f: "rmapM (project_row pw (op_schema c) items) (rows_of b) = Inr out"
      "rmapM (project_row pw (op_schema c) items) rs' = Inr rest" "ys = out @ rest"
    by (auto simp: res_simps)
  obtain b' where b': "rfold (\<lambda>b r. rbind (project_row pw (op_schema c) items r) (appendRow b))
        (mk_batch (item_schema items)) (rows_of b) = Inr b'"
      "wf_batch b'" "b_schema b' = item_schema items" "rows_of b' = out"
    using rfold_append_mapped [OF f(1), of "mk_batch (item_schema items)"] project_rows_wide [OF f(1)] by auto
  have "out \<noteq> []" using rmapM_length [OF f(1)] more(2) by (auto simp: batch_empty_def)
  with f show ?thesis
    by (intro deliversI [of pw "Suc n" _ "Project c' items" b' rest])
      (use more b' f in \<open>auto simp: next_simps for_rows_wf\<close>)
qed

lemma delivers_Limit:
  assumes child: "\<And>c rs. op_depth c = d \<Longrightarrow> wf_op c \<Longrightarrow> pending pw c = Inr rs \<Longrightarrow> delivers pw c rs"
  shows "op_depth c = d \<Longrightarrow> wf_op c \<Longrightarrow> pending pw c = Inr rs \<Longrightarrow>
    delivers pw (Limit c lim off em sk) (fst (limited lim off em sk rs))"
proof (induction "length rs" arbitrary: c rs em sk rule: less_induct)
  case less
  have stop_now: "delivers pw (Limit c lim off em sk) []" if "0 \<le> lim \<and> lim \<le> em"
    using that less.prems
    by (intro deliversI [of pw "Suc 0" _ "Limit c lim off em sk" "mk_batch (op_schema c)" "[]"])
      (auto simp: next_simps Let_def)
  show ?case
  proof (cases "0 \<le> lim \<and> lim \<le> em")
    case True
    then show ?thesis using stop_now limited_done by simp
  next
    case go: False
    from child [OF less.prems] show ?thesis
    proof (cases rule: deliversE)
      case (stop n c' b)
      have "pending pw (Limit c' lim off em sk) = Inr []" using stop by (simp add: Let_def)
      then show ?thesis
        by (intro deliversI [of pw "Suc n" _ "Limit c' lim off em sk" "mk_batch (op_schema c)" "[]"])
          (use stop less.prems go in \<open>auto simp: next_simps simp del: pending.simps\<close>)
    next
      case (more n c' b rs')
      obtain out em' sk' where l: "limited lim off em sk (rows_of b) = (out, em', sk')"
        by (cases "limited lim off em sk (rows_of b)") auto
      have split: "fst (limited lim off em sk rs) = out @ fst (limited lim off em' sk' rs')"
        unfolding more(9) limited_append l by (simp split: prod.splits)
      obtain b' where b': "limit_rows lim off (mk_batch (op_schema c), em, sk) b = Inr (b', em', sk')"
          "wf_batch b'" "b_schema b' = op_schema c" "rows_of b' = out"
        using rfold_limit_batch [of "mk_batch (op_schema c)" "rows_of b" lim off em sk]
          rows_of_width [OF more(7)] more(8) l limit_rows_wf [OF more(7)] by auto
      have pend: "pending pw (Limit c' lim off em' sk') = Inr (fst (limited lim off em' sk' rs'))"
        using more(6) by (simp add: limited_take_drop)
      show ?thesis
      proof (cases "batch_empty b'")
        case False
        with b'(4) have "out \<noteq> []" by (simp add: batch_empty_rows)
        then show ?thesis
          by (intro deliversI [of pw "Suc n" _ "Limit c' lim off em' sk'" b' "fst (limited lim off em' sk' rs')"])
            (use more b' False go pend split in \<open>auto simp: next_simps simp del: pending.simps\<close>)
      next
        case empty: True
        with b'(4) have out: "out = []" by (simp add: batch_empty_rows)
        show ?thesis
        proof (cases "0 \<le> lim \<and> lim \<le> em'")
          case True
          with limited_done have "fst (limited lim off em' sk' rs') = []" by simp
          with pend split out show ?thesis
            by (intro deliversI [of pw "Suc n" _ "Limit c' lim off em' sk'" "mk_batch (op_schema c)" "[]"])
              (use more b' empty go True in \<open>auto simp: next_simps simp del: pending.simps\<close>)
        next
          case False
          have del: "delivers pw (Limit c' lim off em' sk') (fst (limited lim off em sk rs))"
            unfolding split out using less.hyps [OF more(10)] less.prems(1) more by simp
          have step: "next_batch pw (Suc m) (Limit c lim off em sk) = next_batch pw m (Limit c' lim off em' sk')"
            if "n \<le> m" for m
            using more(1) [OF that] more(2,7) b'(1) empty go False by (auto simp: next_simps)
          show ?thesis
        by (rule delivers_later [of n, OF _ del]) (use step more in auto)
        qed
      qed
    qed
  qed
qed


text \<open>
  The \<open>build\<close> loops: an operator \<open>mk c a False\<close> that folds the batches of its child \<open>c\<close> into \<open>a\<close>
  with \<open>f\<close>, and at their end turns \<open>a\<close> with \<open>fin\<close> into the operator \<open>mk c a True\<close>.
\<close>

lemma delivers_build:
  assumes child: "\<And>c rs. op_depth c = d \<Longrightarrow> wf_op c \<Longrightarrow> pending pw c = Inr rs \<Longrightarrow> delivers pw c rs"
    and more_step: "\<And>n c c' b a a'. next_batch pw n c = Inr (c', b) \<Longrightarrow> \<not> batch_empty b \<Longrightarrow> op_schema c = s \<Longrightarrow>
       wf_batch b \<Longrightarrow> rfold f a (rows_of b) = Inr a' \<Longrightarrow>
       next_batch pw (Suc n) (mk c a False) = next_batch pw n (mk c' a' False)"
    and stop_step: "\<And>n c c' b a a'. next_batch pw n c = Inr (c', b) \<Longrightarrow> batch_empty b \<Longrightarrow> op_schema c = s \<Longrightarrow>
       fin a = Inr a' \<Longrightarrow> next_batch pw (Suc n) (mk c a False) = next_batch pw n (mk c' a' True)"
    and same: "\<And>c c' a a' x. op_depth c' = op_depth c \<Longrightarrow> op_schema c' = op_schema c \<Longrightarrow>
       op_depth (mk c' a' x) = op_depth (mk c a False) \<and> op_schema (mk c' a' x) = op_schema (mk c a False)"
    and built: "\<And>c a. op_depth c = d \<Longrightarrow> wf_op c \<Longrightarrow> op_schema c = s \<Longrightarrow> P a \<Longrightarrow> delivers pw (mk c a True) (out a)"
  shows "op_depth c = d \<Longrightarrow> wf_op c \<Longrightarrow> op_schema c = s \<Longrightarrow> pending pw c = Inr rs \<Longrightarrow>
     rbind (rfold f a rs) fin = Inr a2 \<Longrightarrow> P a2 \<Longrightarrow> delivers pw (mk c a False) (out a2)"
proof (induction "length rs" arbitrary: c rs a rule: less_induct)
  case less
  from child [OF less.prems(1,2,4)] show ?case
  proof (cases rule: deliversE)
    case (stop n c' b)
    have del: "delivers pw (mk c' a2 True) (out a2)"
      using built [of c' a2] stop less.prems by simp
    have step: "next_batch pw (Suc m) (mk c a False) = next_batch pw m (mk c' a2 True)" if "n \<le> m" for m
      using stop_step [OF stop(1) [OF that] stop(2) less.prems(3)] less.prems(5) stop(3) by simp
    show ?thesis
      by (rule delivers_later [of n, OF _ del]) (use step same [OF stop(5,6)] in auto)
  next
    case (more n c' b rs')
    from less.prems(5) [unfolded more(9) rfold_append] obtain a' where
      a': "rfold f a (rows_of b) = Inr a'" "rbind (rfold f a' rs') fin = Inr a2"
      by (auto simp: res_simps)
    have del: "delivers pw (mk c' a' False) (out a2)"
      using less.hyps [OF more(10), of c' a'] less.prems a'(2) more by simp
    have step: "next_batch pw (Suc m) (mk c a False) = next_batch pw m (mk c' a' False)" if "n \<le> m" for m
      by (rule more_step [OF more(1) [OF that] more(2) less.prems(3) more(7) a'(1)])
    show ?thesis
      by (rule delivers_later [of n, OF _ del]) (use step same [OF more(4,5)] in auto)
  qed
qed

lemma rfold_collect: "rfold (\<lambda>rs r. Inr (rs @ [r])) rows xs = Inr (rows @ xs)"
  by (induction xs arbitrary: rows) auto

lemma rfold_collect_fst: "rfold (\<lambda>a r. Inr (fst a @ [r], snd a)) a xs = Inr (fst a @ xs, snd a)"
  by (induction xs arbitrary: a) auto

lemma rfold_distinct:
  "rfold (\<lambda>st r. Inr (distinct_step st r)) st xs = Inr (fold (\<lambda>r st. distinct_step st r) xs st)"
  by (induction xs arbitrary: st) auto

lemma delivers_Sort_built:
  assumes "wf_op (Sort c ks rows True cur)"
  shows "delivers pw (Sort c ks rows True cur) (drop cur rows)"
proof -
  from assms emit_rows_ok [where s = "op_schema c" and rows = rows and cur = cur] obtain b cur'
    where b: "emit_rows (op_schema c) rows cur = Inr (b, cur')"
      "wf_batch b" "b_schema b = op_schema c" "drop cur rows = rows_of b @ drop cur' rows"
      "rows_of b = [] \<Longrightarrow> drop cur' rows = []" by auto
  show ?thesis
    by (rule deliversI [of pw "Suc 0" _ "Sort c ks rows True cur'" b "drop cur' rows"])
      (use b assms in \<open>auto simp: next_simps\<close>)
qed

lemma delivers_Distinct_built:
  assumes "wf_op (Distinct c sn rows True cur)"
  shows "delivers pw (Distinct c sn rows True cur) (drop cur rows)"
proof -
  from assms emit_rows_ok [where s = "op_schema c" and rows = rows and cur = cur] obtain b cur'
    where b: "emit_rows (op_schema c) rows cur = Inr (b, cur')"
      "wf_batch b" "b_schema b = op_schema c" "drop cur rows = rows_of b @ drop cur' rows"
      "rows_of b = [] \<Longrightarrow> drop cur' rows = []" by auto
  show ?thesis
    by (rule deliversI [of pw "Suc 0" _ "Distinct c sn rows True cur'" b "drop cur' rows"])
      (use b assms in \<open>auto simp: next_simps\<close>)
qed

lemma delivers_HashJoin_built:
  assumes "wf_op (HashJoin l r ty cond s ls rs ld res True cur)"
  shows "delivers pw (HashJoin l r ty cond s ls rs ld res True cur) (drop cur res)"
proof -
  from assms emit_rows_ok [where s = s and rows = res and cur = cur] obtain b cur'
    where b: "emit_rows s res cur = Inr (b, cur')" "wf_batch b" "b_schema b = s"
      "drop cur res = rows_of b @ drop cur' res" "rows_of b = [] \<Longrightarrow> drop cur' res = []" by auto
  show ?thesis
    by (rule deliversI [of pw "Suc 0" _ "HashJoin l r ty cond s ls rs ld res True cur'" b "drop cur' res"])
      (use b assms in \<open>auto simp: next_simps\<close>)
qed

lemma delivers_HashAggregate_built:
  assumes wf: "wf_op (HashAggregate c keys names aggs gs True cur)"
    and rs: "agg_rows aggs (fst gs, drop cur (snd gs)) = Inr rs"
  shows "delivers pw (HashAggregate c keys names aggs gs True cur) rs"
proof (cases "length (snd gs) \<le> cur")
  case True
  with rs wf show ?thesis
    by (intro deliversI [of pw "Suc 0" _ "HashAggregate c keys names aggs gs True cur"
          "mk_batch (agg_schema names aggs)" "[]"])
      (auto simp: next_simps emit_groups_def agg_rows_def)
next
  case False
  let ?e = "min (cur + kDefaultBatchSize) (length (snd gs))"
  let ?ks = "take (?e - cur) (drop cur (snd gs))"
  have split: "drop cur (snd gs) = ?ks @ drop ?e (snd gs)"
    using False by (metis add.commute append_take_drop_id drop_drop le_add_diff_inverse2 linorder_not_le
        min.bounded_iff le_add1 less_imp_le)
  have "agg_rows aggs (fst gs, ?ks @ drop ?e (snd gs)) = Inr rs"
    unfolding split [symmetric] by (rule rs)
  then obtain out rest where a: "agg_rows aggs (fst gs, ?ks) = Inr out"
      "agg_rows aggs (fst gs, drop ?e (snd gs)) = Inr rest" "rs = out @ rest"
    unfolding agg_rows_def snd_conv fst_conv rmapM_append by (auto simp: res_simps)
  have "wf_groups (length keys) (length aggs) (fst gs, ?ks)" using wf by (simp add: wf_groups_def)
  from agg_rows_wide [OF a(1) this] wf have "wide (length (agg_schema names aggs)) out" by simp
  with appendRows_Inr [of "mk_batch (agg_schema names aggs)" out] obtain b where
    b: "appendRows (mk_batch (agg_schema names aggs)) out = Inr b" "wf_batch b" "rows_of b = out"
      "b_schema b = agg_schema names aggs" by auto
  have "length out = length ?ks" using a(1) unfolding agg_rows_def by (auto dest: rmapM_length)
  then have "out \<noteq> []" using False by (auto simp: kDefaultBatchSize_def)
  then show ?thesis
    by (intro deliversI [of pw "Suc 0" _ "HashAggregate c keys names aggs gs True ?e" b rest])
      (use False a b wf in \<open>auto simp: next_simps emit_groups_def Let_def\<close>)
qed

lemma delivers_Sort:
  assumes child: "\<And>c rs. op_depth c = d \<Longrightarrow> wf_op c \<Longrightarrow> pending pw c = Inr rs \<Longrightarrow> delivers pw c rs"
    and "op_depth c = d" "wf_op (Sort c ks rows built cur)" "pending pw (Sort c ks rows built cur) = Inr ys"
  shows "delivers pw (Sort c ks rows built cur) ys"
proof (cases built)
  case False
  with assms(4) obtain rs zs where rs: "pending pw c = Inr rs" "ys = drop cur zs"
      "sort_rows pw (op_schema c) ks (rows @ rs) = Inr zs"
    by (auto simp: res_simps)
  have wide: "wide (length (op_schema c)) zs"
    using sort_rows_set [OF rs(3)] assms(3) pending_wide [OF _ rs(1)] by auto
  have "delivers pw (Sort c ks rows False cur) (drop cur zs)"
    by (rule delivers_build [where mk = "\<lambda>c a x. Sort c ks a x cur" and f = "\<lambda>rs r. Inr (rs @ [r])"
          and fin = "sort_rows pw (op_schema c) ks" and s = "op_schema c" and d = d and rs = rs
          and P = "wide (length (op_schema c))" and out = "drop cur"])
      (use child assms rs wide in \<open>auto simp: next_simps for_rows_wf rfold_collect intro: delivers_Sort_built\<close>)
  with False rs(2) show ?thesis by simp
qed (use assms in \<open>auto intro: delivers_Sort_built\<close>)

lemma delivers_Distinct:
  assumes child: "\<And>c rs. op_depth c = d \<Longrightarrow> wf_op c \<Longrightarrow> pending pw c = Inr rs \<Longrightarrow> delivers pw c rs"
    and "op_depth c = d" "wf_op (Distinct c sn rows built cur)" "pending pw (Distinct c sn rows built cur) = Inr ys"
  shows "delivers pw (Distinct c sn rows built cur) ys"
proof (cases built)
  case False
  with assms(4) obtain rs where rs: "pending pw c = Inr rs" "ys = drop cur (rows @ first_rows (set sn) rs)"
    by (auto simp: res_simps)
  let ?st = "fold (\<lambda>r st. distinct_step st r) rs (sn, rows)"
  have st: "snd ?st = rows @ first_rows (set sn) rs" by (simp add: distinct_fold)
  have wide: "wide (length (op_schema c)) (snd ?st)"
    using assms(3) pending_wide [OF _ rs(1)] first_rows_set unfolding st by auto
  have "delivers pw (Distinct c (fst (sn, rows)) (snd (sn, rows)) False cur) (drop cur (snd ?st))"
    by (rule delivers_build [where mk = "\<lambda>c a x. Distinct c (fst a) (snd a) x cur"
          and f = "\<lambda>st r. Inr (distinct_step st r)" and fin = Inr and s = "op_schema c" and d = d and rs = rs
          and P = "\<lambda>a. wide (length (op_schema c)) (snd a)" and out = "\<lambda>a. drop cur (snd a)"])
      (use child assms rs wide in \<open>auto simp: next_simps for_rows_wf rfold_distinct split: prod.splits
         intro: delivers_Distinct_built\<close>)
  with False rs(2) st show ?thesis by simp
qed (use assms in \<open>auto intro: delivers_Distinct_built\<close>)


lemma delivers_HashAggregate:
  assumes child: "\<And>c rs. op_depth c = d \<Longrightarrow> wf_op c \<Longrightarrow> pending pw c = Inr rs \<Longrightarrow> delivers pw c rs"
    and "op_depth c = d" and wf: "wf_op (HashAggregate c keys names aggs gs built cur)"
    and "pending pw (HashAggregate c keys names aggs gs built cur) = Inr ys"
  shows "delivers pw (HashAggregate c keys names aggs gs built cur) ys"
proof (cases built)
  case False
  with assms(4) obtain rs gs1 where rs: "pending pw c = Inr rs"
      "rfold (agg_absorb pw (op_schema c) keys aggs) gs rs = Inr gs1"
      "agg_rows aggs (fst (agg_finish keys aggs gs1), drop cur (snd (agg_finish keys aggs gs1))) = Inr ys"
    by (auto simp: res_simps simp del: split_paired_All split_paired_Ex)
  let ?gs = "agg_finish keys aggs gs1"
  let ?P = "\<lambda>gs. wf_groups (length keys) (length aggs) gs \<and> length names = length keys
      \<and> agg_rows aggs (fst gs, drop cur (snd gs)) = Inr ys"
  have P: "?P ?gs" using rs wf by (auto intro: agg_finish_wf agg_fold_wf)
  have "delivers pw (HashAggregate c keys names aggs gs False cur) ys"
    by (rule delivers_build [where mk = "\<lambda>c a x. HashAggregate c keys names aggs a x cur"
          and f = "agg_absorb pw (op_schema c) keys aggs" and fin = "\<lambda>gs. Inr (agg_finish keys aggs gs)"
          and s = "op_schema c" and d = d and rs = rs and P = ?P and out = "\<lambda>_. ys"])
      (use child assms(2) wf rs P in \<open>auto simp: next_simps for_rows_wf
         intro: delivers_HashAggregate_built\<close>)
  with False show ?thesis by simp
qed (use assms in \<open>auto intro: delivers_HashAggregate_built\<close>)

lemma delivers_HashJoin:
  assumes left: "\<And>c rs. op_depth c = d1 \<Longrightarrow> wf_op c \<Longrightarrow> pending pw c = Inr rs \<Longrightarrow> delivers pw c rs"
    and right: "\<And>c rs. op_depth c = d2 \<Longrightarrow> wf_op c \<Longrightarrow> pending pw c = Inr rs \<Longrightarrow> delivers pw c rs"
    and d: "op_depth l = d1" "op_depth r = d2"
    and wf: "wf_op (HashJoin l r ty cond s ls rs ld res built cur)"
    and ys: "pending pw (HashJoin l r ty cond s ls rs ld res built cur) = Inr ys"
  shows "delivers pw (HashJoin l r ty cond s ls rs ld res built cur) ys"
proof (cases built)
  case False
  with ys obtain ls' rs' out where p: "(if ld then Inr [] else pending pw l) = Inr ls'"
      "pending pw r = Inr rs'" "ys = drop cur out"
      "computeResult pw ty cond (op_schema l) (op_schema r) (ls @ ls') (rs @ rs') = Inr out"
    by (auto simp: res_simps)
  have wl: "wide (length (op_schema l)) (ls @ ls')"
    using p(1) pending_wide [of l pw ls'] wf by (auto split: if_splits)
  have wr: "wide (length (op_schema r)) (rs @ rs')"
    using p(2) pending_wide [of r pw rs'] wf by auto
  have wo: "wide (length s) out" using computeResult_wide [OF p(4) wl wr] wf by simp
  have phase2: "delivers pw (HashJoin l' r ty cond s (ls @ ls') rs True res False cur) ys"
    if l': "wf_op l'" "op_schema l' = op_schema l" for l'
  proof -
    have "delivers pw (HashJoin l' r ty cond s (ls @ ls') (fst (rs, res)) True (snd (rs, res)) False cur) (drop cur (snd (rs @ rs', out)))"
      by (rule delivers_build [where mk = "\<lambda>r a x. HashJoin l' r ty cond s (ls @ ls') (fst a) True (snd a) x cur"
            and f = "\<lambda>a r. Inr (fst a @ [r], snd a)"
            and fin = "\<lambda>a. rmap (\<lambda>out. (fst a, out)) (computeResult pw ty cond (op_schema l) (op_schema r) (ls @ ls') (fst a))"
            and s = "op_schema r" and d = d2 and rs = rs'
            and P = "\<lambda>a. wide (length (op_schema r)) (fst a) \<and> wide (length s) (snd a)"
            and out = "\<lambda>a. drop cur (snd a)"])
        (use right d l' wf p wl wr wo in \<open>auto simp: next_simps for_rows_wf rfold_collect rfold_collect_fst rmap_eq_Inr
           intro: delivers_HashJoin_built\<close>)
    then show ?thesis by (simp add: p(3))
  qed
  show ?thesis
  proof (cases ld)
    case True
    with phase2 [of l] p(1) wf False show ?thesis by simp
  next
    case ld: False
    have "delivers pw (HashJoin l r ty cond s ls rs False res False cur) ys"
      by (rule delivers_build [where mk = "\<lambda>l a x. HashJoin l r ty cond s a rs x res False cur"
            and f = "\<lambda>rs r. Inr (rs @ [r])" and fin = Inr and s = "op_schema l" and d = d1 and rs = ls'
            and P = "\<lambda>a. a = ls @ ls'" and out = "\<lambda>_. ys"])
        (use left d wf p(1) ld phase2 in \<open>auto simp: next_simps for_rows_wf rfold_collect\<close>)
    with False ld show ?thesis by simp
  qed
qed (use wf ys in \<open>auto intro: delivers_HashJoin_built\<close>)

lemma delivers_Append:
  assumes left: "\<And>c rs. op_depth c = d1 \<Longrightarrow> wf_op c \<Longrightarrow> pending pw c = Inr rs \<Longrightarrow> delivers pw c rs"
    and right: "\<And>c rs. op_depth c = d2 \<Longrightarrow> wf_op c \<Longrightarrow> pending pw c = Inr rs \<Longrightarrow> delivers pw c rs"
    and d: "op_depth l = d1" "op_depth r = d2"
    and wf: "wf_op (Append l r x)"
    and ys: "pending pw (Append l r x) = Inr ys"
  shows "delivers pw (Append l r x) ys"
proof -
  have phase2: "delivers pw (Append l r True) rs" if l: "wf_op (Append l r True)" "pending pw r = Inr rs" for l rs
  proof -
    have "wf_op r" using l(1) by simp
    from right [OF d(2) this l(2)] show ?thesis
    proof (cases rule: deliversE)
      case (stop n c' b)
      show ?thesis
        by (rule deliversI [of pw "Suc n" _ "Append l c' True" "mk_batch (op_schema l)" "[]"])
          (use stop l in \<open>auto simp: next_simps\<close>)
    next
      case (more n c' b rs')
      have "length q = length (op_schema l)" if "q \<in> set (rows_of b)" for q
        using rows_of_width [OF more(7) that] more(8) l(1) by simp
      with rfold_append_batch [of "mk_batch (op_schema l)" "rows_of b"] obtain b' where
        b': "rfold appendRow (mk_batch (op_schema l)) (rows_of b) = Inr b'" "wf_batch b'"
          "b_schema b' = op_schema l" "rows_of b' = rows_of b" by auto
      have "rows_of b \<noteq> []" using more(2) by (simp add: batch_empty_rows)
      then show ?thesis
        by (intro deliversI [of pw "Suc n" _ "Append l c' True" b' rs'])
          (use more b' l in \<open>auto simp: next_simps for_rows_wf\<close>)
    qed
  qed
  show ?thesis
  proof (cases x)
    case True
    with phase2 [of l ys] wf ys show ?thesis by (auto simp: rmap_eq_Inr)
  next
    case False
    with ys obtain ls rs where p: "pending pw l = Inr ls" "pending pw r = Inr rs" "ys = ls @ rs"
      by (auto simp: res_simps)
    have "wf_op l" using wf by simp
    from left [OF d(1) this p(1)] show ?thesis
    proof (cases rule: deliversE)
      case (stop n c' b)
      have del: "delivers pw (Append c' r True) ys"
        using phase2 [of c' rs] stop p wf by simp
      have step: "next_batch pw (Suc m) (Append l r x) = next_batch pw m (Append c' r True)" if "n \<le> m" for m
        using stop(1) [OF that] stop(2) False by (simp add: next_simps)
      show ?thesis
        by (rule delivers_later [of n, OF _ del]) (use step stop in auto)
    next
      case (more n c' b rs')
      have "rows_of b \<noteq> []" using more(2) by (simp add: batch_empty_rows)
      then show ?thesis
        by (intro deliversI [of pw "Suc n" _ "Append c' r False" b "rs' @ rs"])
          (use more p wf False in \<open>auto simp: next_simps\<close>)
    qed
  qed
qed

lemma pending_delivered: "wf_op o1 \<Longrightarrow> pending pw o1 = Inr rs \<Longrightarrow> delivers pw o1 rs"
proof (induction "op_depth o1" arbitrary: o1 rs rule: less_induct)
  case less
  have child: "delivers pw c qs" if "op_depth c < op_depth o1" "wf_op c" "pending pw c = Inr qs" for c qs
    by (rule less.hyps [OF that])
  show ?case
  proof (cases o1)
    case (SeqScan t s cur)
    with less.prems delivers_SeqScan show ?thesis by auto
  next
    case (Filter c p)
    with less.prems obtain qs where "wf_op c" "pending pw c = Inr qs"
        "rfilter (\<lambda>r. evaluatePredicate pw (op_schema c) r p) qs = Inr rs"
      by (auto simp: res_simps)
    then show ?thesis
      unfolding Filter by (rule delivers_Filter [rotated 2]) (auto intro: child simp: Filter)
  next
    case (Project c items)
    with less.prems obtain qs where "wf_op c" "pending pw c = Inr qs"
        "rmapM (project_row pw (op_schema c) items) qs = Inr rs"
      by (auto simp: res_simps)
    then show ?thesis
      unfolding Project by (intro delivers_Project child) (simp_all add: Project)
  next
    case (Limit c lim off em sk)
    with less.prems obtain qs where c: "wf_op c" "pending pw c = Inr qs"
        "rs = fst (limited lim off em sk qs)"
      unfolding limited_take_drop by (auto simp: res_simps)
    show ?thesis
      unfolding Limit c(3) by (rule delivers_Limit [OF _ refl c(1,2)]) (auto intro: child simp: Limit)
  next
    case (Sort c ks rows built cur)
    show ?thesis
      unfolding Sort by (rule delivers_Sort [OF _ refl]) (use less.prems child in \<open>auto simp: Sort\<close>)
  next
    case (Distinct c sn rows built cur)
    show ?thesis
      unfolding Distinct by (rule delivers_Distinct [OF _ refl]) (use less.prems child in \<open>auto simp: Distinct\<close>)
  next
    case (HashAggregate c keys names aggs gs built cur)
    show ?thesis
      unfolding HashAggregate
      by (rule delivers_HashAggregate [OF _ refl])
        (use less.prems child in \<open>auto simp: HashAggregate simp del: pending.simps\<close>)
  next
    case (HashJoin l r ty cond s ls rs ld res built cur)
    show ?thesis
      unfolding HashJoin
      by (rule delivers_HashJoin [OF _ _ refl refl])
        (use less.prems child in \<open>auto simp: HashJoin simp del: pending.simps\<close>)
  next
    case (Append l r x)
    show ?thesis
      unfolding Append
      by (rule delivers_Append [OF _ _ refl refl])
        (use less.prems child in \<open>auto simp: Append simp del: pending.simps\<close>)
  next
    case (Values s rows cur)
    with less.prems delivers_Values show ?thesis by auto
  qed
qed


subsection \<open>The contract of a batch source\<close>

text \<open>
  What a consumer of batches relies on: while \<open>holds s rs\<close>, a pull returns the first of the rows
  \<open>rs\<close>, and an empty batch only when there are none. \<open>pull_all\<close> pulls until the empty batch.
\<close>

locale row_source =
  fixes pull :: "nat \<Rightarrow> 's \<Rightarrow> ('s \<times> batch) res"
    and holds :: "'s \<Rightarrow> row list \<Rightarrow> bool"
    and sch :: "'s \<Rightarrow> schema"
  assumes pull_ok: "holds s rs \<Longrightarrow> \<exists>n s' b rs'. pull n s = Inr (s', b) \<and> holds s' rs' \<and> sch s' = sch s
      \<and> wf_batch b \<and> b_schema b = sch s \<and> rs = rows_of b @ rs' \<and> (rows_of b = [] \<longrightarrow> rs' = [])"
    and pull_more: "pull n s = Inr x \<Longrightarrow> n \<le> m \<Longrightarrow> pull m s = Inr x"
begin

fun pull_all :: "nat \<Rightarrow> 's \<Rightarrow> batch list res" where
  "pull_all 0 s = Inl OutOfFuel"
| "pull_all (Suc n) s =
     rbind (pull n s) (\<lambda>(s', b). if batch_empty b then Inr [] else rmap (Cons b) (pull_all n s'))"

lemma pull_all_more: "pull_all n s = Inr bs \<Longrightarrow> n \<le> m \<Longrightarrow> pull_all m s = Inr bs"
proof (induction n arbitrary: s bs m)
  case (Suc n)
  then obtain k where k: "m = Suc k" "n \<le> k" by (cases m) auto
  from Suc.prems(1) obtain s' b where b: "pull n s = Inr (s', b)"
      "(if batch_empty b then Inr [] else rmap (Cons b) (pull_all n s')) = Inr bs"
    by (auto simp: res_simps)
  from b(2) Suc.IH [OF _ k(2)] have "(if batch_empty b then Inr [] else rmap (Cons b) (pull_all k s')) = Inr bs"
    by (auto simp: res_simps split: if_splits)
  with pull_more [OF b(1) k(2)] k(1) show ?case by simp
qed simp

text \<open>Pulling to the end delivers all rows, in batches that are not empty.\<close>

lemma pull_all_ok:
  "holds s rs \<Longrightarrow> \<exists>n bs. pull_all n s = Inr bs \<and> concat (map rows_of bs) = rs
     \<and> (\<forall>b \<in> set bs. wf_batch b \<and> b_schema b = sch s \<and> \<not> batch_empty b)"
proof (induction "length rs" arbitrary: s rs rule: less_induct)
  case less
  from pull_ok [OF less.prems] obtain n s' b rs' where p: "pull n s = Inr (s', b)" "holds s' rs'"
      "sch s' = sch s" "wf_batch b" "b_schema b = sch s" "rs = rows_of b @ rs'" "rows_of b = [] \<longrightarrow> rs' = []"
    by blast
  show ?case
  proof (cases "batch_empty b")
    case True
    then have "rows_of b = []" by (simp add: batch_empty_rows)
    with p True show ?thesis by (intro exI [of _ "Suc n"] exI [of _ "[]"]) simp
  next
    case False
    then have "length rs' < length rs" using p(6) by (simp add: batch_empty_def)
    from less.hyps [OF this p(2)] obtain k bs where k: "pull_all k s' = Inr bs" "concat (map rows_of bs) = rs'"
        "\<forall>b \<in> set bs. wf_batch b \<and> b_schema b = sch s \<and> \<not> batch_empty b"
      using p(3) by auto
    have "pull (max n k) s = Inr (s', b)" by (rule pull_more [OF p(1)]) simp
    moreover have "pull_all (max n k) s' = Inr bs" by (rule pull_all_more [OF k(1)]) simp
    ultimately show ?thesis
      using p k False by (intro exI [of _ "Suc (max n k)"] exI [of _ "b # bs"]) simp
  qed
qed

end

interpretation exec: row_source "next_batch pw" "\<lambda>o1 rs. wf_op o1 \<and> pending pw o1 = Inr rs" op_schema
  for pw
proof unfold_locales
  fix o1 rs
  assume "wf_op o1 \<and> pending pw o1 = Inr rs"
  then have "delivers pw o1 rs" by (simp add: pending_delivered)
  then show "\<exists>n o' b rs'. next_batch pw n o1 = Inr (o', b) \<and> (wf_op o' \<and> pending pw o' = Inr rs')
      \<and> op_schema o' = op_schema o1 \<and> wf_batch b \<and> b_schema b = op_schema o1 \<and> rs = rows_of b @ rs'
      \<and> (rows_of b = [] \<longrightarrow> rs' = [])"
    unfolding delivers_def by blast
qed (rule next_batch_mono)

lemma drain_loop_pulls:
  "exec.pull_all pw n o1 = Inr bs \<Longrightarrow> drain_loop pw n all o1 = rfold (\<lambda>a b. for_rows appendRow a b) all bs"
proof (induction n arbitrary: o1 bs all)
  case (Suc n)
  from Suc.prems obtain o' b where b: "next_batch pw n o1 = Inr (o', b)"
      "(if batch_empty b then Inr [] else rmap (Cons b) (exec.pull_all pw n o')) = Inr bs"
    by (auto simp: exec.pull_all.simps res_simps)
  show ?case
  proof (cases "batch_empty b")
    case False
    with b(2) obtain bs' where "exec.pull_all pw n o' = Inr bs'" "bs = b # bs'"
      by (auto simp: res_simps)
    with b(1) False Suc.IH show ?thesis by simp
  qed (use b in simp)
qed (simp add: exec.pull_all.simps)

lemma append_batches:
  "(\<forall>b \<in> set bs. wf_batch b \<and> b_schema b = b_schema a) \<Longrightarrow> wf_batch a \<Longrightarrow>
   \<exists>a'. rfold (\<lambda>a b. for_rows appendRow a b) a bs = Inr a' \<and> wf_batch a' \<and> b_schema a' = b_schema a
     \<and> rows_of a' = rows_of a @ concat (map rows_of bs)"
proof (induction bs arbitrary: a)
  case (Cons b bs)
  have "\<And>r. r \<in> set (rows_of b) \<Longrightarrow> length r = length (b_schema a)"
    using Cons.prems(1) rows_of_width [of b] by auto
  with rfold_append_batch [OF Cons.prems(2)] obtain a1 where
    a1: "rfold appendRow a (rows_of b) = Inr a1" "wf_batch a1" "b_schema a1 = b_schema a"
      "rows_of a1 = rows_of a @ rows_of b" by blast
  have same: "\<forall>b \<in> set bs. wf_batch b \<and> b_schema b = b_schema a1"
    using Cons.prems(1) a1(3) by simp
  obtain a' where "rfold (\<lambda>a b. for_rows appendRow a b) a1 bs = Inr a'" "wf_batch a'"
      "b_schema a' = b_schema a1" "rows_of a' = rows_of a1 @ concat (map rows_of bs)"
    using Cons.IH [OF same a1(2)] by blast
  moreover have "for_rows appendRow a b = Inr a1"
    using Cons.prems(1) for_rows_wf [of b appendRow a] a1(1) by simp
  ultimately show ?case
    unfolding rfold.simps list.map concat.simps using a1(3,4) by (intro exI [of _ a']) simp
qed simp

lemma drained:
  assumes "wf_op o1" "pending pw o1 = Inr rs"
  shows "\<exists>n all. (\<forall>m \<ge> n. drain pw m o1 = Inr all) \<and> wf_batch all
    \<and> b_schema all = op_schema o1 \<and> rows_of all = rs"
proof -
  from exec.pull_all_ok assms obtain n bs where bs: "exec.pull_all pw n o1 = Inr bs"
      "concat (map rows_of bs) = rs" "\<forall>b \<in> set bs. wf_batch b \<and> b_schema b = op_schema o1 \<and> \<not> batch_empty b"
    by blast
  from append_batches [of bs "mk_batch (op_schema o1)"] bs(2,3) obtain all where
    all: "rfold (\<lambda>a b. for_rows appendRow a b) (mk_batch (op_schema o1)) bs = Inr all" "wf_batch all"
      "b_schema all = op_schema o1" "rows_of all = rs" by auto
  have "drain pw m o1 = Inr all" if "n \<le> m" for m
    unfolding drain_def using drain_loop_pulls [OF exec.pull_all_more [OF bs(1) that]] all(1) by simp
  with all show ?thesis by blast
qed

text \<open>
  C1: a plan whose rows are defined (no expression throws on them) terminates, and the batch
  that \<open>drain\<close> collects holds exactly those rows, in order, whatever the batch boundaries.
\<close>

theorem drain_delivers_pending:
  assumes "wf_op o1" "pending pw o1 = Inr rs"
  shows "\<exists>n all. (\<forall>m \<ge> n. drain pw m o1 = Inr all) \<and> wf_batch all
    \<and> b_schema all = op_schema o1 \<and> rows_of all = rs"
  by (rule drained [OF assms])

definition demo_plan :: operator where
  "demo_plan = mk_Limit (mk_Sort (Filter (mk_Values demo_schema demo_rows)
       (BinaryExpr GTE (ColumnRef None None ''a'') (Literal (VI64 1)))) demo_keys) 1 1"

theorem drain_delivers_pending_witness:
  "\<exists>n all. (\<forall>m \<ge> n. drain (\<lambda>x y. x) m demo_plan = Inr all) \<and> wf_batch all
    \<and> b_schema all = op_schema demo_plan \<and> rows_of all = [[VI64 1, VStr ''x'']]"
proof -
  have "wf_op demo_plan"
    by (simp add: demo_plan_def mk_Limit_def mk_Sort_def mk_Values_def demo_rows_def demo_schema_def addColumn_def)
  moreover have "pending (\<lambda>x y. x) demo_plan = Inr [[VI64 1, VStr ''x'']]" by code_simp
  ultimately show ?thesis by (rule drain_delivers_pending)
qed

text \<open>
  \<open>reset\<close> rewinds a plan of streaming operators to its start, and not one with a \<open>Sort\<close>: a
  sorted plan that has been read and reset has nothing pending.
\<close>

fun rewinds :: "operator \<Rightarrow> bool" where
  "rewinds (SeqScan t s cur) = True"
| "rewinds (Filter c p) = rewinds c"
| "rewinds (Project c items) = rewinds c"
| "rewinds (Limit c lim off em sk) = rewinds c"
| "rewinds (HashJoin l r ty cond s ls rs ld res built cur) = (rewinds l \<and> rewinds r)"
| "rewinds (Append l r d) = (rewinds l \<and> rewinds r)"
| "rewinds (Values s rows cur) = True"
| "rewinds _ = False"

definition same_start :: "operator \<Rightarrow> operator \<Rightarrow> bool" where
  "same_start o1 o2 = (rewinds o1 \<longrightarrow> rewinds o2 \<and> op_reset o2 = op_reset o1)"

lemma start_SeqScan:
  assumes "\<And>o1 o2 b. nx o1 = Inr (o2, b) \<Longrightarrow> same_start o1 o2" "op_next pw nx (SeqScan t s cur) = Inr (o2, b)"
  shows "same_start (SeqScan t s cur) o2"
  using assms(2) unfolding next_simps same_start_def
  by (auto simp: rbind_eq_Inr rmap_eq_Inr split: if_splits prod.splits dest!: assms(1) [unfolded same_start_def])

lemma start_Filter:
  assumes "\<And>o1 o2 b. nx o1 = Inr (o2, b) \<Longrightarrow> same_start o1 o2" "op_next pw nx (Filter c p) = Inr (o2, b)"
  shows "same_start (Filter c p) o2"
  using assms(2) unfolding next_simps same_start_def
  by (auto simp: rbind_eq_Inr rmap_eq_Inr split: if_splits prod.splits dest!: assms(1) [unfolded same_start_def])

lemma start_Project:
  assumes "\<And>o1 o2 b. nx o1 = Inr (o2, b) \<Longrightarrow> same_start o1 o2" "op_next pw nx (Project c items) = Inr (o2, b)"
  shows "same_start (Project c items) o2"
  using assms(2) unfolding next_simps same_start_def
  by (auto simp: rbind_eq_Inr rmap_eq_Inr split: if_splits prod.splits dest!: assms(1) [unfolded same_start_def])

lemma start_Limit:
  assumes "\<And>o1 o2 b. nx o1 = Inr (o2, b) \<Longrightarrow> same_start o1 o2" "op_next pw nx (Limit c lim off em sk) = Inr (o2, b)"
  shows "same_start (Limit c lim off em sk) o2"
  using assms(2) unfolding next_simps same_start_def
  by (auto simp: rbind_eq_Inr rmap_eq_Inr split: if_splits prod.splits dest!: assms(1) [unfolded same_start_def])

lemma start_HashJoin:
  assumes "\<And>o1 o2 b. nx o1 = Inr (o2, b) \<Longrightarrow> same_start o1 o2" "op_next pw nx (HashJoin l r ty cond s ls rs ld res built cur) = Inr (o2, b)"
  shows "same_start (HashJoin l r ty cond s ls rs ld res built cur) o2"
  using assms(2) unfolding next_simps same_start_def
  by (auto simp: rbind_eq_Inr rmap_eq_Inr split: if_splits prod.splits dest!: assms(1) [unfolded same_start_def])

lemma start_Append:
  assumes "\<And>o1 o2 b. nx o1 = Inr (o2, b) \<Longrightarrow> same_start o1 o2" "op_next pw nx (Append l r d) = Inr (o2, b)"
  shows "same_start (Append l r d) o2"
  using assms(2) unfolding next_simps same_start_def
  by (auto simp: rbind_eq_Inr rmap_eq_Inr split: if_splits prod.splits dest!: assms(1) [unfolded same_start_def])

lemma start_Values:
  assumes "\<And>o1 o2 b. nx o1 = Inr (o2, b) \<Longrightarrow> same_start o1 o2" "op_next pw nx (Values s rows cur) = Inr (o2, b)"
  shows "same_start (Values s rows cur) o2"
  using assms(2) unfolding next_simps same_start_def
  by (auto simp: rbind_eq_Inr rmap_eq_Inr split: if_splits prod.splits dest!: assms(1) [unfolded same_start_def])


lemmas start_operators = start_SeqScan start_Filter start_Project start_Limit start_HashJoin start_Append start_Values

lemma next_same_start: "next_batch pw n o1 = Inr (o2, b) \<Longrightarrow> same_start o1 o2"
proof (induction n arbitrary: o1 o2 b)
  case 0
  then show ?case by (simp add: next_batch.simps)
next
  case (Suc n)
  then have step: "op_next pw (next_batch pw n) o1 = Inr (o2, b)" by (simp add: next_batch.simps)
  show ?case
  proof (cases "rewinds o1")
    case True
    with step show ?thesis
      by (cases o1) (auto simp del: op_next.simps intro: start_operators [of "next_batch pw n", OF Suc.IH])
  qed (simp add: same_start_def)
qed

inductive pulled :: "(f64 \<Rightarrow> f64 \<Rightarrow> f64) \<Rightarrow> operator \<Rightarrow> operator \<Rightarrow> bool" for pw where
  pulled_refl: "pulled pw o1 o1"
| pulled_next: "pulled pw o1 o2 \<Longrightarrow> next_batch pw n o2 = Inr (o3, b) \<Longrightarrow> pulled pw o1 o3"

lemma pulled_same_start: "pulled pw o1 o2 \<Longrightarrow> same_start o1 o2"
  by (induction rule: pulled.induct) (auto simp: same_start_def dest!: next_same_start)

text \<open>
  C19: however many batches were pulled from a plan of scans, filters, projections, limits,
  joins and appends, \<open>reset\<close> brings it back to its start, and it delivers the same rows again.
\<close>

theorem reset_rewinds_streaming_plans:
  assumes "pulled pw o1 o2" "rewinds o1" "op_reset o1 = o1"
  shows "op_reset o2 = o1 \<and> pending pw (op_reset o2) = pending pw o1"
  using pulled_same_start [OF assms(1)] assms(2,3) by (simp add: same_start_def)

definition demo_values :: operator where
  "demo_values = mk_Values demo_schema demo_rows"

theorem reset_rewinds_streaming_plans_witness:
  "\<exists>o2. o2 \<noteq> demo_values \<and> op_reset o2 = demo_values \<and> pending (\<lambda>x y. x) (op_reset o2) = Inr demo_rows"
proof -
  have "rmap snd (emit_rows demo_schema demo_rows 0) = Inr 4" by code_simp
  then obtain b where b: "emit_rows demo_schema demo_rows 0 = Inr (b, 4)" by (auto simp: rmap_eq_Inr)
  let ?o = "Values demo_schema demo_rows 4"
  have o2: "next_batch (\<lambda>x y. x) (Suc 0) demo_values = Inr (?o, b)" "?o \<noteq> demo_values"
    by (simp_all add: demo_values_def mk_Values_def next_simps b)
  then have "pulled (\<lambda>x y. x) demo_values ?o" by (blast intro: pulled.intros)
  from reset_rewinds_streaming_plans [OF this] o2(2) show ?thesis
    by (auto simp: demo_values_def mk_Values_def)
qed

text \<open>Where it does not: a sorted plan that was read to its end has no rows after a reset.\<close>

lemma reset_keeps_child: "pending pw c = Inr [] \<Longrightarrow> pending pw (op_reset (Sort c ks rows True cur)) = Inr []"
  by (simp add: sort_rows_def)

end
