(* ===== verification/LQ_Catalog.thy ===== *)
theory LQ_Catalog
  imports LQ_Table "HOL-Library.AList"
begin

section \<open>The catalog\<close>

text \<open>
  Model of \<open>src/catalog/catalog.h\<close>: names to tables. The code keeps an \<open>std::unordered_map\<close>
  of \<open>shared_ptr<Table>\<close>; the model is an association list whose order stands for the
  (unspecified) iteration order of the map. A table that was fetched by \<open>getTable\<close> and then
  mutated is the catalog's own object: \<open>writeTable\<close> is that write through the pointer.
  The \<open>shared_mutex\<close> serialises the operations, each of which is one step here.
  Lemmas: the catalog meets the contract of a finite map (locale \<open>registry\<close>, interpretation
  \<open>cat\<close>), and every operation keeps \<open>wf_catalog\<close>.
\<close>

record catalog =
  tables :: "(string \<times> table) list"
  nextNodeId :: "32 word"

definition catalog_new :: catalog where
  "catalog_new = \<lparr>tables = [], nextNodeId = 0\<rparr>"

definition cat_put :: "string \<Rightarrow> table \<Rightarrow> catalog \<Rightarrow> catalog" where
  "cat_put n t c = c\<lparr>tables := AList.update n t (tables c)\<rparr>"

definition registerSchema :: "catalog \<Rightarrow> string \<Rightarrow> schema \<Rightarrow> catalog" where
  "registerSchema c n s = cat_put n (table_new n s) c"

definition registerTable :: "catalog \<Rightarrow> table \<Rightarrow> catalog" where
  "registerTable c t = cat_put (t_name t) t c"

definition cat_get :: "catalog \<Rightarrow> string \<Rightarrow> table option" where
  "cat_get c n = map_of (tables c) n"

definition cat_remove :: "string \<Rightarrow> catalog \<Rightarrow> catalog" where
  "cat_remove n c = c\<lparr>tables := AList.delete n (tables c)\<rparr>"

text \<open>\<open>dropTable\<close> returns whether the table existed.\<close>

definition dropTable :: "catalog \<Rightarrow> string \<Rightarrow> catalog \<times> bool" where
  "dropTable c n = (cat_remove n c, cat_get c n \<noteq> None)"

definition getTable :: "catalog \<Rightarrow> string \<Rightarrow> table res" where
  "getTable c n = (case cat_get c n of
       None \<Rightarrow> Inl (RuntimeError (''Unknown table: '' @ n))
     | Some t \<Rightarrow> Inr t)"

definition getSchema :: "catalog \<Rightarrow> string \<Rightarrow> schema res" where
  "getSchema c n = rmap t_schema (getTable c n)"

definition hasTable :: "catalog \<Rightarrow> string \<Rightarrow> bool" where
  "hasTable c n = (cat_get c n \<noteq> None)"

definition tableNames :: "catalog \<Rightarrow> string list" where
  "tableNames c = map fst (tables c)"

definition allocNodeId :: "catalog \<Rightarrow> catalog \<times> 32 word" where
  "allocNodeId c = (let i = nextNodeId c + 1 in (c\<lparr>nextNodeId := i\<rparr>, i))"

definition writeTable :: "catalog \<Rightarrow> string \<Rightarrow> table \<Rightarrow> catalog" where
  "writeTable c n t = cat_put n t c"

definition distinct_names :: "catalog \<Rightarrow> bool" where
  "distinct_names c = distinct (map fst (tables c))"

text \<open>A table is kept under its own name, has a column, and is well-formed.\<close>

definition wf_catalog :: "catalog \<Rightarrow> bool" where
  "wf_catalog c =
     (distinct_names c \<and>
      (\<forall>n t. cat_get c n = Some t \<longrightarrow> t_name t = n \<and> t_schema t \<noteq> [] \<and> wf_table t))"

subsection \<open>The contract of a registry\<close>

locale registry =
  fixes get :: "'m \<Rightarrow> 'k \<Rightarrow> 'v option"
    and put :: "'k \<Rightarrow> 'v \<Rightarrow> 'm \<Rightarrow> 'm"
    and remove :: "'k \<Rightarrow> 'm \<Rightarrow> 'm"
    and keys :: "'m \<Rightarrow> 'k list"
    and inv :: "'m \<Rightarrow> bool"
  assumes get_put: "get (put k v m) = (get m)(k \<mapsto> v)"
    and get_remove: "inv m \<Longrightarrow> get (remove k m) = (get m)(k := None)"
    and keys_get: "set (keys m) = dom (get m)"
    and keys_distinct: "inv m \<Longrightarrow> distinct (keys m)"
    and inv_put: "inv m \<Longrightarrow> inv (put k v m)"
    and inv_remove: "inv m \<Longrightarrow> inv (remove k m)"
begin

lemma get_put_same [simp]: "get (put k v m) k = Some v"
  by (simp add: get_put)

lemma get_put_other: "k \<noteq> l \<Longrightarrow> get (put k v m) l = get m l"
  by (simp add: get_put)

lemma get_remove_same: "inv m \<Longrightarrow> get (remove k m) k = None"
  by (simp add: get_remove)

lemma get_remove_other: "inv m \<Longrightarrow> k \<noteq> l \<Longrightarrow> get (remove k m) l = get m l"
  by (simp add: get_remove)

lemma keys_iff: "(k \<in> set (keys m)) = (get m k \<noteq> None)"
  by (simp add: keys_get domIff)

text \<open>Registering a list of entries, later ones winning.\<close>

lemma get_puts: "get (fold (\<lambda>(k, v). put k v) kvs m) = get m ++ map_of (rev kvs)"
  by (induction kvs arbitrary: m) (auto simp: get_put map_add_def fun_eq_iff split: option.splits)

lemma get_puts_distinct:
  "distinct (map fst kvs) \<Longrightarrow> get (fold (\<lambda>(k, v). put k v) kvs m) = get m ++ map_of kvs"
  by (simp add: get_puts map_of_inject_set [of "rev kvs" kvs, THEN iffD2] rev_map [symmetric])

lemma inv_puts: "inv m \<Longrightarrow> inv (fold (\<lambda>(k, v). put k v) kvs m)"
  by (induction kvs arbitrary: m) (auto simp: inv_put)

end

interpretation cat: registry cat_get cat_put cat_remove tableNames distinct_names
proof unfold_locales
  fix n t c m
  show "cat_get (cat_put n t c) = (cat_get c)(n \<mapsto> t)"
    by (auto simp: cat_get_def cat_put_def update_conv)
  show "distinct_names c \<Longrightarrow> cat_get (cat_remove n c) = (cat_get c)(n := None)"
    by (auto simp: cat_get_def cat_remove_def delete_conv)
  show "set (tableNames c) = dom (cat_get c)"
    by (simp add: tableNames_def cat_get_def dom_map_of_conv_image_fst [symmetric] dom_def)
  show "distinct_names c \<Longrightarrow> distinct (tableNames c)"
    by (simp add: distinct_names_def tableNames_def)
  show "distinct_names c \<Longrightarrow> distinct_names (cat_put n t c)"
    by (simp add: distinct_names_def cat_put_def distinct_update)
  show "distinct_names c \<Longrightarrow> distinct_names (cat_remove n c)"
    by (simp add: distinct_names_def cat_remove_def distinct_delete)
qed

lemma getTable_Inr [simp]: "(getTable c n = Inr t) = (cat_get c n = Some t)"
  by (simp add: getTable_def split: option.splits)

lemma wf_catalog_new [simp]: "wf_catalog catalog_new"
  by (simp add: wf_catalog_def catalog_new_def cat_get_def distinct_names_def)

lemma wf_catalogD:
  assumes "wf_catalog c" "cat_get c n = Some t"
  shows "t_name t = n" "t_schema t \<noteq> []" "wf_table t"
  using assms unfolding wf_catalog_def by blast+

lemma wf_catalog_put:
  assumes "wf_catalog c" "wf_table t" "t_name t = n" "t_schema t \<noteq> []"
  shows "wf_catalog (cat_put n t c)"
  using assms unfolding wf_catalog_def by (auto simp: cat.get_put cat.inv_put)

lemma wf_registerSchema: "wf_catalog c \<Longrightarrow> s \<noteq> [] \<Longrightarrow> wf_catalog (registerSchema c n s)"
  unfolding registerSchema_def
  by (rule wf_catalog_put [OF _ wf_table_new(1)]) (simp_all add: table_new_def)

lemma wf_catalog_remove: "wf_catalog c \<Longrightarrow> wf_catalog (cat_remove n c)"
  unfolding wf_catalog_def by (auto simp: cat.get_remove cat.inv_remove)

end
