(* ===== verification/LQ_Plan.thy ===== *)
theory LQ_Plan
  imports LQ_Deliver LQ_Catalog
begin

section \<open>From SELECT to an operator tree\<close>

text \<open>
  Model of the query builder of \<open>src/api/connection.cpp\<close>: \<open>buildTableRef\<close>, \<open>collectAggs\<close>,
  \<open>cloneSubstAggs\<close>, \<open>buildSelectCore\<close> and \<open>buildSelect\<close>. An operator borrows the table of the
  catalog and the expressions of the statement; the model holds their values. The identity of
  an aggregate call, which the code compares by address, is its source location.
  \<open>cloneSubstAggs\<close> may create slots while it rewrites, so it is a function of the slots that
  returns them (\<open>sbind\<close>).
  Lemmas: rewriting after collecting creates no slot; every tree that is built is well-formed
  (\<open>wf_op\<close>), so that what \<open>LQ_Deliver\<close> proves of operators holds for every query.
\<close>

subsection \<open>The result of a query\<close>

text \<open>\<open>QueryResult\<close> without the timing.\<close>

record query_result =
  qr_error :: bool
  qr_message :: string
  qr_schema :: schema
  qr_rows :: "row list"
  rowsAffected :: nat

definition empty_result :: query_result where
  "empty_result = \<lparr>qr_error = False, qr_message = [], qr_schema = [], qr_rows = [], rowsAffected = 0\<rparr>"

definition makeError :: "string \<Rightarrow> query_result" where
  "makeError msg = empty_result\<lparr>qr_error := True, qr_message := msg\<rparr>"

definition qr_ok :: "query_result \<Rightarrow> bool" where
  "qr_ok r = (\<not> qr_error r)"

subsection \<open>Table references\<close>

definition scanSchema :: "table \<Rightarrow> string \<Rightarrow> schema" where
  "scanSchema t alias =
     fold (\<lambda>c s. addColumn s (if alias = [] then cd_name c else alias @ ''.'' @ cd_name c) (cd_type c))
       (t_schema t) []"

definition cross_join :: "operator \<Rightarrow> operator \<Rightarrow> operator" where
  "cross_join l r = mk_HashJoin l r CROSS None (schema_merge (op_schema l) (op_schema r))"

text \<open>No FROM: a single row to evaluate the items on.\<close>

definition dual :: operator where
  "dual = mk_Values (addColumn [] ''__dual__'' (dt_int32 True)) [[VI32 0]]"

subsection \<open>Aggregates of an expression\<close>

record agg_call =
  ac_name :: string
  ac_args :: "expr list"
  ac_distinct :: bool
  ac_star :: bool
  ac_loc :: location

function collectAggs :: "expr \<Rightarrow> agg_call list" where
  "collectAggs (FunctionCall f args dist star loc) =
     (if isAggregate f
      then [\<lparr>ac_name = f, ac_args = args, ac_distinct = dist, ac_star = star, ac_loc = loc\<rparr>]
      else concat (map collectAggs args))"
| "collectAggs (BinaryExpr op a b) = collectAggs a @ collectAggs b"
| "collectAggs (UnaryExpr op a) = collectAggs a"
| "collectAggs (CastExpr a ty) = collectAggs a"
| "collectAggs (IsNullExpr a neg) = collectAggs a"
| "collectAggs (BetweenExpr a lo hi neg) = collectAggs a @ collectAggs lo @ collectAggs hi"
| "collectAggs (InExpr a vals neg) =
     collectAggs a @ (case vals of InList es \<Rightarrow> concat (map collectAggs es) | InSelect _ \<Rightarrow> [])"
| "collectAggs (CaseExpr subject whens els) =
     (case subject of None \<Rightarrow> [] | Some s \<Rightarrow> collectAggs s)
     @ concat (map (\<lambda>w. collectAggs (fst w) @ collectAggs (snd w)) whens)
     @ (case els of None \<Rightarrow> [] | Some e \<Rightarrow> collectAggs e)"
| "collectAggs (Literal v) = []"
| "collectAggs (ColumnRef s t c) = []"
| "collectAggs (ExistsExpr sel neg) = []"
| "collectAggs (SubqueryExpr sel) = []"
| "collectAggs (WindowExpr f ps ks fr) = []"
  by pat_completeness auto
termination
  by (relation "measure size")
     (auto simp: less_Suc_eq_le trans_le_add1 trans_le_add2
       dest!: size_case_when size_list_estimation' [where f = size and y = "size _"])

definition isAggregateQuery :: "select_stmt \<Rightarrow> bool" where
  "isAggregateQuery s =
     (ss_groupBy s \<noteq> None \<or> ss_having s \<noteq> None
      \<or> list_ex (\<lambda>(e, _). collectAggs e \<noteq> []) (ss_selectList s))"

definition itemName :: "select_item \<Rightarrow> nat \<Rightarrow> string" where
  "itemName it i =
     (case snd it of
        Some a \<Rightarrow> a
      | None \<Rightarrow> (case fst it of
            ColumnRef s t c \<Rightarrow> c
          | FunctionCall f args dist star loc \<Rightarrow> f
          | _ \<Rightarrow> ''col'' @ nat_string (i + 1)))"

definition sameAggregate :: "agg_call \<Rightarrow> agg_call \<Rightarrow> bool" where
  "sameAggregate a b =
     (if ac_name a \<noteq> ac_name b \<or> ac_star a \<noteq> ac_star b \<or> ac_distinct a \<noteq> ac_distinct b then False
      else if ac_star a then True
      else case (ac_args a, ac_args b) of
          ([ColumnRef s t c], [ColumnRef s' t' c']) \<Rightarrow> columnRef_string s t c = columnRef_string s' t' c'
        | _ \<Rightarrow> False)"

subsection \<open>Slots\<close>

text \<open>\<open>aggCalls\<close> and \<open>aggOutNames\<close>, one entry per slot.\<close>

type_synonym slots = "(agg_call \<times> string) list"

definition addSlot :: "slots \<Rightarrow> agg_call \<Rightarrow> slots" where
  "addSlot sl fc = sl @ [(fc, ''__agg'' @ nat_string (length sl))]"

definition known_as :: "agg_call \<Rightarrow> agg_call \<times> string \<Rightarrow> bool" where
  "known_as fc have = (ac_loc (fst have) = ac_loc fc \<or> sameAggregate (fst have) fc)"

definition collectInto :: "slots \<Rightarrow> expr \<Rightarrow> slots" where
  "collectInto sl e =
     fold (\<lambda>fc sl. if list_ex (known_as fc) sl then sl else addSlot sl fc) (collectAggs e) sl"

subsection \<open>Substitution\<close>

text \<open>Computations that read and extend the slots.\<close>

type_synonym 'a slotted = "slots \<Rightarrow> ('a \<times> slots) res"

definition sret :: "'a \<Rightarrow> 'a slotted" where
  "sret x sl = Inr (x, sl)"

definition sthrow :: "error \<Rightarrow> 'a slotted" where
  "sthrow e sl = Inl e"

definition sbind :: "'a slotted \<Rightarrow> ('a \<Rightarrow> 'b slotted) \<Rightarrow> 'b slotted" where
  "sbind m f sl = rbind (m sl) (\<lambda>(x, sl'). f x sl')"

fun smapM :: "('a \<Rightarrow> 'b slotted) \<Rightarrow> 'a list \<Rightarrow> 'b list slotted" where
  "smapM f [] = sret []"
| "smapM f (x # xs) = sbind (f x) (\<lambda>y. sbind (smapM f xs) (\<lambda>ys. sret (y # ys)))"

fun smap_opt :: "('a \<Rightarrow> 'b slotted) \<Rightarrow> 'a option \<Rightarrow> 'b option slotted" where
  "smap_opt f None = sret None"
| "smap_opt f (Some x) = sbind (f x) (\<lambda>y. sret (Some y))"

lemma smapM_cong [fundef_cong]:
  "xs = ys \<Longrightarrow> (\<And>x. x \<in> set ys \<Longrightarrow> f x = g x) \<Longrightarrow> smapM f xs = smapM g ys"
  by (induction ys arbitrary: xs) auto

lemma smap_opt_cong [fundef_cong]:
  "x = y \<Longrightarrow> (\<And>z. y = Some z \<Longrightarrow> f z = g z) \<Longrightarrow> smap_opt f x = smap_opt g y"
  by (cases y) auto

text \<open>The column of the first slot that has the call; a new slot if there is none.\<close>

definition slot_ref :: "agg_call \<Rightarrow> expr slotted" where
  "slot_ref fc sl =
     (case find (known_as fc) sl of
        Some (_, n) \<Rightarrow> Inr (ColumnRef None None n, sl)
      | None \<Rightarrow> let sl' = addSlot sl fc in Inr (ColumnRef None None (snd (last sl')), sl'))"

function cloneSubstAggs :: "expr \<Rightarrow> expr slotted" where
  "cloneSubstAggs (Literal v) = sret (Literal v)"
| "cloneSubstAggs (ColumnRef s t c) = sret (ColumnRef s t c)"
| "cloneSubstAggs (UnaryExpr op a) = sbind (cloneSubstAggs a) (\<lambda>a'. sret (UnaryExpr op a'))"
| "cloneSubstAggs (BinaryExpr op a b) =
     sbind (cloneSubstAggs a) (\<lambda>a'. sbind (cloneSubstAggs b) (\<lambda>b'. sret (BinaryExpr op a' b')))"
| "cloneSubstAggs (FunctionCall f args dist star loc) =
     (if isAggregate f
      then slot_ref \<lparr>ac_name = f, ac_args = args, ac_distinct = dist, ac_star = star, ac_loc = loc\<rparr>
      else sbind (smapM cloneSubstAggs args) (\<lambda>args'. sret (FunctionCall f args' dist star loc)))"
| "cloneSubstAggs (CastExpr a ty) = sbind (cloneSubstAggs a) (\<lambda>a'. sret (CastExpr a' ty))"
| "cloneSubstAggs (IsNullExpr a neg) = sbind (cloneSubstAggs a) (\<lambda>a'. sret (IsNullExpr a' neg))"
| "cloneSubstAggs (BetweenExpr a lo hi neg) =
     sbind (cloneSubstAggs a) (\<lambda>a'. sbind (cloneSubstAggs lo) (\<lambda>lo'. sbind (cloneSubstAggs hi) (\<lambda>hi'.
       sret (BetweenExpr a' lo' hi' neg))))"
| "cloneSubstAggs (CaseExpr subject whens els) =
     sbind (smap_opt cloneSubstAggs subject) (\<lambda>subject'.
     sbind (smapM (\<lambda>w. sbind (cloneSubstAggs (fst w)) (\<lambda>c. sbind (cloneSubstAggs (snd w)) (\<lambda>r. sret (c, r)))) whens) (\<lambda>whens'.
     sbind (smap_opt cloneSubstAggs els) (\<lambda>els'. sret (CaseExpr subject' whens' els'))))"
| "cloneSubstAggs (InExpr a vals neg) =
     (case vals of
        InSelect sel \<Rightarrow> sthrow (BuildError ''IN (subquery) is not supported here'')
      | InList es \<Rightarrow> sbind (cloneSubstAggs a) (\<lambda>a'. sbind (smapM cloneSubstAggs es) (\<lambda>es'.
          sret (InExpr a' (InList es') neg))))"
| "cloneSubstAggs (ExistsExpr sel neg) = sthrow (BuildError ''unsupported expression in aggregate context'')"
| "cloneSubstAggs (SubqueryExpr sel) = sthrow (BuildError ''unsupported expression in aggregate context'')"
| "cloneSubstAggs (WindowExpr f ps ks fr) = sthrow (BuildError ''unsupported expression in aggregate context'')"
  by pat_completeness auto
termination
  by (relation "measure size")
     (auto simp: less_Suc_eq_le trans_le_add1 trans_le_add2
       dest!: size_case_when size_list_estimation' [where f = size and y = "size _"])


subsection \<open>The clauses of a SELECT\<close>

definition applyOrderBy :: "operator \<Rightarrow> select_stmt \<Rightarrow> operator" where
  "applyOrderBy op s = (case ss_orderBy s of None \<Rightarrow> op | Some ks \<Rightarrow> mk_Sort op ks)"

definition limit_value :: "(f64 \<Rightarrow> f64 \<Rightarrow> f64) \<Rightarrow> 64 word \<Rightarrow> expr option \<Rightarrow> 64 word res" where
  "limit_value pw d e = (case e of None \<Rightarrow> Inr d | Some x \<Rightarrow> rbind (evaluate pw [] [] x) toInt64)"

definition applyLimit :: "(f64 \<Rightarrow> f64 \<Rightarrow> f64) \<Rightarrow> operator \<Rightarrow> select_stmt \<Rightarrow> operator res" where
  "applyLimit pw op s =
     (case ss_limit s of
        None \<Rightarrow> Inr op
      | Some (l, off) \<Rightarrow> rbind (limit_value pw (- 1) l) (\<lambda>lim. rmap (mk_Limit op lim) (limit_value pw 0 off)))"

definition applyDistinct :: "operator \<Rightarrow> select_stmt \<Rightarrow> operator" where
  "applyDistinct op s = (if ss_distinct s then mk_Distinct op else op)"

definition key_name :: "nat \<Rightarrow> expr \<Rightarrow> string" where
  "key_name i e = (case e of ColumnRef s t c \<Rightarrow> c | _ \<Rightarrow> ''__gk'' @ nat_string i)"

definition make_agg :: "agg_call \<times> string \<Rightarrow> agg" where
  "make_agg sl = (case sl of (fc, n) \<Rightarrow>
     \<lparr>agg_func = ac_name fc,
      agg_arg = (if \<not> ac_star fc \<and> ac_args fc \<noteq> [] then Some (hd (ac_args fc)) else None),
      agg_star = ac_star fc, agg_distinct = ac_distinct fc, agg_outName = n,
      agg_outType = (if ac_name fc = ''COUNT'' then dt_int64 True else asNullable (dt_float64 True))\<rparr>)"

text \<open>Every aggregate of SELECT, HAVING and ORDER BY.\<close>

definition collect_all :: "select_stmt \<Rightarrow> slots" where
  "collect_all s =
     (let sl = fold (\<lambda>(e, _) sl. collectInto sl e) (ss_selectList s) [];
          sl = (case ss_having s of None \<Rightarrow> sl | Some e \<Rightarrow> collectInto sl e)
      in case ss_orderBy s of None \<Rightarrow> sl | Some ks \<Rightarrow> fold (\<lambda>k sl. collectInto sl (sk_expr k)) ks sl)"

text \<open>A select item over the output \<open>sch\<close> of the aggregation.\<close>

definition agg_item :: "schema \<Rightarrow> nat \<times> select_item \<Rightarrow> item slotted" where
  "agg_item sch ii = (case ii of (i, it) \<Rightarrow>
     sbind (cloneSubstAggs (fst it)) (\<lambda>e. sret (e, itemName it i,
       case e of
         ColumnRef s t c \<Rightarrow> (let idx = indexOf sch c in
           if 0 \<le> idx then cd_type (sch ! nat idx) else asNullable (dt_float64 True))
       | _ \<Rightarrow> asNullable (dt_float64 True))))"

text \<open>An ORDER BY key that names the alias of an item is that item's expression.\<close>

definition agg_key :: "(select_item \<times> item) list \<Rightarrow> sort_key \<Rightarrow> sort_key slotted" where
  "agg_key its k =
     (case (case sk_expr k of
              ColumnRef s t c \<Rightarrow> find (\<lambda>(it, _). snd it = Some c) its
            | _ \<Rightarrow> None) of
        Some (_, e, _, _) \<Rightarrow> sret (SortKey e (sk_order k) (sk_nulls k))
      | None \<Rightarrow> sbind (cloneSubstAggs (sk_expr k)) (\<lambda>e. sret (SortKey e (sk_order k) (sk_nulls k))))"

definition aggregate_select :: "(f64 \<Rightarrow> f64 \<Rightarrow> f64) \<Rightarrow> select_stmt \<Rightarrow> operator \<Rightarrow> operator res" where
  "aggregate_select pw s op =
     (let keys = (case ss_groupBy s of None \<Rightarrow> [] | Some ks \<Rightarrow> ks);
          names = map (\<lambda>(i, e). key_name i e) (enumerate 0 keys);
          sl = collect_all s;
          op1 = mk_HashAggregate op keys names (map make_agg sl)
      in rbind (smapM (agg_item (op_schema op1)) (enumerate 0 (ss_selectList s)) sl) (\<lambda>(items, sl1).
         rbind (case ss_having s of None \<Rightarrow> Inr (op1, sl1)
                | Some h \<Rightarrow> rmap (\<lambda>(h', sl'). (Filter op1 h', sl')) (cloneSubstAggs h sl1)) (\<lambda>(op2, sl2).
         rbind (case ss_orderBy s of None \<Rightarrow> Inr op2
                | Some ks \<Rightarrow> rmap (\<lambda>(ks', sl'). mk_Sort op2 ks') (smapM (agg_key (zip (ss_selectList s) items)) ks sl2)) (\<lambda>op3.
         applyLimit pw (applyDistinct (Project op3 items) s) s))))"

definition isSelectStar :: "select_stmt \<Rightarrow> bool" where
  "isSelectStar s = (case ss_selectList s of [(ColumnRef q None c, _)] \<Rightarrow> c = ''*'' | _ \<Rightarrow> False)"

definition plain_item :: "schema \<Rightarrow> nat \<times> select_item \<Rightarrow> item" where
  "plain_item sch ii = (case ii of (i, it) \<Rightarrow>
     (fst it, itemName it i,
      case fst it of
        ColumnRef s t c \<Rightarrow>
          (let idx = (case t of None \<Rightarrow> - 1 | Some q \<Rightarrow> indexOf sch (q @ ''.'' @ c));
               idx = (if idx < 0 then indexOf sch c else idx)
           in if 0 \<le> idx then cd_type (sch ! nat idx) else asNullable (dt_float64 True))
      | _ \<Rightarrow> asNullable (dt_float64 True)))"

definition plain_select :: "(f64 \<Rightarrow> f64 \<Rightarrow> f64) \<Rightarrow> select_stmt \<Rightarrow> operator \<Rightarrow> operator res" where
  "plain_select pw s op =
     (let op1 = applyOrderBy op s;
          op2 = (if isSelectStar s then op1
                 else Project op1 (map (plain_item (op_schema op1)) (enumerate 0 (ss_selectList s))))
      in applyLimit pw (applyDistinct op2 s) s)"

text \<open>\<open>buildSelectCore\<close> after FROM.\<close>

definition finish_core :: "(f64 \<Rightarrow> f64 \<Rightarrow> f64) \<Rightarrow> select_stmt \<Rightarrow> operator \<Rightarrow> operator res" where
  "finish_core pw s op =
     (let op1 = (case ss_where s of None \<Rightarrow> op | Some p \<Rightarrow> Filter op p)
      in if isAggregateQuery s then aggregate_select pw s op1 else plain_select pw s op1)"

text \<open>The set operation of \<open>buildSelect\<close>.\<close>

definition union_of :: "set_op \<Rightarrow> operator \<Rightarrow> operator \<Rightarrow> operator res" where
  "union_of so l r =
     (if length (op_schema l) \<noteq> length (op_schema r)
      then Inl (BuildError ''UNION requires both sides to have the same number of columns'')
      else Inr (if so = UNION then mk_Distinct (mk_Append l r) else mk_Append l r))"

text \<open>The recursion does not depend on the operators that were built.\<close>

lemma rbind_plain_cong: "m = m' \<Longrightarrow> (\<And>x. f x = g x) \<Longrightarrow> rbind m f = rbind m' g"
  by (auto simp: rbind_def split: sum.splits)

declare rbind_cong [fundef_cong del]
declare rbind_plain_cong [fundef_cong]

function (sequential) buildTableRef :: "(f64 \<Rightarrow> f64 \<Rightarrow> f64) \<Rightarrow> catalog \<Rightarrow> string \<Rightarrow> table_ref \<Rightarrow> operator res"
  and buildSelect :: "(f64 \<Rightarrow> f64 \<Rightarrow> f64) \<Rightarrow> catalog \<Rightarrow> select_stmt \<Rightarrow> operator res" where
  "buildTableRef pw cat alias (TableRef q n) =
     rmap (\<lambda>t. mk_SeqScan t (scanSchema t alias)) (getTable cat n)"
| "buildTableRef pw cat alias (AliasedRef r a) = buildTableRef pw cat a r"
| "buildTableRef pw cat alias (JoinRef ty l r cond) =
     rbind (buildTableRef pw cat [] l) (\<lambda>left. rbind (buildTableRef pw cat [] r) (\<lambda>right.
       Inr (mk_HashJoin left right ty cond (schema_merge (op_schema left) (op_schema right)))))"
| "buildTableRef pw cat alias (SubqueryRef sel) = buildSelect pw cat sel"
| "buildSelect pw cat (SelectStmt dist items from wh gr hav ord lim setop) =
     rbind (case from of
         None \<Rightarrow> Inr dual
       | Some refs \<Rightarrow> (case refs of
             [] \<Rightarrow> Inr dual
           | r # rs \<Rightarrow> rbind (buildTableRef pw cat [] r) (\<lambda>op.
               rfold (\<lambda>op r. rmap (cross_join op) (buildTableRef pw cat [] r)) op rs))) (\<lambda>op0.
     rbind (finish_core pw (SelectStmt dist items from wh gr hav ord lim setop) op0) (\<lambda>op1.
       case setop of
         None \<Rightarrow> Inr op1
       | Some so \<Rightarrow>
           if fst so \<noteq> UNION \<and> fst so \<noteq> UNION_ALL
           then Inl (BuildError ''INTERSECT and EXCEPT are not supported yet'')
           else rbind (buildSelect pw cat (snd so)) (union_of (fst so) op1)))"
  by pat_completeness auto
termination
  by (relation "measure (\<lambda>x. case x of Inl (pw, cat, alias, r) \<Rightarrow> size r | Inr (pw, cat, s) \<Rightarrow> size s)")
     (auto simp: less_Suc_eq_le trans_le_add1 trans_le_add2
       dest!: size_list_estimation' [where f = size and y = "size _"])


subsection \<open>Collection and substitution agree\<close>

abbreviation known :: "slots \<Rightarrow> agg_call \<Rightarrow> bool" where
  "known sl fc \<equiv> list_ex (known_as fc) sl"

abbreviation all_known :: "slots \<Rightarrow> expr \<Rightarrow> bool" where
  "all_known sl e \<equiv> \<forall>fc \<in> set (collectAggs e). known sl fc"

lemma known_addSlot: "known sl fc \<Longrightarrow> known (addSlot sl fc') fc" "known (addSlot sl fc) fc"
  by (auto simp: addSlot_def known_as_def)

lemma collect_fold:
  "known sl fc \<or> fc \<in> set fcs \<Longrightarrow>
   known (fold (\<lambda>fc sl. if known sl fc then sl else addSlot sl fc) fcs sl) fc"
proof (induction fcs arbitrary: sl)
  case (Cons f fcs)
  show ?case
    unfolding fold.simps comp_apply
    by (rule Cons.IH) (use Cons.prems known_addSlot in auto)
qed simp

lemma collectInto_known: "all_known (collectInto sl e) e" "known sl fc \<Longrightarrow> known (collectInto sl e) fc"
  by (simp_all add: collectInto_def collect_fold)

lemma collect_list_known:
  "known sl fc \<or> (\<exists>x \<in> set xs. fc \<in> set (collectAggs (f x))) \<Longrightarrow>
   known (fold (\<lambda>x sl. collectInto sl (f x)) xs sl) fc"
proof (induction xs arbitrary: sl)
  case (Cons x xs)
  show ?case
    unfolding fold.simps comp_apply
    by (rule Cons.IH) (use Cons.prems collectInto_known in auto)
qed simp

text \<open>The expressions that \<open>aggregate_select\<close> rewrites.\<close>

definition output_exprs :: "select_stmt \<Rightarrow> expr set" where
  "output_exprs s = fst ` set (ss_selectList s) \<union> set_option (ss_having s)
     \<union> (case ss_orderBy s of None \<Rightarrow> {} | Some ks \<Rightarrow> sk_expr ` set ks)"

lemma collect_all_known:
  assumes "e \<in> output_exprs s"
  shows "all_known (collect_all s) e"
proof
  fix fc assume fc: "fc \<in> set (collectAggs e)"
  define s1 where "s1 = fold (\<lambda>(e, _) sl. collectInto sl e) (ss_selectList s) []"
  define s2 where "s2 = (case ss_having s of None \<Rightarrow> s1 | Some e \<Rightarrow> collectInto s1 e)"
  have all: "collect_all s = (case ss_orderBy s of None \<Rightarrow> s2 | Some ks \<Rightarrow> fold (\<lambda>k sl. collectInto sl (sk_expr k)) ks s2)"
    by (simp only: collect_all_def s1_def s2_def Let_def)
  have s1: "known s1 fc" if "e \<in> fst ` set (ss_selectList s)"
    using collect_list_known [where sl = "[]" and fc = fc and xs = "ss_selectList s" and f = fst] that fc
    by (auto simp: s1_def case_prod_unfold)
  have s2: "known s2 fc" if "known s1 fc \<or> ss_having s = Some e"
    using that fc collectInto_known by (auto simp: s2_def split: option.splits)
  have "known s2 fc \<or> (\<exists>ks. ss_orderBy s = Some ks \<and> e \<in> sk_expr ` set ks)"
    using assms s1 s2 by (auto simp: output_exprs_def split: option.splits)
  then show "known (collect_all s) fc"
  proof (cases "ss_orderBy s")
    case (Some ks)
    with \<open>known s2 fc \<or> _\<close> fc show ?thesis
      unfolding all Some option.case by (intro collect_list_known) auto
  qed (simp add: all)
qed

lemma slot_ref_known: "known sl fc \<Longrightarrow> \<exists>n. slot_ref fc sl = Inr (ColumnRef None None n, sl)"
  by (auto simp: slot_ref_def find_None_iff list_ex_iff split: option.splits)

lemma sbind_Inr: "(sbind m f sl = Inr r) = (\<exists>x sl'. m sl = Inr (x, sl') \<and> f x sl' = Inr r)"
  by (auto simp: sbind_def rbind_eq_Inr)

text \<open>\<open>pure_on m sl Q\<close>: on the slots \<open>sl\<close>, \<open>m\<close> throws, or keeps them and yields a value with \<open>Q\<close>.\<close>

definition pure_on :: "'a slotted \<Rightarrow> slots \<Rightarrow> ('a \<Rightarrow> bool) \<Rightarrow> bool" where
  "pure_on m sl Q = (\<forall>x sl'. m sl = Inr (x, sl') \<longrightarrow> sl' = sl \<and> Q x)"

lemma pure_sret: "Q x \<Longrightarrow> pure_on (sret x) sl Q"
  by (simp add: pure_on_def sret_def)

lemma pure_sthrow: "pure_on (sthrow e) sl Q"
  by (simp add: pure_on_def sthrow_def)

lemma pure_sbind: "pure_on m sl P \<Longrightarrow> (\<And>x. P x \<Longrightarrow> pure_on (f x) sl Q) \<Longrightarrow> pure_on (sbind m f) sl Q"
  by (fastforce simp: pure_on_def sbind_Inr)

lemma pure_smapM: "(\<And>x. x \<in> set xs \<Longrightarrow> pure_on (f x) sl P) \<Longrightarrow> pure_on (smapM f xs) sl (list_all P)"
proof (induction xs)
  case (Cons x xs)
  then show ?case
    unfolding smapM.simps by (intro pure_sbind [where P = P] pure_sbind [where P = "list_all P"] pure_sret) auto
qed (simp add: pure_sret)

lemma pure_smap_opt:
  "(\<And>x. xo = Some x \<Longrightarrow> pure_on (f x) sl P) \<Longrightarrow> pure_on (smap_opt f xo) sl (pred_option P)"
proof (cases xo)
  case (Some x)
  assume "\<And>x. xo = Some x \<Longrightarrow> pure_on (f x) sl P"
  with Some have "pure_on (f x) sl P" by blast
  then show ?thesis unfolding Some smap_opt.simps by (rule pure_sbind) (simp add: pure_sret)
qed (simp add: pure_sret)

abbreviation no_aggs :: "expr \<Rightarrow> bool" where
  "no_aggs e \<equiv> collectAggs e = []"

lemma concat_no_aggs: "list_all no_aggs es \<Longrightarrow> concat (map collectAggs es) = []"
  by (simp add: list_all_iff)

lemma clone_pure: "all_known sl e \<Longrightarrow> pure_on (cloneSubstAggs e) sl no_aggs"
proof (induction e rule: cloneSubstAggs.induct)
  case (5 f args dist star loc)
  show ?case
  proof (cases "isAggregate f")
    case True
    with 5(2) slot_ref_known [of _ sl] show ?thesis by (fastforce simp: pure_on_def)
  next
    case False
    have "pure_on (smapM cloneSubstAggs args) sl (list_all no_aggs)"
      by (rule pure_smapM) (use 5 False in auto)
    then show ?thesis
      using False by (auto intro!: pure_sbind pure_sret dest: concat_no_aggs)
  qed
next
  case (9 subject whens els)
  have s: "pure_on (smap_opt cloneSubstAggs subject) sl (pred_option no_aggs)"
    by (rule pure_smap_opt) (use 9 in auto)
  have w: "pure_on (smapM (\<lambda>w. sbind (cloneSubstAggs (fst w)) (\<lambda>c. sbind (cloneSubstAggs (snd w)) (\<lambda>r. sret (c, r)))) whens)
      sl (list_all (\<lambda>w. no_aggs (fst w) \<and> no_aggs (snd w)))"
  proof (rule pure_smapM)
    fix w assume w: "w \<in> set whens"
    have "set (collectAggs (fst w)) \<subseteq> set (collectAggs (CaseExpr subject whens els))"
      "set (collectAggs (snd w)) \<subseteq> set (collectAggs (CaseExpr subject whens els))"
      using w by auto
    then have "all_known sl (fst w)" "all_known sl (snd w)" using 9(5) by blast+
    with 9(2,3) [OF w] have "pure_on (cloneSubstAggs (fst w)) sl no_aggs" "pure_on (cloneSubstAggs (snd w)) sl no_aggs"
      by simp_all
    then show "pure_on (sbind (cloneSubstAggs (fst w)) (\<lambda>c. sbind (cloneSubstAggs (snd w)) (\<lambda>r. sret (c, r)))) sl
        (\<lambda>w. no_aggs (fst w) \<and> no_aggs (snd w))"
      by (intro pure_sbind [where P = no_aggs] pure_sret) auto
  qed
  have e: "pure_on (smap_opt cloneSubstAggs els) sl (pred_option no_aggs)"
    by (rule pure_smap_opt) (use 9 in auto)
  show ?case
    unfolding cloneSubstAggs.simps
    by (intro pure_sbind [OF s] pure_sbind [OF w] pure_sbind [OF e] pure_sret)
      (auto simp: list_all_iff split: option.splits)
next
  case (10 a vals neg)
  show ?case
  proof (cases vals)
    case (InList es)
    have "pure_on (smapM cloneSubstAggs es) sl (list_all no_aggs)"
      by (rule pure_smapM) (use 10 InList in auto)
    moreover have "pure_on (cloneSubstAggs a) sl no_aggs" using 10 InList by simp
    ultimately show ?thesis
      using InList by (auto intro!: pure_sbind [where P = no_aggs] pure_sbind [where P = "list_all no_aggs"] pure_sret
        dest: concat_no_aggs)
  qed (simp add: pure_sthrow)
qed (auto intro!: pure_sbind [where P = no_aggs] pure_sret pure_sthrow)

text \<open>
  C23: after the aggregates of a statement were collected, rewriting any of its output
  expressions finds a slot for every aggregate call, creates none, and leaves an expression
  without aggregate calls.
\<close>

theorem rewriting_covers_aggregates:
  assumes "e \<in> output_exprs s" "cloneSubstAggs e (collect_all s) = Inr (e', sl')"
  shows "sl' = collect_all s \<and> collectAggs e' = []"
  using clone_pure [OF collect_all_known [OF assms(1)]] assms(2) by (simp add: pure_on_def)


definition demo_agg_select :: select_stmt where
  "demo_agg_select = SelectStmt False
     [(ColumnRef None None ''b'', None),
      (BinaryExpr DIV (FunctionCall ''SUM'' [ColumnRef None None ''a''] False False (Loc 1 11))
         (FunctionCall ''COUNT'' [] False True (Loc 1 20)), Some ''r'')]
     (Some [TableRef None ''t'']) None (Some [ColumnRef None None ''b''])
     (Some (BinaryExpr GT (FunctionCall ''COUNT'' [] False True (Loc 1 60)) (Literal (VI64 1)))) None None None"

theorem rewriting_covers_aggregates_witness:
  "\<exists>e e'. e \<in> output_exprs demo_agg_select \<and> collectAggs e \<noteq> []
     \<and> cloneSubstAggs e (collect_all demo_agg_select) = Inr (e', collect_all demo_agg_select) \<and> collectAggs e' = []"
proof -
  let ?e = "BinaryExpr DIV (FunctionCall ''SUM'' [ColumnRef None None ''a''] False False (Loc 1 11))
         (FunctionCall ''COUNT'' [] False True (Loc 1 20))"
  let ?e' = "BinaryExpr DIV (ColumnRef None None ''__agg0'') (ColumnRef None None ''__agg1'')"
  have in_out: "?e \<in> output_exprs demo_agg_select" by (simp add: output_exprs_def demo_agg_select_def)
  have agg: "collectAggs ?e \<noteq> []" by code_simp
  have "rmap fst (cloneSubstAggs ?e (collect_all demo_agg_select)) = Inr ?e'" by code_simp
  then obtain sl' where sl': "cloneSubstAggs ?e (collect_all demo_agg_select) = Inr (?e', sl')"
    by (auto simp: rmap_eq_Inr)
  from rewriting_covers_aggregates [OF in_out sl'] sl' in_out agg show ?thesis by blast
qed

subsection \<open>Every plan is well-formed\<close>

lemma length_scanSchema [simp]: "length (scanSchema t alias) = length (t_schema t)"
  by (simp add: scanSchema_def fold_addColumn)

lemma wf_mk:
  "wf_table t \<Longrightarrow> wf_op (mk_SeqScan t (scanSchema t alias))" "wf_op c \<Longrightarrow> wf_op (mk_Limit c lim off)"
  "wf_op c \<Longrightarrow> wf_op (mk_Sort c ks)" "wf_op c \<Longrightarrow> wf_op (mk_Distinct c)"
  "wf_op c \<Longrightarrow> length names = length keys \<Longrightarrow> wf_op (mk_HashAggregate c keys names aggs)"
  "wf_op l \<Longrightarrow> wf_op r \<Longrightarrow> wf_op (mk_HashJoin l r ty cond (schema_merge (op_schema l) (op_schema r)))"
  "wf_op l \<Longrightarrow> wf_op r \<Longrightarrow> length (op_schema l) = length (op_schema r) \<Longrightarrow> wf_op (mk_Append l r)"
  "wf_op dual"
  by (simp_all add: mk_SeqScan_def mk_Limit_def mk_Sort_def mk_Distinct_def mk_HashAggregate_def mk_HashJoin_def
      mk_Append_def mk_Values_def dual_def wf_groups_def schema_merge_def addColumn_def)

lemma wf_clauses:
  "wf_op op \<Longrightarrow> wf_op (applyOrderBy op s)" "wf_op op \<Longrightarrow> wf_op (applyDistinct op s)"
  "wf_op op \<Longrightarrow> applyLimit pw op s = Inr op' \<Longrightarrow> wf_op op'"
  by (auto simp: applyOrderBy_def applyDistinct_def applyLimit_def res_simps wf_mk split: option.splits)

lemma aggregate_select_wf:
  assumes "wf_op op" "aggregate_select pw s op = Inr op'"
  shows "wf_op op'"
proof -
  define keys where "keys = (case ss_groupBy s of None \<Rightarrow> [] | Some ks \<Rightarrow> ks)"
  define op1 where "op1 = mk_HashAggregate op keys (map (\<lambda>(i, e). key_name i e) (enumerate 0 keys))
    (map make_agg (collect_all s))"
  have "wf_op op1" unfolding op1_def by (rule wf_mk(5) [OF assms(1)]) simp
  from assms(2) obtain items sl1 op2 sl2 op3 where p:
      "(case ss_having s of None \<Rightarrow> Inr (op1, sl1)
        | Some h \<Rightarrow> rmap (\<lambda>(h', sl'). (Filter op1 h', sl')) (cloneSubstAggs h sl1)) = Inr (op2, sl2)"
      "(case ss_orderBy s of None \<Rightarrow> Inr op2
        | Some ks \<Rightarrow> rmap (\<lambda>(ks', sl'). mk_Sort op2 ks') (smapM (agg_key (zip (ss_selectList s) items)) ks sl2)) = Inr op3"
      "applyLimit pw (applyDistinct (Project op3 items) s) s = Inr op'"
    unfolding aggregate_select_def Let_def keys_def [symmetric] op1_def [symmetric]
    by (auto elim!: rbindE)
  have "wf_op op2" using p(1) \<open>wf_op op1\<close> by (auto simp: rmap_eq_Inr split: option.splits)
  then have "wf_op op3" using p(2) by (auto simp: rmap_eq_Inr wf_mk split: option.splits)
  then have "wf_op (Project op3 items)" by simp
  then show ?thesis by (rule wf_clauses(3) [OF wf_clauses(2) p(3)])
qed

lemma plain_select_wf: "wf_op op \<Longrightarrow> plain_select pw s op = Inr op' \<Longrightarrow> wf_op op'"
  unfolding plain_select_def Let_def
  by (erule wf_clauses(3) [OF wf_clauses(2), rotated]) (simp add: wf_clauses(1))

lemma finish_core_wf: "wf_op op \<Longrightarrow> finish_core pw s op = Inr op' \<Longrightarrow> wf_op op'"
  unfolding finish_core_def Let_def
  by (auto dest!: aggregate_select_wf [rotated] plain_select_wf [rotated] split: option.splits if_splits)

lemma rfold_cross_wf:
  assumes "wf_op op" "rfold (\<lambda>op r. rmap (cross_join op) (f r)) op rs = Inr op'"
    "\<And>r o'. r \<in> set rs \<Longrightarrow> f r = Inr o' \<Longrightarrow> wf_op o'"
  shows "wf_op op'"
  by (rule rfold_inv [OF assms(2), where P = wf_op]) (use assms in \<open>auto simp: rmap_eq_Inr cross_join_def wf_mk\<close>)

lemma union_of_wf: "wf_op l \<Longrightarrow> wf_op r \<Longrightarrow> union_of so l r = Inr op \<Longrightarrow> wf_op op"
  by (auto simp: union_of_def wf_mk split: if_splits)

lemma built_wf:
  "wf_catalog cat \<Longrightarrow> buildTableRef pw cat al r = Inr op \<Longrightarrow> wf_op op"
  "wf_catalog cat \<Longrightarrow> buildSelect pw cat s = Inr op' \<Longrightarrow> wf_op op'"
proof (induction pw cat al r and pw cat s arbitrary: op and op' rule: buildTableRef_buildSelect.induct)
  case (1 pw cat al q n)
  then show ?case using wf_catalogD(3) by (auto simp: rmap_eq_Inr wf_mk)
next
  case (2 pw cat al r a)
  then show ?case by simp
next
  case (3 pw cat al ty l r cond)
  then show ?case by (auto simp: rbind_eq_Inr wf_mk)
next
  case (4 pw cat al sel)
  then show ?case by simp
next
  case (5 pw cat dist items frm wh gr hav ord lim setop)
  let ?frm = "case frm of
         None \<Rightarrow> Inr dual
       | Some refs \<Rightarrow> (case refs of
             [] \<Rightarrow> Inr dual
           | r # rs \<Rightarrow> rbind (buildTableRef pw cat [] r) (\<lambda>op.
               rfold (\<lambda>op r. rmap (cross_join op) (buildTableRef pw cat [] r)) op rs))"
  from "5.prems"(2) obtain op0 op1 where p: "?frm = Inr op0"
      "finish_core pw (SelectStmt dist items frm wh gr hav ord lim setop) op0 = Inr op1"
      "(case setop of
         None \<Rightarrow> Inr op1
       | Some so \<Rightarrow>
           if fst so \<noteq> UNION \<and> fst so \<noteq> UNION_ALL
           then Inl (BuildError ''INTERSECT and EXCEPT are not supported yet'')
           else rbind (buildSelect pw cat (snd so)) (union_of (fst so) op1)) = Inr op'"
    unfolding buildSelect.simps by (elim rbindE) (rule that)
  have "wf_op op0"
  proof (cases "frm = None \<or> frm = Some []")
    case True
    with p(1) wf_mk show ?thesis by auto
  next
    case False
    then obtain r rs where refs: "frm = Some (r # rs)" by (cases frm) (auto simp: neq_Nil_conv)
    with p(1) obtain o1 where o1: "buildTableRef pw cat [] r = Inr o1"
        "rfold (\<lambda>op r. rmap (cross_join op) (buildTableRef pw cat [] r)) o1 rs = Inr op0"
      by (auto simp: rbind_eq_Inr)
    show ?thesis
      by (rule rfold_cross_wf [OF _ o1(2)]) (use 5 refs o1(1) in auto)
  qed
  then have op1: "wf_op op1" by (rule finish_core_wf [OF _ p(2)])
  show ?case
  proof (cases setop)
    case None
    with p(3) op1 show ?thesis by simp
  next
    case (Some so)
    with p(3) obtain rhs where rhs: "fst so = UNION \<or> fst so = UNION_ALL"
        "buildSelect pw cat (snd so) = Inr rhs" "union_of (fst so) op1 rhs = Inr op'"
      by (auto elim!: rbindE split: if_splits)
    have "wf_op rhs" by (rule "5.IH"(3) [OF Some]) (use rhs "5.prems" in auto)
    then show ?thesis by (rule union_of_wf [OF op1 _ rhs(3)])
  qed
qed

text \<open>
  C22: over a well-formed catalog every SELECT that builds at all builds a well-formed operator
  tree: the schemas of joins, projections, aggregations and unions have the width of the rows
  that pass through them, and every buffer starts empty.
\<close>

theorem plans_are_well_formed:
  "wf_catalog cat \<Longrightarrow> buildSelect pw cat s = Inr op \<Longrightarrow> wf_op op"
  by (rule built_wf(2))

definition demo_shop :: catalog where
  "demo_shop = registerSchema catalog_new ''t'' (addColumn (addColumn [] ''a'' (dt_int32 True)) ''b'' (dt_varchar 0 True))"

definition demo_pw :: "f64 \<Rightarrow> f64 \<Rightarrow> f64" where
  "demo_pw x y = x"

theorem plans_are_well_formed_witness:
  "\<exists>op. buildSelect demo_pw demo_shop demo_agg_select = Inr op \<and> wf_op op"
proof -
  have "wf_catalog demo_shop"
    unfolding demo_shop_def by (simp add: wf_registerSchema addColumn_def)
  moreover have "\<not> isl (buildSelect demo_pw demo_shop demo_agg_select)" by code_simp
  then obtain op where "buildSelect demo_pw demo_shop demo_agg_select = Inr op"
    by (cases "buildSelect demo_pw demo_shop demo_agg_select") auto
  ultimately show ?thesis using plans_are_well_formed by blast
qed

end
