(* ===== verification/LQ_FastAgg.thy ===== *)
theory LQ_FastAgg
  imports LQ_Plan
begin

section \<open>The fast path for aggregate queries\<close>

text \<open>
  Model of \<open>src/execution/fast_aggregate.cpp\<close>: a SELECT of the shape \<open>[key,] AGG(col), ...\<close> over
  one table is executed over the typed buffers of the columns. \<open>tryFastAggregate\<close> returns
  \<open>Inr None\<close> where the code returns \<open>nullopt\<close> and leaves the query to the operator tree. A
  buffer is read as the code reads it, so the integer buffer of a text column, which is empty,
  is read out of bounds (\<open>Undefined\<close>). \<open>std::infinity\<close> is \<open>f64_inf\<close>; the counters are
  natural numbers as in \<open>LQ_RowOps\<close>.
\<close>

subsection \<open>Predicates\<close>

datatype cmp = CmpEQ | CmpNEQ | CmpLT | CmpLTE | CmpGT | CmpGTE

record pred_atom =
  atom_col :: nat
  atom_op :: cmp
  numConst :: f64
  isNumericAtom :: bool
  strConst :: string

fun toCmp :: "binary_op \<Rightarrow> cmp option" where
  "toCmp EQ = Some CmpEQ"
| "toCmp NEQ = Some CmpNEQ"
| "toCmp LT = Some CmpLT"
| "toCmp LTE = Some CmpLTE"
| "toCmp GT = Some CmpGT"
| "toCmp GTE = Some CmpGTE"
| "toCmp _ = None"

fun flip :: "cmp \<Rightarrow> cmp" where
  "flip CmpLT = CmpGT"
| "flip CmpLTE = CmpGTE"
| "flip CmpGT = CmpLT"
| "flip CmpGTE = CmpLTE"
| "flip c = c"

text \<open>The atom for column \<open>n\<close> and constant \<open>v\<close>: a string, or a number that is not a BOOLEAN.\<close>

definition make_atom :: "table \<Rightarrow> cmp \<Rightarrow> string \<Rightarrow> value \<Rightarrow> pred_atom option res" where
  "make_atom t op n v =
     (let idx = indexOf (t_schema t) n in
      if idx < 0 \<or> isNull v then Inr None
      else if typeId v = VARCHAR then
        rmap (\<lambda>s. Some \<lparr>atom_col = nat idx, atom_op = op, numConst = f64_zero False,
                        isNumericAtom = False, strConst = s\<rparr>) (getString v)
      else if typeIsNumeric (typeId v) then
        rmap (\<lambda>d. Some \<lparr>atom_col = nat idx, atom_op = op, numConst = d,
                        isNumericAtom = True, strConst = []\<rparr>) (toDouble v)
      else Inr None)"

definition parseAtom :: "table \<Rightarrow> expr \<Rightarrow> pred_atom option res" where
  "parseAtom t e =
     (case e of
        BinaryExpr op a b \<Rightarrow>
          (case toCmp op of
             None \<Rightarrow> Inr None
           | Some c \<Rightarrow>
               (case (a, b) of
                  (ColumnRef _ _ n, Literal v) \<Rightarrow> make_atom t c n v
                | (Literal v, ColumnRef _ _ n) \<Rightarrow> make_atom t (flip c) n v
                | _ \<Rightarrow> Inr None))
      | _ \<Rightarrow> Inr None)"

text \<open>The atoms of a tree of ANDs, from left to right.\<close>

fun parsePredicate :: "table \<Rightarrow> expr \<Rightarrow> pred_atom list option res" where
  "parsePredicate t (BinaryExpr op a b) =
     (if op = AND then
        rbind (parsePredicate t a) (\<lambda>pa. case pa of
            None \<Rightarrow> Inr None
          | Some as \<Rightarrow> rmap (map_option (\<lambda>bs. as @ bs)) (parsePredicate t b))
      else rmap (map_option (\<lambda>p. [p])) (parseAtom t (BinaryExpr op a b)))"
| "parsePredicate t e = rmap (map_option (\<lambda>p. [p])) (parseAtom t e)"

text \<open>\<open>applyCmp\<close> for a type with operators \<open>==\<close> and \<open><\<close>.\<close>

fun applyCmp :: "('a \<Rightarrow> 'a \<Rightarrow> bool) \<Rightarrow> ('a \<Rightarrow> 'a \<Rightarrow> bool) \<Rightarrow> cmp \<Rightarrow> 'a \<Rightarrow> 'a \<Rightarrow> bool" where
  "applyCmp eq lt CmpEQ a b = eq a b"
| "applyCmp eq lt CmpNEQ a b = (\<not> eq a b)"
| "applyCmp eq lt CmpLT a b = lt a b"
| "applyCmp eq lt CmpLTE a b = (lt a b \<or> eq a b)"
| "applyCmp eq lt CmpGT a b = lt b a"
| "applyCmp eq lt CmpGTE a b = (lt b a \<or> eq a b)"

text \<open>A cell of a numeric buffer as a \<open>double\<close>.\<close>

definition num_at :: "column \<Rightarrow> nat \<Rightarrow> f64 res" where
  "num_at c r = (if c_kind c = KDouble then vec_at (c_f64 c) r
                 else rmap (\<lambda>x. f64_of_int (sint x)) (vec_at (c_i64 c) r))"

fun rowPasses :: "table \<Rightarrow> pred_atom list \<Rightarrow> nat \<Rightarrow> bool res" where
  "rowPasses t [] r = Inr True"
| "rowPasses t (p # ps) r =
     rbind (columnAt t (atom_col p)) (\<lambda>c. rbind (bitmap_isValid (c_valid c) r) (\<lambda>ok.
       if \<not> ok then Inr False
       else if isNumericAtom p then
         rbind (num_at c r) (\<lambda>v.
           if applyCmp f64_eq f64_lt (atom_op p) v (numConst p) then rowPasses t ps r else Inr False)
       else if c_kind c \<noteq> KString then Inr False
       else rbind (vec_at (c_str c) r) (\<lambda>s.
           if applyCmp (=) (<) (atom_op p) s (strConst p) then rowPasses t ps r else Inr False)))"

subsection \<open>The shape gate\<close>

datatype agg_fn = FnCount | FnSum | FnAvg | FnMin | FnMax

record agg_spec =
  sp_fn :: agg_fn
  sp_star :: bool
  sp_col :: nat
  sp_outName :: string
  sp_outType :: data_type

definition fn_of :: "string \<Rightarrow> agg_fn option" where
  "fn_of f =
     (if f = ''COUNT'' then Some FnCount
      else if f = ''SUM'' then Some FnSum
      else if f = ''AVG'' then Some FnAvg
      else if f = ''MIN'' then Some FnMin
      else if f = ''MAX'' then Some FnMax
      else None)"

text \<open>The column of an aggregate's argument; 0 stands for the unused -1 of \<open>COUNT(*)\<close>.\<close>

definition spec_col :: "table \<Rightarrow> expr list \<Rightarrow> bool \<Rightarrow> bool \<Rightarrow> nat option res" where
  "spec_col t args dist star =
     (if star then Inr (Some 0)
      else if dist then Inr None
      else case args of
          [ColumnRef s q c] \<Rightarrow>
            (let idx = indexOf (t_schema t) c in
             if idx < 0 then Inr None
             else rmap (\<lambda>col. if c_kind col = KString then None else Some (nat idx)) (columnAt t (nat idx)))
        | _ \<Rightarrow> Inr None)"

definition make_spec :: "string \<Rightarrow> bool \<Rightarrow> string option \<Rightarrow> agg_fn \<Rightarrow> nat \<Rightarrow> agg_spec" where
  "make_spec f star alias fn col =
     \<lparr>sp_fn = fn, sp_star = star, sp_col = col,
      sp_outName = (case alias of Some a \<Rightarrow> a | None \<Rightarrow> f),
      sp_outType = (if f = ''COUNT'' then dt_int64 True else asNullable (dt_float64 True))\<rparr>"

text \<open>The loop over the select list: whether it has the key, and the aggregates.\<close>

fun fast_items :: "table \<Rightarrow> (nat \<times> string) option \<Rightarrow> select_item list \<Rightarrow> (bool \<times> agg_spec list) option res" where
  "fast_items t gc [] = Inr (Some (False, []))"
| "fast_items t gc ((ColumnRef s q c, alias) # its) =
     (case gc of
        None \<Rightarrow> Inr None
      | Some (_, g) \<Rightarrow>
          if c \<noteq> g then Inr None
          else rmap (map_option (\<lambda>(_, specs). (True, specs))) (fast_items t gc its))"
| "fast_items t gc ((FunctionCall f args dist star loc, alias) # its) =
     (if \<not> isAggregate f then Inr None
      else case fn_of f of
        None \<Rightarrow> Inr None
      | Some fn \<Rightarrow> rbind (spec_col t args dist star) (\<lambda>co. case co of
            None \<Rightarrow> Inr None
          | Some col \<Rightarrow>
              rmap (map_option (\<lambda>(key, specs). (key, make_spec f star alias fn col # specs)))
                (fast_items t gc its)))"
| "fast_items t gc ((e, alias) # its) = Inr None"

text \<open>GROUP BY: no key (\<open>Some None\<close>), the column and name of the key, or no fast path.\<close>

definition group_col :: "table \<Rightarrow> expr list option \<Rightarrow> (nat \<times> string) option option" where
  "group_col t g =
     (case g of
        None \<Rightarrow> Some None
      | Some [ColumnRef s q c] \<Rightarrow>
          (let idx = indexOf (t_schema t) c in if idx < 0 then None else Some (Some (nat idx, c)))
      | Some _ \<Rightarrow> None)"

record fast_plan =
  fp_table :: table
  fp_group :: "(nat \<times> string) option"
  fp_key :: bool
  fp_aggs :: "agg_spec list"
  fp_preds :: "pred_atom list"

definition fast_gate :: "catalog \<Rightarrow> select_stmt \<Rightarrow> fast_plan option res" where
  "fast_gate cat s =
     (if ss_setOp s \<noteq> None \<or> ss_distinct s then Inr None
      else case ss_from s of
        Some [TableRef q n] \<Rightarrow>
          if ss_having s \<noteq> None \<or> \<not> hasTable cat n then Inr None
          else rbind (getTable cat n) (\<lambda>t.
            case group_col t (ss_groupBy s) of
              None \<Rightarrow> Inr None
            | Some gc \<Rightarrow> rbind (fast_items t gc (ss_selectList s)) (\<lambda>its. case its of
                None \<Rightarrow> Inr None
              | Some (key, specs) \<Rightarrow>
                  if specs = [] then Inr None
                  else rmap (map_option (\<lambda>ps. \<lparr>fp_table = t, fp_group = gc, fp_key = key,
                          fp_aggs = specs, fp_preds = ps\<rparr>))
                    (case ss_where s of None \<Rightarrow> Inr (Some []) | Some p \<Rightarrow> parsePredicate t p)))
      | _ \<Rightarrow> Inr None)"

subsection \<open>Execution\<close>

record agg_state =
  st_count :: nat
  st_sum :: f64
  st_mn :: f64
  st_mx :: f64

definition agg_state_new :: agg_state where
  "agg_state_new = \<lparr>st_count = 0, st_sum = f64_zero False, st_mn = f64_inf False, st_mx = f64_inf True\<rparr>"

record fast_group =
  fg_aggs :: "agg_state list"
  fg_key :: "value"

definition fast_group_new :: "nat \<Rightarrow> value \<Rightarrow> fast_group" where
  "fast_group_new nagg k = \<lparr>fg_aggs = replicate nagg agg_state_new, fg_key = k\<rparr>"

text \<open>\<open>groups\<close> and \<open>groupIndex\<close>.\<close>

type_synonym fast_groups = "fast_group list \<times> (string \<rightharpoonup> nat)"

text \<open>
  The key string and key value of a row. The literal \<open>"\x00N"\<close> converts to the empty string.
\<close>

definition fast_key :: "column \<Rightarrow> nat \<Rightarrow> (string \<times> value) res" where
  "fast_key c r =
     rbind (bitmap_isValid (c_valid c) r) (\<lambda>ok.
       if \<not> ok then Inr ([], VNull)
       else case c_kind c of
         KString \<Rightarrow> rmap (\<lambda>s. (CHR ''S'' # s, VStr s)) (vec_at (c_str c) r)
       | KDouble \<Rightarrow> rmap (\<lambda>d. (CHR ''D'' # f64_string d, VF64 d)) (vec_at (c_f64 c) r)
       | KInt64 \<Rightarrow> rbind (vec_at (c_i64 c) r) (\<lambda>x.
           rmap (\<lambda>v. (CHR ''I'' # int_string (sint x), v)) (column_valueAt c r)))"

definition groupSlot :: "table \<Rightarrow> (nat \<times> string) option \<Rightarrow> nat \<Rightarrow> fast_groups \<Rightarrow> nat \<Rightarrow> (fast_groups \<times> nat) res" where
  "groupSlot t gc nagg gs r =
     (case gc of
        None \<Rightarrow> Inr (if fst gs = [] then ([fast_group_new nagg VNull], snd gs) else gs, 0)
      | Some (g, _) \<Rightarrow> rbind (columnAt t g) (\<lambda>c. rmap (\<lambda>(k, v).
          case snd gs k of
            Some i \<Rightarrow> (gs, i)
          | None \<Rightarrow> ((fst gs @ [fast_group_new nagg v], (snd gs)(k \<mapsto> length (fst gs))), length (fst gs)))
          (fast_key c r)))"

definition fast_accumulate :: "agg_fn \<Rightarrow> f64 \<Rightarrow> agg_state \<Rightarrow> agg_state" where
  "fast_accumulate fn v st0 =
     (let st = st0\<lparr>st_count := Suc (st_count st0)\<rparr> in
      case fn of
        FnCount \<Rightarrow> st
      | FnSum \<Rightarrow> st\<lparr>st_sum := f64_add (st_sum st) v\<rparr>
      | FnAvg \<Rightarrow> st\<lparr>st_sum := f64_add (st_sum st) v\<rparr>
      | FnMin \<Rightarrow> if f64_lt v (st_mn st) then st\<lparr>st_mn := v\<rparr> else st
      | FnMax \<Rightarrow> if f64_lt (st_mx st) v then st\<lparr>st_mx := v\<rparr> else st)"

definition fast_step :: "table \<Rightarrow> nat \<Rightarrow> agg_spec \<Rightarrow> agg_state \<Rightarrow> agg_state res" where
  "fast_step t r a st =
     (if sp_star a then Inr (st\<lparr>st_count := Suc (st_count st)\<rparr>)
      else rbind (columnAt t (sp_col a)) (\<lambda>c. rbind (bitmap_isValid (c_valid c) r) (\<lambda>ok.
        if \<not> ok then Inr st else rmap (\<lambda>v. fast_accumulate (sp_fn a) v st) (num_at c r))))"

text \<open>One iteration of the row loop.\<close>

definition fast_row :: "fast_plan \<Rightarrow> fast_groups \<Rightarrow> nat \<Rightarrow> fast_groups res" where
  "fast_row p gs r =
     rbind (rowPasses (fp_table p) (fp_preds p) r) (\<lambda>ok.
       if \<not> ok then Inr gs
       else rbind (groupSlot (fp_table p) (fp_group p) (length (fp_aggs p)) gs r) (\<lambda>(gs', i).
         rmap (\<lambda>sts. ((fst gs')[i := (fst gs' ! i)\<lparr>fg_aggs := sts\<rparr>], snd gs'))
           (rmapM (\<lambda>(a, st). fast_step (fp_table p) r a st) (zip (fp_aggs p) (fg_aggs (fst gs' ! i))))))"

definition fast_groups_of :: "fast_plan \<Rightarrow> fast_group list res" where
  "fast_groups_of p =
     rmap (\<lambda>gs. if fp_group p = None \<and> fst gs = []
                then [fast_group_new (length (fp_aggs p)) VNull] else fst gs)
       (rfold (fast_row p) ([], Map.empty) [0..<rowCount (fp_table p)])"

subsection \<open>The result set\<close>

definition fast_value :: "agg_spec \<Rightarrow> agg_state \<Rightarrow> value" where
  "fast_value a st =
     (case sp_fn a of
        FnCount \<Rightarrow> VI64 (word_of_nat (st_count st))
      | FnSum \<Rightarrow> if st_count st = 0 then VNull else VF64 (st_sum st)
      | FnAvg \<Rightarrow> if st_count st = 0 then VNull else VF64 (f64_div (st_sum st) (f64_of_int (int (st_count st))))
      | FnMin \<Rightarrow> if st_count st = 0 then VNull else VF64 (st_mn st)
      | FnMax \<Rightarrow> if st_count st = 0 then VNull else VF64 (st_mx st))"

definition fast_result_row :: "fast_plan \<Rightarrow> fast_group \<Rightarrow> row" where
  "fast_result_row p g =
     (if fp_key p then [fg_key g] else []) @ map (\<lambda>(a, st). fast_value a st) (zip (fp_aggs p) (fg_aggs g))"

definition fast_schema :: "fast_plan \<Rightarrow> schema res" where
  "fast_schema p =
     rmap (\<lambda>s. fold (\<lambda>a s. addColumn s (sp_outName a) (sp_outType a)) (fp_aggs p) s)
       (if fp_key p
        then (case fp_group p of
            None \<Rightarrow> Inl (Undefined ''vector index'')
          | Some (g, n) \<Rightarrow> rmap (\<lambda>c. addColumn [] n (c_type c)) (columnAt (fp_table p) g))
        else Inr [])"

text \<open>ORDER BY over the result: the column and direction of each key.\<close>

fun fast_keys :: "schema \<Rightarrow> sort_key list \<Rightarrow> (nat \<times> bool) list option" where
  "fast_keys sch [] = Some []"
| "fast_keys sch (k # ks) =
     (case sk_expr k of
        ColumnRef s q c \<Rightarrow>
          (let idx = indexOf sch c in
           if idx < 0 then None
           else map_option (Cons (nat idx, sk_order k = ASC)) (fast_keys sch ks))
      | _ \<Rightarrow> None)"

fun fast_less :: "(nat \<times> bool) list \<Rightarrow> row \<Rightarrow> row \<Rightarrow> bool res" where
  "fast_less [] a b = Inr False"
| "fast_less ((c, asc) # ks) a b =
     rbind (vec_at a c) (\<lambda>va. rbind (vec_at b c) (\<lambda>vb.
       if isNull va \<or> isNull vb then
         (if isNull va \<and> isNull vb then fast_less ks a b
          else Inr (if asc then isNull va else isNull vb))
       else rbind (value_lt va vb) (\<lambda>lt. rbind (value_lt vb va) (\<lambda>gt.
         if \<not> lt \<and> \<not> gt then fast_less ks a b else Inr (if asc then lt else gt)))))"

text \<open>LIMIT and OFFSET, which must be literals.\<close>

definition fast_bound :: "64 word \<Rightarrow> expr option \<Rightarrow> 64 word option res" where
  "fast_bound d e =
     (case e of
        None \<Rightarrow> Inr (Some d)
      | Some (Literal v) \<Rightarrow> rmap Some (toInt64 v)
      | Some _ \<Rightarrow> Inr None)"

definition fast_cut :: "64 word \<Rightarrow> 64 word \<Rightarrow> row list \<Rightarrow> row list" where
  "fast_cut lim off rows =
     (let rows' = (if 0 < sint off
                   then (if length rows \<le> unat off then [] else drop (unat off) rows) else rows)
      in if 0 \<le> sint lim \<and> unat lim < length rows' then take (unat lim) rows' else rows')"

definition fast_order :: "schema \<Rightarrow> sort_key list option \<Rightarrow> row list \<Rightarrow> row list option res" where
  "fast_order sch ord rows =
     (case ord of
        None \<Rightarrow> Inr (Some rows)
      | Some ks \<Rightarrow> (case fast_keys sch ks of
            None \<Rightarrow> Inr None
          | Some fks \<Rightarrow> rmap Some (stable_sort (fast_less fks) rows)))"

definition fast_limit :: "limit_clause option \<Rightarrow> row list \<Rightarrow> row list option res" where
  "fast_limit l rows =
     (case l of
        None \<Rightarrow> Inr (Some rows)
      | Some (lim, off) \<Rightarrow>
          rbind (fast_bound 0 off) (\<lambda>o1. case o1 of
            None \<Rightarrow> Inr None
          | Some off' \<Rightarrow> rmap (map_option (\<lambda>lim'. fast_cut lim' off' rows)) (fast_bound (- 1) lim)))"

definition fast_execute :: "select_stmt \<Rightarrow> fast_plan \<Rightarrow> query_result option res" where
  "fast_execute s p =
     rbind (fast_groups_of p) (\<lambda>gs. rbind (fast_schema p) (\<lambda>sch.
     rbind (fast_order sch (ss_orderBy s) (map (fast_result_row p) gs)) (\<lambda>o1. case o1 of
         None \<Rightarrow> Inr None
       | Some rows \<Rightarrow> rmap (map_option (\<lambda>rows'. empty_result\<lparr>qr_schema := sch, qr_rows := rows'\<rparr>))
           (fast_limit (ss_limit s) rows))))"

definition tryFastAggregate :: "catalog \<Rightarrow> select_stmt \<Rightarrow> query_result option res" where
  "tryFastAggregate cat s =
     rbind (fast_gate cat s) (\<lambda>g. case g of None \<Rightarrow> Inr None | Some p \<Rightarrow> fast_execute s p)"

end
