(* ===== verification/LQ_Statement.thy ===== *)
theory LQ_Statement
  imports LQ_FastAgg
begin

section \<open>Executing statements\<close>

text \<open>
  Model of the statement handlers of \<open>src/api/connection.cpp\<close>. A handler returns the catalog it
  leaves behind together with its outcome, because an exception does not undo what was written
  before it. \<open>fuel\<close> bounds the calls of \<open>next\<close> when a SELECT is drained.
  Lemmas: what each statement does to the abstract rows of its table, that it leaves every other
  table alone, and that a statement that returns keeps the catalog well-formed.
\<close>

text \<open>Row positions that receive values, in order; a position beyond the row is undefined.\<close>

fun place :: "row \<Rightarrow> nat list \<Rightarrow> row \<Rightarrow> row res" where
  "place row ps [] = Inr row"
| "place row [] (v # vs) = Inl (Undefined ''vector index'')"
| "place row (p # ps) (v # vs) =
     (if p < length row then place (row[p := v]) ps vs else Inl (Undefined ''vector index''))"

subsection \<open>CREATE and DROP\<close>

definition spec_type :: "column_spec \<Rightarrow> data_type" where
  "spec_type c = (if isNotNull c then (cs_type c)\<lparr>nullable := False\<rparr> else cs_type c)"

definition runCreate :: "create_table_stmt \<Rightarrow> catalog \<Rightarrow> catalog \<times> query_result res" where
  "runCreate ct cat =
     (registerSchema cat (ct_name ct)
        (fold (\<lambda>c s. addColumn s (cs_name c) (spec_type c)) (ct_columns ct) []),
      Inr empty_result)"

definition runDrop :: "drop_table_stmt \<Rightarrow> catalog \<Rightarrow> catalog \<times> query_result res" where
  "runDrop dt cat =
     (case dropTable cat (dt_name dt) of (cat', existed) \<Rightarrow>
        (cat', Inr (if \<not> existed \<and> \<not> dt_ifExists dt
                    then makeError (''Unknown table: '' @ dt_name dt) else empty_result)))"

subsection \<open>SELECT\<close>

definition general_select ::
    "(f64 \<Rightarrow> f64 \<Rightarrow> f64) \<Rightarrow> nat \<Rightarrow> catalog \<Rightarrow> select_stmt \<Rightarrow> query_result res" where
  "general_select pw fuel cat s =
     rbind (buildSelect pw cat s) (\<lambda>root. rbind (drain pw fuel root) (\<lambda>out.
       rmap (\<lambda>rows. empty_result\<lparr>qr_schema := b_schema out, qr_rows := rows\<rparr>) (batch_rows out)))"

definition runSelect ::
    "(f64 \<Rightarrow> f64 \<Rightarrow> f64) \<Rightarrow> nat \<Rightarrow> catalog \<Rightarrow> select_stmt \<Rightarrow> query_result res" where
  "runSelect pw fuel cat s =
     rbind (tryFastAggregate cat s) (\<lambda>fast. case fast of
         Some r \<Rightarrow> Inr r
       | None \<Rightarrow> general_select pw fuel cat s)"

subsection \<open>UPDATE and DELETE\<close>

definition rebuiltTable :: "string \<Rightarrow> schema \<Rightarrow> row list \<Rightarrow> table res" where
  "rebuiltTable n s rows = rfold insertRow_res (table_new n s) rows"

text \<open>A loop over the rows of a table.\<close>

definition for_table :: "('s \<Rightarrow> row \<Rightarrow> 's res) \<Rightarrow> 's \<Rightarrow> table \<Rightarrow> 's res" where
  "for_table f s t = rfold (\<lambda>s i. rbind (table_getRow t i) (f s)) s [0..<rowCount t]"

text \<open>The positions of the named columns, or the name that is unknown.\<close>

fun col_positions :: "schema \<Rightarrow> string list \<Rightarrow> string + nat list" where
  "col_positions s [] = Inr []"
| "col_positions s (n # ns) =
     (let idx = indexOf s n in
      if idx < 0 then Inl n
      else case col_positions s ns of Inl m \<Rightarrow> Inl m | Inr ps \<Rightarrow> Inr (nat idx # ps))"

definition where_holds ::
    "(f64 \<Rightarrow> f64 \<Rightarrow> f64) \<Rightarrow> schema \<Rightarrow> expr option \<Rightarrow> row \<Rightarrow> bool res" where
  "where_holds pw s w row = (case w of None \<Rightarrow> Inr True | Some p \<Rightarrow> evaluatePredicate pw s row p)"

text \<open>Every SET expression is evaluated on the old row; the writes happen in order.\<close>

definition updated_row ::
    "(f64 \<Rightarrow> f64 \<Rightarrow> f64) \<Rightarrow> schema \<Rightarrow> (nat \<times> expr) list \<Rightarrow> row \<Rightarrow> row res" where
  "updated_row pw s sets row =
     rfold (\<lambda>new pe. rbind (evaluate pw s row (snd pe)) (\<lambda>v. place new [fst pe] [v])) row sets"

definition update_step ::
    "(f64 \<Rightarrow> f64 \<Rightarrow> f64) \<Rightarrow> schema \<Rightarrow> (nat \<times> expr) list \<Rightarrow> expr option \<Rightarrow> row list \<times> nat \<Rightarrow> row
       \<Rightarrow> (row list \<times> nat) res" where
  "update_step pw s sets w st row =
     rbind (where_holds pw s w row) (\<lambda>match.
       if match then rmap (\<lambda>new. (fst st @ [new], Suc (snd st))) (updated_row pw s sets row)
       else Inr (fst st @ [row], snd st))"

definition runUpdate ::
    "(f64 \<Rightarrow> f64 \<Rightarrow> f64) \<Rightarrow> update_stmt \<Rightarrow> catalog \<Rightarrow> catalog \<times> query_result res" where
  "runUpdate pw u cat =
     (case getTable cat (upd_table u) of
        Inl e \<Rightarrow> (cat, Inl e)
      | Inr t \<Rightarrow>
          (let s = t_schema t in
           case col_positions s (map fst (upd_assignments u)) of
             Inl n \<Rightarrow> (cat, Inr (makeError (''Unknown column in UPDATE SET: '' @ n)))
           | Inr ps \<Rightarrow>
               (case rbind (for_table (update_step pw s (zip ps (map snd (upd_assignments u))) (upd_where u)) ([], 0) t)
                       (\<lambda>(rows, n). rmap (\<lambda>t'. (t', n)) (rebuiltTable (upd_table u) s rows)) of
                  Inl e \<Rightarrow> (cat, Inl e)
                | Inr (t', n) \<Rightarrow> (registerTable cat t', Inr (empty_result\<lparr>rowsAffected := n\<rparr>)))))"

definition delete_step ::
    "(f64 \<Rightarrow> f64 \<Rightarrow> f64) \<Rightarrow> schema \<Rightarrow> expr option \<Rightarrow> row list \<times> nat \<Rightarrow> row \<Rightarrow> (row list \<times> nat) res" where
  "delete_step pw s w st row =
     rbind (where_holds pw s w row) (\<lambda>remove.
       Inr (if remove then (fst st, Suc (snd st)) else (fst st @ [row], snd st)))"

definition runDelete ::
    "(f64 \<Rightarrow> f64 \<Rightarrow> f64) \<Rightarrow> delete_stmt \<Rightarrow> catalog \<Rightarrow> catalog \<times> query_result res" where
  "runDelete pw d cat =
     (case getTable cat (del_table d) of
        Inl e \<Rightarrow> (cat, Inl e)
      | Inr t \<Rightarrow>
          (case rbind (for_table (delete_step pw (t_schema t) (del_where d)) ([], 0) t)
                  (\<lambda>(rows, n). rmap (\<lambda>t'. (t', n)) (rebuiltTable (del_table d) (t_schema t) rows)) of
             Inl e \<Rightarrow> (cat, Inl e)
           | Inr (t', n) \<Rightarrow> (registerTable cat t', Inr (empty_result\<lparr>rowsAffected := n\<rparr>))))"

subsection \<open>INSERT\<close>

text \<open>
  Rows are inserted into the catalog's own table one after another. The loops return the table
  they leave behind, and stop at an exception or with a count mismatch.
\<close>

definition targets :: "schema \<Rightarrow> nat list \<Rightarrow> nat list" where
  "targets s ps = (if ps = [] then [0..<length s] else ps)"

text \<open>The row for a list of values that may throw; the values are written as they are computed.\<close>

fun fill_row :: "row \<Rightarrow> nat list \<Rightarrow> value res list \<Rightarrow> row res" where
  "fill_row row ps [] = Inr row"
| "fill_row row [] (m # ms) = Inl (Undefined ''vector index'')"
| "fill_row row (p # ps) (m # ms) =
     rbind m (\<lambda>v. rbind (place row [p] [v]) (\<lambda>row'. fill_row row' ps ms))"

definition null_of :: "schema \<Rightarrow> row" where
  "null_of s = replicate (length s) VNull"

fun insert_rows :: "table \<Rightarrow> row res list \<Rightarrow> table \<times> unit res" where
  "insert_rows t [] = (t, Inr ())"
| "insert_rows t (m # ms) =
     (case m of
        Inl e \<Rightarrow> (t, Inl e)
      | Inr row \<Rightarrow>
          (case insertRow t row of
             (t', Inl e) \<Rightarrow> (t', Inl e)
           | (t', Inr _) \<Rightarrow> insert_rows t' ms))"

definition insert_select ::
    "nat list \<Rightarrow> table \<Rightarrow> query_result \<Rightarrow> table \<times> query_result res" where
  "insert_select ps t src =
     (let s = t_schema t; want = (if ps = [] then length s else length ps) in
      if qr_error src then (t, Inr src)
      else if length (qr_schema src) \<noteq> want then
        (t, Inr (makeError (''INSERT ... SELECT column count ('' @ nat_string (length (qr_schema src))
           @ '') does not match target ('' @ nat_string want @ '')'')))
      else case insert_rows t (map (\<lambda>r. place (null_of s) (targets s ps) r) (qr_rows src)) of
          (t', Inl e) \<Rightarrow> (t', Inl e)
        | (t', Inr _) \<Rightarrow> (t', Inr (empty_result\<lparr>rowsAffected := length (qr_rows src)\<rparr>)))"

text \<open>The VALUES loop: the row count is checked before each row.\<close>

fun insert_values ::
    "(f64 \<Rightarrow> f64 \<Rightarrow> f64) \<Rightarrow> nat list \<Rightarrow> nat \<Rightarrow> table \<Rightarrow> expr list list \<Rightarrow> table \<times> query_result res" where
  "insert_values pw ps n t [] = (t, Inr (empty_result\<lparr>rowsAffected := n\<rparr>))"
| "insert_values pw ps n t (es # rows) =
     (let s = t_schema t in
      if ps = [] \<and> length es \<noteq> length s then
        (t, Inr (makeError ''INSERT value count does not match column count''))
      else if ps \<noteq> [] \<and> length es \<noteq> length ps then
        (t, Inr (makeError ''INSERT value count does not match column list''))
      else case insert_rows t [fill_row (null_of s) (targets s ps) (map (evaluate pw [] []) es)] of
          (t', Inl e) \<Rightarrow> (t', Inl e)
        | (t', Inr _) \<Rightarrow> insert_values pw ps (Suc n) t' rows)"

definition runInsert ::
    "(f64 \<Rightarrow> f64 \<Rightarrow> f64) \<Rightarrow> nat \<Rightarrow> insert_stmt \<Rightarrow> catalog \<Rightarrow> catalog \<times> query_result res" where
  "runInsert pw fuel ins cat =
     (case getTable cat (ins_table ins) of
        Inl e \<Rightarrow> (cat, Inl e)
      | Inr t \<Rightarrow>
          (case col_positions (t_schema t) (ins_columns ins) of
             Inl n \<Rightarrow> (cat, Inr (makeError (''Unknown column in INSERT: '' @ n)))
           | Inr ps \<Rightarrow>
               (case ins_source ins of
                  InsertSelect sel \<Rightarrow>
                    (case runSelect pw fuel cat sel of
                       Inl e \<Rightarrow> (cat, Inl e)
                     | Inr src \<Rightarrow> (case insert_select ps t src of
                           (t', out) \<Rightarrow> (writeTable cat (ins_table ins) t', out)))
                | InsertValues rows \<Rightarrow>
                    (case insert_values pw ps 0 t rows of
                       (t', out) \<Rightarrow> (writeTable cat (ins_table ins) t', out)))))"

subsection \<open>Dispatch\<close>

fun runStatement ::
    "(f64 \<Rightarrow> f64 \<Rightarrow> f64) \<Rightarrow> nat \<Rightarrow> stmt \<Rightarrow> catalog \<Rightarrow> catalog \<times> query_result res" where
  "runStatement pw fuel (StmtSelect s) cat = (cat, runSelect pw fuel cat s)"
| "runStatement pw fuel (StmtCreateTable ct) cat = runCreate ct cat"
| "runStatement pw fuel (StmtDropTable dt) cat = runDrop dt cat"
| "runStatement pw fuel (StmtInsert ins) cat = runInsert pw fuel ins cat"
| "runStatement pw fuel (StmtUpdate u) cat = runUpdate pw u cat"
| "runStatement pw fuel (StmtDelete d) cat = runDelete pw d cat"


subsection \<open>Loops over a table\<close>

lemma for_table_wf:
  assumes "wf_table t"
  shows "for_table f s t = rfold f s (table_rows t)"
proof -
  have "for_table f s t = rfold (\<lambda>s i. f s (table_rows t ! i)) s [0..<rowCount t]"
    unfolding for_table_def by (rule rfold_cong) (simp_all add: table_getRow_wf [OF assms])
  also have "\<dots> = rfold f s (map ((!) (table_rows t)) [0..<length (table_rows t)])"
    by (simp add: rfold_map)
  finally show ?thesis by (simp only: map_nth)
qed

text \<open>A rebuilt table holds the stored rows.\<close>

lemma rebuiltTable_ok:
  assumes "s \<noteq> []" "rmapM (stored_row s) rows = Inr rows'"
  shows "\<exists>t. rebuiltTable n s rows = Inr t \<and> wf_table t \<and> t_schema t = s \<and> t_name t = n \<and> table_rows t = rows'"
  using tbl.push_all [of "table_new n s" s n rows rows'] assms by (auto simp: rebuiltTable_def)

lemma rebuiltTable_Inr:
  assumes "s \<noteq> []" "rebuiltTable n s rows = Inr t"
  shows "wf_table t \<and> t_schema t = s \<and> t_name t = n \<and> rmapM (stored_row s) rows = Inr (table_rows t)"
proof (cases "rmapM (stored_row s) rows")
  case (Inl e)
  with tbl.push_all_throws [of "table_new n s" s n rows e] assms show ?thesis
    by (simp add: rebuiltTable_def)
next
  case (Inr rows')
  with rebuiltTable_ok [OF assms(1), of rows rows' n] assms(2) show ?thesis by auto
qed

lemma delete_loop:
  "rfilter (\<lambda>r. rmap Not (where_holds pw s w r)) rows = Inr kept \<Longrightarrow>
   rfold (delete_step pw s w) (acc, n) rows = Inr (acc @ kept, n + (length rows - length kept))"
proof (induction rows arbitrary: acc n kept)
  case (Cons r rows)
  then obtain m k' where m: "where_holds pw s w r = Inr m"
      "rfilter (\<lambda>r. rmap Not (where_holds pw s w r)) rows = Inr k'"
      "kept = (if m then k' else r # k')"
    by (auto simp: res_simps split: if_splits)
  have "length k' \<le> length rows" using rfilter_length m(2) by blast
  with Cons.IH [OF m(2)] m show ?case by (auto simp: delete_step_def Suc_diff_le)
qed simp

definition updated_stored ::
    "(f64 \<Rightarrow> f64 \<Rightarrow> f64) \<Rightarrow> schema \<Rightarrow> (nat \<times> expr) list \<Rightarrow> expr option \<Rightarrow> row \<Rightarrow> row res" where
  "updated_stored pw s sets w r =
     rbind (where_holds pw s w r) (\<lambda>m. if m then rbind (updated_row pw s sets r) (stored_row s) else Inr r)"

lemma update_loop:
  assumes "\<forall>r \<in> set rows. stored_row s r = Inr r"
  shows "rmapM (updated_stored pw s sets w) rows = Inr rows' \<Longrightarrow>
   \<exists>mid. rfold (update_step pw s sets w) (acc, n) rows =
       Inr (acc @ mid, n + length (filter (\<lambda>r. where_holds pw s w r = Inr True) rows))
     \<and> rmapM (stored_row s) mid = Inr rows'"
  using assms
proof (induction rows arbitrary: acc n rows')
  case (Cons r rows)
  then obtain r' rs' where r': "updated_stored pw s sets w r = Inr r'" "rows' = r' # rs'"
      "rmapM (updated_stored pw s sets w) rows = Inr rs'"
    by (auto simp: res_simps)
  then obtain m new where m: "where_holds pw s w r = Inr m" "stored_row s new = Inr r'"
      "if m then updated_row pw s sets r = Inr new else new = r"
    using Cons.prems(2) by (auto simp: updated_stored_def res_simps split: if_splits)
  from Cons.IH [OF r'(3), of "acc @ [new]" "if m then Suc n else n"] Cons.prems(2) obtain mid where
    mid: "rfold (update_step pw s sets w) (acc @ [new], if m then Suc n else n) rows =
       Inr (acc @ new # mid, (if m then Suc n else n) + length (filter (\<lambda>r. where_holds pw s w r = Inr True) rows))"
      "rmapM (stored_row s) mid = Inr rs'"
    by auto
  have "update_step pw s sets w (acc, n) r = Inr (acc @ [new], if m then Suc n else n)"
    using m by (auto simp: update_step_def)
  with m(1,2) r'(2) mid show ?case by (intro exI [of _ "new # mid"]) auto
qed simp

lemma insert_rows_ok:
  assumes "wf_table t" "t_schema t \<noteq> []"
  shows "rmapM (\<lambda>m. rbind m (stored_row (t_schema t))) ms = Inr new \<Longrightarrow>
   \<exists>t'. insert_rows t ms = (t', Inr ()) \<and> wf_table t' \<and> t_schema t' = t_schema t \<and> t_name t' = t_name t
     \<and> table_rows t' = table_rows t @ new"
  using assms
proof (induction ms arbitrary: t new)
  case (Cons m ms)
  then obtain row w ws where w: "m = Inr row" "stored_row (t_schema t) row = Inr w"
      "rmapM (\<lambda>m. rbind m (stored_row (t_schema t))) ms = Inr ws" "new = w # ws"
    by (auto simp: res_simps)
  from insertRow_stored [OF Cons.prems(2,3) w(2)] obtain t1 where
    t1: "insertRow t row = (t1, Inr ())" "wf_table t1" "t_schema t1 = t_schema t" "t_name t1 = t_name t"
      "table_rows t1 = table_rows t @ [w]"
    by blast
  from Cons.IH [of t1 ws] t1 w Cons.prems(3) show ?case by auto
qed simp

text \<open>Conversely, rows that were inserted without an exception were stored.\<close>

lemma insert_rows_Inr:
  assumes "wf_table t" "t_schema t \<noteq> []" "insert_rows t ms = (t', Inr u)"
  shows "\<exists>new. rmapM (\<lambda>m. rbind m (stored_row (t_schema t))) ms = Inr new"
  using assms
proof (induction ms arbitrary: t)
  case (Cons m ms)
  from Cons.prems(3) obtain row t1 where t1: "m = Inr row" "insertRow t row = (t1, Inr ())"
      "insert_rows t1 ms = (t', Inr u)"
    by (auto split: sum.splits prod.splits)
  obtain w where w: "stored_row (t_schema t) row = Inr w"
    using insertRow_throws [OF Cons.prems(1), of row] t1(2) by (cases "stored_row (t_schema t) row") auto
  from insertRow_stored [OF Cons.prems(1,2) w] t1(2) have
    "wf_table t1" "t_schema t1 = t_schema t" by auto
  with Cons.IH [of t1] Cons.prems(2) t1(1,3) w show ?case by auto
qed simp

lemma insert_rows_wf:
  assumes "wf_table t" "t_schema t \<noteq> []" "insert_rows t ms = (t', Inr u)"
  shows "wf_table t' \<and> t_schema t' = t_schema t \<and> t_name t' = t_name t"
proof -
  obtain new where "rmapM (\<lambda>m. rbind m (stored_row (t_schema t))) ms = Inr new"
    using insert_rows_Inr [OF assms] by blast
  from insert_rows_ok [OF assms(1,2) this] assms(3) show ?thesis by auto
qed

lemma insert_values_wf:
  "wf_table t \<Longrightarrow> t_schema t \<noteq> [] \<Longrightarrow> insert_values pw ps n t rows = (t', Inr r) \<Longrightarrow>
   wf_table t' \<and> t_schema t' = t_schema t \<and> t_name t' = t_name t"
proof (induction rows arbitrary: t n)
  case (Cons es rows)
  show ?case
  proof (cases "(ps = [] \<and> length es \<noteq> length (t_schema t)) \<or> (ps \<noteq> [] \<and> length es \<noteq> length ps)")
    case True
    with Cons.prems show ?thesis by (auto simp: Let_def split: if_splits)
  next
    case False
    then have "\<not> (ps = [] \<and> length es \<noteq> length (t_schema t))" "\<not> (ps \<noteq> [] \<and> length es \<noteq> length ps)" by auto
    with Cons.prems(3) obtain t1 where t1:
        "insert_rows t [fill_row (null_of (t_schema t)) (targets (t_schema t) ps) (map (evaluate pw [] []) es)] = (t1, Inr ())"
        "insert_values pw ps (Suc n) t1 rows = (t', Inr r)"
      unfolding insert_values.simps Let_def by (auto simp del: insert_rows.simps split: sum.splits prod.splits if_splits)
    from insert_rows_wf [OF Cons.prems(1,2) t1(1)] Cons.IH [OF _ _ t1(2)] Cons.prems(2) show ?thesis by auto
  qed
qed simp

lemma insert_select_wf:
  "wf_table t \<Longrightarrow> t_schema t \<noteq> [] \<Longrightarrow> insert_select ps t src = (t', Inr r) \<Longrightarrow>
   wf_table t' \<and> t_schema t' = t_schema t \<and> t_name t' = t_name t"
  unfolding insert_select_def Let_def
  by (auto dest: insert_rows_wf split: if_splits prod.splits sum.splits)


subsection \<open>Assignments\<close>

text \<open>The row with the values \<open>vs\<close> at the positions \<open>ps\<close>.\<close>

definition assigned :: "row \<Rightarrow> nat list \<Rightarrow> row \<Rightarrow> row" where
  "assigned row ps vs =
     map (\<lambda>i. case map_of (zip ps vs) i of None \<Rightarrow> row ! i | Some v \<Rightarrow> v) [0..<length row]"

lemma length_assigned [simp]: "length (assigned row ps vs) = length row"
  by (simp add: assigned_def)

lemma assigned_Cons:
  assumes "distinct (p # ps)" "length ps = length vs" "p < length row"
  shows "assigned (row[p := v]) ps vs = assigned row (p # ps) (v # vs)"
proof -
  have none: "map_of (zip ps vs) p = None" using assms(1) by (auto simp: map_of_eq_None_iff dest: set_zip_leftD)
  show ?thesis
  proof (rule nth_equalityI)
    fix i assume "i < length (assigned (row[p := v]) ps vs)"
    then have "i < length row" by simp
    then show "assigned (row[p := v]) ps vs ! i = assigned row (p # ps) (v # vs) ! i"
      using none assms(3) by (cases "i = p") (simp_all add: assigned_def split: option.splits)
  qed simp
qed

lemma assigned_all: "length vs = length row \<Longrightarrow> assigned row [0..<length row] vs = vs"
proof -
  assume len: "length vs = length row"
  have m: "map_of (zip [0..<length row] vs) i = Some (vs ! i)" if "i < length row" for i
    using map_of_zip_nth [of "[0..<length row]" vs i] that len by simp
  show ?thesis
  proof (rule nth_equalityI)
    fix i assume "i < length (assigned row [0..<length row] vs)"
    then have "i < length row" by simp
    then show "assigned row [0..<length row] vs ! i = vs ! i" using m by (simp add: assigned_def)
  qed (simp add: len)
qed

lemma fill_row_assigned:
  "distinct ps \<Longrightarrow> set ps \<subseteq> {..<length row} \<Longrightarrow> length ms = length ps \<Longrightarrow>
   fill_row row ps ms = rmap (assigned row ps) (rmapM (\<lambda>m. m) ms)"
proof (induction ms arbitrary: row ps)
  case Nil
  then show ?case by (simp add: assigned_def map_nth)
next
  case (Cons m ms)
  then obtain q qs where ps: "ps = q # qs" by (cases ps) auto
  show ?case
  proof (cases m)
    case (Inr v)
    have "fill_row (row[q := v]) qs ms = rmap (assigned (row[q := v]) qs) (rmapM (\<lambda>m. m) ms)"
      by (rule Cons.IH) (use Cons.prems ps in auto)
    also have "\<dots> = rmap (\<lambda>vs. assigned row ps (v # vs)) (rmapM (\<lambda>m. m) ms)"
      by (rule rmap_cong) (use Cons.prems ps assigned_Cons [of q qs _ row v] in \<open>auto dest!: rmapM_length\<close>)
    finally show ?thesis
      using Cons.prems ps Inr by (cases "rmapM (\<lambda>m. m) ms") auto
  qed (simp add: ps)
qed

lemma rmapM_map: "rmapM f (map g xs) = rmapM (\<lambda>x. f (g x)) xs"
  by (induction xs) auto

lemma updated_row_assigned:
  assumes "distinct ps" "set ps \<subseteq> {..<length row}" "length es = length ps"
  shows "updated_row pw s (zip ps es) row = rmap (assigned row ps) (rmapM (evaluate pw s row) es)"
proof -
  have "rfold (\<lambda>new pe. rbind (evaluate pw s row (snd pe)) (\<lambda>v. place new [fst pe] [v])) r (zip ps es)
      = fill_row r ps (map (evaluate pw s row) es)" if "length es = length ps" for r
    using that
  proof (induction es arbitrary: ps r)
    case (Cons e es)
    then obtain p ps' where "ps = p # ps'" "length es = length ps'" by (cases ps) auto
    with Cons.IH [of ps'] show ?case by (simp add: rbind_assoc cong: if_cong)
  qed simp
  with assms fill_row_assigned [of ps row "map (evaluate pw s row) es"] show ?thesis
    by (simp add: updated_row_def rmapM_map)
qed

lemma col_positions_Inr:
  "col_positions s ns = Inr ps \<Longrightarrow> length ps = length ns \<and> set ps \<subseteq> {..<length s}"
proof (induction ns arbitrary: ps)
  case (Cons n ns)
  then show ?case
    using indexOf_bounds [of s n] by (auto simp: Let_def split: if_splits sum.splits)
qed simp

subsection \<open>INSERT\<close>

text \<open>The row that is stored for the values of one VALUES row.\<close>

definition inserted_row ::
    "(f64 \<Rightarrow> f64 \<Rightarrow> f64) \<Rightarrow> schema \<Rightarrow> nat list \<Rightarrow> expr list \<Rightarrow> row res" where
  "inserted_row pw s ps es =
     rbind (rmapM (evaluate pw [] []) es) (\<lambda>vs.
       stored_row s (if ps = [] then vs else assigned (null_of s) ps vs))"

lemma inserted_row_fill:
  assumes "distinct ps" "set ps \<subseteq> {..<length s}"
    "if ps = [] then length es = length s else length es = length ps"
  shows "rbind (fill_row (null_of s) (targets s ps) (map (evaluate pw [] []) es)) (stored_row s)
    = inserted_row pw s ps es"
proof -
  have len: "length (null_of s) = length s" by (simp add: null_of_def)
  have "fill_row (null_of s) (targets s ps) (map (evaluate pw [] []) es)
      = rmap (assigned (null_of s) (targets s ps)) (rmapM (evaluate pw [] []) es)"
    using fill_row_assigned [of "targets s ps" "null_of s" "map (evaluate pw [] []) es"] assms len
    by (auto simp: targets_def rmapM_map atLeast0LessThan split: if_splits)
  also have "\<dots> = rmap (\<lambda>vs. if ps = [] then vs else assigned (null_of s) ps vs) (rmapM (evaluate pw [] []) es)"
  proof (rule rmap_cong)
    fix vs assume "rmapM (evaluate pw [] []) es = Inr vs"
    then have "length vs = length es" by (rule rmapM_length)
    then show "assigned (null_of s) (targets s ps) vs = (if ps = [] then vs else assigned (null_of s) ps vs)"
      using assms(3) len assigned_all [of vs "null_of s"] by (auto simp: targets_def)
  qed simp
  finally show ?thesis
    by (cases "rmapM (evaluate pw [] []) es") (simp_all add: inserted_row_def)
qed

lemma inserted_row_width:
  "ps = [] \<Longrightarrow> inserted_row pw s ps es = Inr ws \<Longrightarrow> length es = length s"
  by (auto simp: inserted_row_def res_simps dest!: rmapM_length stored_row_length)

lemma insert_values_ok:
  assumes "wf_table t" "t_schema t \<noteq> []" "distinct ps" "set ps \<subseteq> {..<length (t_schema t)}"
    "\<forall>es \<in> set rows. ps \<noteq> [] \<longrightarrow> length es = length ps"
    "rmapM (inserted_row pw (t_schema t) ps) rows = Inr new"
  shows "\<exists>t'. insert_values pw ps n t rows = (t', Inr (empty_result\<lparr>rowsAffected := n + length rows\<rparr>))
     \<and> wf_table t' \<and> t_schema t' = t_schema t \<and> t_name t' = t_name t \<and> table_rows t' = table_rows t @ new"
  using assms
proof (induction rows arbitrary: t n new)
  case (Cons es rows)
  from Cons.prems(6) obtain w ws where w: "inserted_row pw (t_schema t) ps es = Inr w"
      "rmapM (inserted_row pw (t_schema t) ps) rows = Inr ws" "new = w # ws"
    by (auto simp: res_simps)
  have width: "if ps = [] then length es = length (t_schema t) else length es = length ps"
    using inserted_row_width [OF _ w(1)] Cons.prems(5) by auto
  let ?m = "fill_row (null_of (t_schema t)) (targets (t_schema t) ps) (map (evaluate pw [] []) es)"
  have "rmapM (\<lambda>m. rbind m (stored_row (t_schema t))) [?m] = Inr [w]"
    using inserted_row_fill [OF Cons.prems(3,4) width, of pw] w(1) by simp
  from insert_rows_ok [OF Cons.prems(1,2) this] obtain t1 where t1: "insert_rows t [?m] = (t1, Inr ())"
      "wf_table t1" "t_schema t1 = t_schema t" "t_name t1 = t_name t" "table_rows t1 = table_rows t @ [w]"
    by blast
  from Cons.IH [of t1 ws "Suc n"] t1(2-5) Cons.prems w(2) obtain t' where
    t': "insert_values pw ps (Suc n) t1 rows = (t', Inr (empty_result\<lparr>rowsAffected := Suc n + length rows\<rparr>))"
      "wf_table t'" "t_schema t' = t_schema t" "t_name t' = t_name t" "table_rows t' = table_rows t @ w # ws"
    by auto
  have "insert_values pw ps n t (es # rows) = insert_values pw ps (Suc n) t1 rows"
    using width t1(1) unfolding insert_values.simps Let_def by (auto simp del: insert_rows.simps)
  with t' w(3) show ?case by simp
qed simp


lemma runInsert_values:
  assumes "wf_catalog cat" "cat_get cat n = Some t"
    "col_positions (t_schema t) cols = Inr ps" "distinct ps"
    "\<forall>es \<in> set rows. cols \<noteq> [] \<longrightarrow> length es = length cols"
    "rmapM (inserted_row pw (t_schema t) ps) rows = Inr new"
  shows "\<exists>cat' t'. runInsert pw fuel \<lparr>ins_table = n, ins_schema = q, ins_columns = cols, ins_source = InsertValues rows\<rparr> cat
        = (cat', Inr (empty_result\<lparr>rowsAffected := length rows\<rparr>))
     \<and> cat_get cat' = (cat_get cat)(n \<mapsto> t')
     \<and> table_rows t' = table_rows t @ new \<and> t_schema t' = t_schema t \<and> wf_catalog cat'"
proof -
  note wf = wf_catalogD [OF assms(1,2)]
  have ps: "length ps = length cols" "set ps \<subseteq> {..<length (t_schema t)}"
    using col_positions_Inr [OF assms(3)] by auto
  have "\<forall>es \<in> set rows. ps \<noteq> [] \<longrightarrow> length es = length ps" using assms(5) ps(1) by auto
  from insert_values_ok [OF wf(3,2) assms(4) ps(2) this assms(6), of 0] obtain t' where
    t': "insert_values pw ps 0 t rows = (t', Inr (empty_result\<lparr>rowsAffected := length rows\<rparr>))"
      "wf_table t'" "t_schema t' = t_schema t" "t_name t' = t_name t" "table_rows t' = table_rows t @ new"
    by auto
  have "wf_catalog (cat_put n t' cat)" using wf t' by (intro wf_catalog_put [OF assms(1)]) auto
  then show ?thesis
    using assms(2,3) t' by (intro exI [of _ "cat_put n t' cat"] exI [of _ t'])
      (auto simp: runInsert_def getTable_def writeTable_def cat.get_put)
qed

text \<open>
  C24: INSERT ... VALUES appends, to the rows of its table, the values of every VALUES row in
  order, converted to the types of the columns; with a column list the other columns are NULL.
  The schema and all other tables stay as they were.
\<close>

theorem insert_values_appends:
  assumes "wf_catalog cat" "cat_get cat n = Some t"
    "col_positions (t_schema t) cols = Inr ps" "distinct ps"
    "\<forall>es \<in> set rows. cols \<noteq> [] \<longrightarrow> length es = length cols"
    "rmapM (inserted_row pw (t_schema t) ps) rows = Inr new"
  shows "\<exists>cat' t'. runInsert pw fuel \<lparr>ins_table = n, ins_schema = q, ins_columns = cols, ins_source = InsertValues rows\<rparr> cat
        = (cat', Inr (empty_result\<lparr>rowsAffected := length rows\<rparr>))
     \<and> cat_get cat' = (cat_get cat)(n \<mapsto> t')
     \<and> table_rows t' = table_rows t @ new \<and> t_schema t' = t_schema t \<and> wf_catalog cat'"
  by (rule runInsert_values [OF assms])

subsection \<open>UPDATE and DELETE\<close>

lemma register_rebuilt:
  assumes "wf_catalog cat" "cat_get cat n = Some t" "wf_table t'" "t_schema t' = t_schema t" "t_name t' = n"
  shows "cat_get (registerTable cat t') = (cat_get cat)(n \<mapsto> t')" "wf_catalog (registerTable cat t')"
  using assms wf_catalogD(2) [OF assms(1,2)] wf_catalog_put [OF assms(1)]
  by (auto simp: registerTable_def cat.get_put)

text \<open>
  C25: DELETE removes exactly the rows on which the condition holds, keeps the others in their
  order and unchanged, and reports how many it removed; without a condition it removes all.
\<close>

theorem delete_removes_matching:
  assumes "wf_catalog cat" "cat_get cat n = Some t"
    "rfilter (\<lambda>r. rmap Not (where_holds pw (t_schema t) w r)) (table_rows t) = Inr kept"
  shows "\<exists>cat' t'. runDelete pw \<lparr>del_table = n, del_schema = q, del_where = w\<rparr> cat
        = (cat', Inr (empty_result\<lparr>rowsAffected := rowCount t - length kept\<rparr>))
     \<and> cat_get cat' = (cat_get cat)(n \<mapsto> t')
     \<and> table_rows t' = kept \<and> t_schema t' = t_schema t \<and> wf_catalog cat'"
proof -
  note wf = wf_catalogD [OF assms(1,2)]
  have "set kept \<subseteq> set (table_rows t)" by (rule rfilter_set [OF assms(3)])
  then have "rmapM (stored_row (t_schema t)) kept = Inr (map (\<lambda>r. r) kept)"
    by (intro rmapM_Inr_map) (auto intro: stored_table_rows [OF wf(3)])
  with rebuiltTable_ok [OF wf(2), of kept kept n] obtain t' where
    t': "rebuiltTable n (t_schema t) kept = Inr t'" "wf_table t'" "t_schema t' = t_schema t" "t_name t' = n"
      "table_rows t' = kept" by auto
  have "for_table (delete_step pw (t_schema t) w) ([], 0) t = Inr (kept, rowCount t - length kept)"
    using delete_loop [OF assms(3), of "[]" 0] by (simp add: for_table_wf [OF wf(3)])
  with t' assms(2) register_rebuilt [OF assms(1,2) t'(2-4)] show ?thesis
    by (intro exI [of _ "registerTable cat t'"] exI [of _ t']) (auto simp: runDelete_def getTable_def)
qed

text \<open>
  C26: UPDATE replaces every row on which the condition holds by the row with the assigned
  values, all computed from the old row, keeps the other rows, and reports how many it changed.
\<close>

theorem update_assigns_matching:
  assumes "wf_catalog cat" "cat_get cat n = Some t"
    "col_positions (t_schema t) (map fst sets) = Inr ps" "distinct ps"
    "rmapM (\<lambda>r. rbind (where_holds pw (t_schema t) w r) (\<lambda>m.
        if m then rbind (rmapM (evaluate pw (t_schema t) r) (map snd sets)) (\<lambda>vs.
            stored_row (t_schema t) (assigned r ps vs))
        else Inr r)) (table_rows t) = Inr new"
  shows "\<exists>cat' t'. runUpdate pw \<lparr>upd_table = n, upd_schema = q, upd_assignments = sets, upd_where = w\<rparr> cat
        = (cat', Inr (empty_result\<lparr>rowsAffected :=
             length (filter (\<lambda>r. where_holds pw (t_schema t) w r = Inr True) (table_rows t))\<rparr>))
     \<and> cat_get cat' = (cat_get cat)(n \<mapsto> t')
     \<and> table_rows t' = new \<and> t_schema t' = t_schema t \<and> wf_catalog cat'"
proof -
  let ?s = "t_schema t"
  note wf = wf_catalogD [OF assms(1,2)]
  have ps: "length (map snd sets) = length ps" "set ps \<subseteq> {..<length ?s}"
    using col_positions_Inr [OF assms(3)] by auto
  have "rmapM (updated_stored pw ?s (zip ps (map snd sets)) w) (table_rows t) = Inr new"
  proof (subst assms(5) [symmetric], rule rmapM_cong [OF refl])
    fix r assume "r \<in> set (table_rows t)"
    then have "set ps \<subseteq> {..<length r}" using ps(2) table_rows_width [OF wf(3)] by auto
    from updated_row_assigned [OF assms(4) this ps(1), of pw ?s]
    show "updated_stored pw ?s (zip ps (map snd sets)) w r =
      rbind (where_holds pw ?s w r) (\<lambda>m.
        if m then rbind (rmapM (evaluate pw ?s r) (map snd sets)) (\<lambda>vs. stored_row ?s (assigned r ps vs))
        else Inr r)"
      unfolding updated_stored_def by (simp add: rmap_def rbind_assoc cong: if_cong)
  qed
  from update_loop [OF _ this, of "[]" 0] stored_table_rows [OF wf(3)] obtain mid where
    mid: "for_table (update_step pw ?s (zip ps (map snd sets)) w) ([], 0) t =
        Inr (mid, length (filter (\<lambda>r. where_holds pw ?s w r = Inr True) (table_rows t)))"
      "rmapM (stored_row ?s) mid = Inr new"
    by (auto simp: for_table_wf [OF wf(3)])
  from rebuiltTable_ok [OF wf(2) mid(2), of n] obtain t' where
    t': "rebuiltTable n ?s mid = Inr t'" "wf_table t'" "t_schema t' = ?s" "t_name t' = n" "table_rows t' = new"
    by auto
  with mid(1) assms(2,3) register_rebuilt [OF assms(1,2) t'(2-4)] show ?thesis
    by (intro exI [of _ "registerTable cat t'"] exI [of _ t']) (auto simp: runUpdate_def getTable_def Let_def)
qed


subsection \<open>The catalog as an invariant\<close>

lemma runInsert_wf:
  assumes "wf_catalog cat" "runInsert pw fuel ins cat = (cat', Inr r)"
  shows "wf_catalog cat'"
proof (cases "cat_get cat (ins_table ins)")
  case None
  with assms show ?thesis by (simp add: runInsert_def getTable_def)
next
  case (Some t)
  note wf = wf_catalogD [OF assms(1) Some]
  have put: "wf_catalog (writeTable cat (ins_table ins) t')"
    if "wf_table t' \<and> t_schema t' = t_schema t \<and> t_name t' = t_name t" for t'
    unfolding writeTable_def using that wf by (intro wf_catalog_put [OF assms(1)]) auto
  from assms Some show ?thesis
    by (auto simp: runInsert_def getTable_def intro!: put
        dest!: insert_values_wf [OF wf(3,2)] insert_select_wf [OF wf(3,2)]
        split: sum.splits insert_source.splits prod.splits)
qed

definition rejected :: "query_result res \<Rightarrow> bool" where
  "rejected out = (case out of Inl e \<Rightarrow> True | Inr r \<Rightarrow> qr_error r)"

text \<open>UPDATE and DELETE either keep the catalog or register a rebuilt table.\<close>

lemma runUpdate_cases:
  assumes "wf_catalog cat" "runUpdate pw u cat = (cat', out)"
  shows "cat' = cat \<and> rejected out \<or> (\<exists>t t' n. cat_get cat (upd_table u) = Some t \<and> wf_table t'
     \<and> t_schema t' = t_schema t \<and> t_name t' = upd_table u \<and> cat' = registerTable cat t'
     \<and> out = Inr (empty_result\<lparr>rowsAffected := n\<rparr>))"
proof (cases "cat_get cat (upd_table u)")
  case None
  with assms(2) show ?thesis by (auto simp: runUpdate_def rejected_def getTable_def)
next
  case (Some t)
  with assms(2) wf_catalogD(2) [OF assms(1) Some] show ?thesis
    by (auto simp: runUpdate_def rejected_def getTable_def Let_def res_simps makeError_def
        dest!: rebuiltTable_Inr [rotated] split: sum.splits prod.splits)
qed

lemma runDelete_cases:
  assumes "wf_catalog cat" "runDelete pw d cat = (cat', out)"
  shows "cat' = cat \<and> rejected out \<or> (\<exists>t t' n. cat_get cat (del_table d) = Some t \<and> wf_table t'
     \<and> t_schema t' = t_schema t \<and> t_name t' = del_table d \<and> cat' = registerTable cat t'
     \<and> out = Inr (empty_result\<lparr>rowsAffected := n\<rparr>))"
proof (cases "cat_get cat (del_table d)")
  case None
  with assms(2) show ?thesis by (auto simp: runDelete_def rejected_def getTable_def)
next
  case (Some t)
  with assms(2) wf_catalogD(2) [OF assms(1) Some] show ?thesis
    by (auto simp: runDelete_def rejected_def getTable_def Let_def res_simps
        dest!: rebuiltTable_Inr [rotated] split: sum.splits prod.splits)
qed


definition creates_column :: "stmt \<Rightarrow> bool" where
  "creates_column st = (case st of StmtCreateTable ct \<Rightarrow> ct_columns ct \<noteq> [] | _ \<Rightarrow> True)"

lemma keeps_catalog:
  assumes "wf_catalog cat" "creates_column st" "runStatement pw fuel st cat = (cat', Inr r)"
  shows "wf_catalog cat'"
proof (cases st)
  case (StmtCreateTable ct)
  have "fold (\<lambda>c s. addColumn s (cs_name c) (spec_type c)) (ct_columns ct) [] \<noteq> []"
    using assms(2) StmtCreateTable by (simp add: creates_column_def fold_addColumn)
  with StmtCreateTable assms show ?thesis by (auto simp: runCreate_def wf_registerSchema)
next
  case (StmtDropTable dt)
  with assms show ?thesis by (auto simp: runDrop_def dropTable_def wf_catalog_remove)
next
  case (StmtInsert ins)
  with assms show ?thesis by (auto intro: runInsert_wf)
next
  case (StmtUpdate u)
  with assms(3) runUpdate_cases [OF assms(1)] show ?thesis
    using assms(1) by (fastforce dest: register_rebuilt(2) [OF assms(1)])
next
  case (StmtDelete d)
  with assms(3) runDelete_cases [OF assms(1)] show ?thesis
    using assms(1) by (fastforce dest: register_rebuilt(2) [OF assms(1)])
qed (use assms in auto)


text \<open>
  C28: a statement other than INSERT that fails, by an exception or with an error result, leaves
  the catalog exactly as it was.
\<close>

theorem failed_statements_change_nothing:
  assumes "wf_catalog cat" "runStatement pw fuel st cat = (cat', out)" "rejected out"
    "case st of StmtInsert ins \<Rightarrow> False | _ \<Rightarrow> True"
  shows "cat' = cat"
proof (cases st)
  case (StmtUpdate u)
  with assms(2,3) runUpdate_cases [OF assms(1)] show ?thesis
    by (fastforce simp: rejected_def empty_result_def)
next
  case (StmtDelete d)
  with assms(2,3) runDelete_cases [OF assms(1)] show ?thesis
    by (fastforce simp: rejected_def empty_result_def)
next
  case (StmtDropTable dt)
  with assms(2,3) have "cat_get cat (dt_name dt) = None" "cat' = cat_remove (dt_name dt) cat"
    by (auto simp: runDrop_def dropTable_def rejected_def empty_result_def split: if_splits)
  then show ?thesis
    by (simp add: cat_remove_def cat_get_def map_of_eq_None_iff delete_idem)
qed (use assms in \<open>auto simp: runCreate_def rejected_def empty_result_def\<close>)


subsection \<open>SELECT\<close>

lemma general_delivers:
  assumes "wf_catalog cat" "buildSelect pw cat s = Inr op" "pending pw op = Inr rs"
  shows "\<exists>k. \<forall>fuel \<ge> k. general_select pw fuel cat s = Inr (empty_result\<lparr>qr_schema := op_schema op, qr_rows := rs\<rparr>)"
proof -
  from drained [OF built_wf(2) [OF assms(1,2)] assms(3)] obtain k out where
    "\<forall>fuel \<ge> k. drain pw fuel op = Inr out" "wf_batch out" "b_schema out = op_schema op" "rows_of out = rs"
    by blast
  then have "\<forall>fuel \<ge> k. general_select pw fuel cat s
      = Inr (empty_result\<lparr>qr_schema := op_schema op, qr_rows := rs\<rparr>)"
    using assms(2) by (simp add: general_select_def batch_rows_wf)
  then show ?thesis by blast
qed

lemma select_delivers:
  assumes "wf_catalog cat" "tryFastAggregate cat s = Inr None" "buildSelect pw cat s = Inr op"
    "pending pw op = Inr rs"
  shows "\<exists>k. \<forall>fuel \<ge> k. runSelect pw fuel cat s
      = Inr (empty_result\<lparr>qr_schema := op_schema op, qr_rows := rs\<rparr>)"
  using general_delivers [OF assms(1,3,4)] assms(2) by (simp add: runSelect_def)

text \<open>\<open>SELECT * FROM n\<close>, with an optional condition.\<close>

definition star_of :: "string \<Rightarrow> expr option \<Rightarrow> select_stmt" where
  "star_of n w = SelectStmt False [(ColumnRef None None ''*'', None)] (Some [TableRef None n]) w
     None None None None None"

lemma scanSchema_bare: "scanSchema t [] = t_schema t"
  by (simp add: scanSchema_def fold_addColumn)

lemma star_selects:
  assumes "wf_catalog cat" "cat_get cat n = Some t"
    "rfilter (where_holds pw (t_schema t) w) (table_rows t) = Inr rs"
  shows "\<exists>k. \<forall>fuel \<ge> k. runSelect pw fuel cat (star_of n w)
      = Inr (empty_result\<lparr>qr_schema := t_schema t, qr_rows := rs\<rparr>)"
proof -
  let ?scan = "mk_SeqScan t (t_schema t)"
  let ?op = "case w of None \<Rightarrow> ?scan | Some p \<Rightarrow> Filter ?scan p"
  have fast: "tryFastAggregate cat (star_of n w) = Inr None"
    using assms(2) by (simp add: tryFastAggregate_def fast_gate_def star_of_def group_col_def hasTable_def getTable_def)
  have plan: "buildSelect pw cat (star_of n w) = Inr ?op"
    using assms(2)
    by (auto simp: star_of_def finish_core_def isAggregateQuery_def plain_select_def isSelectStar_def
        applyOrderBy_def applyDistinct_def applyLimit_def scanSchema_bare getTable_def split: option.splits)
  have all: "rfilter (where_holds pw (t_schema t) None) rows = Inr rows" for rows
    by (induction rows) (simp_all add: where_holds_def)
  have some: "where_holds pw (t_schema t) (Some p) = (\<lambda>r. evaluatePredicate pw (t_schema t) r p)" for p
    by (simp add: where_holds_def fun_eq_iff)
  have "pending pw ?op = Inr rs"
    using assms(3) all by (cases w) (simp_all add: mk_SeqScan_def some)
  from select_delivers [OF assms(1) fast plan this] show ?thesis
    by (cases w) (simp_all add: mk_SeqScan_def)
qed

text \<open>
  C29: \<open>SELECT * FROM t\<close> returns all rows of the table in their order, and with a condition
  exactly those on which it holds, under the schema of the table.
\<close>

theorem select_star_filters:
  "wf_catalog cat \<Longrightarrow> cat_get cat n = Some t \<Longrightarrow>
   rfilter (where_holds pw (t_schema t) w) (table_rows t) = Inr rs \<Longrightarrow>
   \<exists>k. \<forall>fuel \<ge> k. runSelect pw fuel cat (star_of n w)
      = Inr (empty_result\<lparr>qr_schema := t_schema t, qr_rows := rs\<rparr>)"
  by (rule star_selects)

subsection \<open>Examples\<close>

definition demo_table :: table where
  "demo_table = table_new ''t'' (addColumn (addColumn [] ''a'' (dt_int32 True)) ''b'' (dt_varchar 0 True))"

lemma demo_shop_facts: "wf_catalog demo_shop" "cat_get demo_shop ''t'' = Some demo_table"
proof -
  show "wf_catalog demo_shop" unfolding demo_shop_def by (simp add: wf_registerSchema addColumn_def)
  show "cat_get demo_shop ''t'' = Some demo_table"
    by (simp add: demo_shop_def demo_table_def registerSchema_def)
qed

definition demo_values :: insert_stmt where
  "demo_values = \<lparr>ins_table = ''t'', ins_schema = None, ins_columns = [''b'', ''A''],
     ins_source = InsertValues [[Literal (VStr ''x''), Literal (VI64 1)],
                                [Literal VNull, Literal (VI64 2)]]\<rparr>"

theorem insert_values_appends_witness:
  "\<exists>cat' t'. runInsert demo_pw 0 demo_values demo_shop = (cat', Inr (empty_result\<lparr>rowsAffected := 2\<rparr>))
     \<and> cat_get cat' ''t'' = Some t' \<and> table_rows t' = [[VI32 1, VStr ''x''], [VI32 2, VNull]] \<and> wf_catalog cat'"
proof -
  have p: "col_positions (t_schema demo_table) [''b'', ''A''] = Inr [1, 0]" by code_simp
  have r: "rmapM (inserted_row demo_pw (t_schema demo_table) [1, 0])
      [[Literal (VStr ''x''), Literal (VI64 1)],
       [Literal VNull, Literal (VI64 2)]]
      = Inr [[VI32 1, VStr ''x''], [VI32 2, VNull]]"
    by code_simp
  have e: "table_rows demo_table = []" by (simp add: demo_table_def)
  from insert_values_appends [OF demo_shop_facts p _ _ r, of 0 None] e show ?thesis
    by (auto simp: demo_values_def)
qed

definition demo_stock :: catalog where
  "demo_stock = fst (runInsert demo_pw 0 demo_values demo_shop)"

definition demo_stocked :: table where
  "demo_stocked = the (cat_get demo_stock ''t'')"

lemma demo_stock_facts: "wf_catalog demo_stock" "cat_get demo_stock ''t'' = Some demo_stocked"
    "table_rows demo_stocked = [[VI32 1, VStr ''x''], [VI32 2, VNull]]"
proof -
  have "snd (runInsert demo_pw 0 demo_values demo_shop) = Inr (empty_result\<lparr>rowsAffected := 2\<rparr>)"
    by code_simp
  then show "wf_catalog demo_stock"
    unfolding demo_stock_def by (intro runInsert_wf [OF demo_shop_facts(1)] prod_eqI) auto
  have "cat_get demo_stock ''t'' \<noteq> None" by code_simp
  then show "cat_get demo_stock ''t'' = Some demo_stocked" by (auto simp: demo_stocked_def)
  show "table_rows demo_stocked = [[VI32 1, VStr ''x''], [VI32 2, VNull]]" by code_simp
qed

definition a_is_1 :: expr where
  "a_is_1 = BinaryExpr EQ (ColumnRef None None ''a'') (Literal (VI64 1))"

theorem delete_removes_matching_witness:
  "\<exists>cat' t'. runDelete demo_pw \<lparr>del_table = ''t'', del_schema = None, del_where = Some a_is_1\<rparr> demo_stock
        = (cat', Inr (empty_result\<lparr>rowsAffected := 1\<rparr>))
     \<and> cat_get cat' ''t'' = Some t' \<and> table_rows t' = [[VI32 2, VNull]]"
proof -
  have "rfilter (\<lambda>r. rmap Not (where_holds demo_pw (t_schema demo_stocked) (Some a_is_1) r)) (table_rows demo_stocked)
      = Inr [[VI32 2, VNull]]"
    unfolding demo_stock_facts(3) by code_simp
  moreover have "rowCount demo_stocked = 2" by code_simp
  ultimately show ?thesis
    using delete_removes_matching [OF demo_stock_facts(1,2), of demo_pw "Some a_is_1" _ None] by fastforce
qed

theorem update_assigns_matching_witness:
  "\<exists>cat' t'. runUpdate demo_pw \<lparr>upd_table = ''t'', upd_schema = None,
        upd_assignments = [(''b'', ColumnRef None None ''a''), (''a'', Literal (VI64 9))],
        upd_where = Some a_is_1\<rparr> demo_stock
        = (cat', Inr (empty_result\<lparr>rowsAffected := 1\<rparr>))
     \<and> cat_get cat' ''t'' = Some t' \<and> table_rows t' = [[VI32 9, VStr ''1''], [VI32 2, VNull]]"
proof -
  let ?s = "t_schema demo_stocked"
  let ?sets = "[(''b'', ColumnRef None None ''a''), (''a'', Literal (VI64 9))]"
  have p: "col_positions ?s (map fst ?sets) = Inr [1, 0]" by code_simp
  have r: "rmapM (\<lambda>r. rbind (where_holds demo_pw ?s (Some a_is_1) r) (\<lambda>m.
        if m then rbind (rmapM (evaluate demo_pw ?s r) (map snd ?sets)) (\<lambda>vs. stored_row ?s (assigned r [1, 0] vs))
        else Inr r)) (table_rows demo_stocked) = Inr [[VI32 9, VStr ''1''], [VI32 2, VNull]]"
    unfolding demo_stock_facts(3) by code_simp
  have n: "length (filter (\<lambda>r. where_holds demo_pw ?s (Some a_is_1) r = Inr True) (table_rows demo_stocked)) = 1"
    unfolding demo_stock_facts(3) by code_simp
  from update_assigns_matching [OF demo_stock_facts(1,2) p _ r, of None] n show ?thesis by auto
qed


theorem failed_statements_change_nothing_witness:
  "fst (runStatement demo_pw 0 (StmtDelete \<lparr>del_table = ''u'', del_schema = None, del_where = None\<rparr>) demo_shop)
     = demo_shop"
proof -
  let ?st = "StmtDelete \<lparr>del_table = ''u'', del_schema = None, del_where = None\<rparr>"
  have "rejected (snd (runStatement demo_pw 0 ?st demo_shop))" by code_simp
  then show ?thesis
    by (intro failed_statements_change_nothing [OF demo_shop_facts(1) prod.collapse [symmetric], of demo_pw 0 ?st]) auto
qed

theorem select_star_filters_witness:
  "\<exists>k. \<forall>fuel \<ge> k. runSelect demo_pw fuel demo_stock (star_of ''t'' None)
      = Inr (empty_result\<lparr>qr_schema := t_schema demo_stocked, qr_rows := [[VI32 1, VStr ''x''], [VI32 2, VNull]]\<rparr>)"
proof -
  have "rfilter (where_holds demo_pw (t_schema demo_stocked) None) (table_rows demo_stocked)
      = Inr [[VI32 1, VStr ''x''], [VI32 2, VNull]]"
    unfolding demo_stock_facts(3) by code_simp
  then show ?thesis by (rule select_star_filters [OF demo_stock_facts(1,2)])
qed

subsection \<open>Statements that surprise\<close>

text \<open>
  An INSERT is not undone when a later row of it fails: a first row stays, and the row on which
  the exception is thrown leaves the columns before it one value longer.
\<close>

lemma insert_not_atomic:
  "case runInsert demo_pw 0 \<lparr>ins_table = ''t'', ins_schema = None, ins_columns = [],
       ins_source = InsertValues [[Literal (VI64 1), Literal (VStr ''x'')], [Literal (VI64 2)]]\<rparr> demo_shop
   of (cat', out) \<Rightarrow> rejected out \<and> map_option rowCount (cat_get cat' ''t'') = Some 1"
  by code_simp

text \<open>CREATE TABLE does not look at IF NOT EXISTS and replaces the table by an empty one.\<close>

lemma create_if_not_exists_replaces:
  "case runCreate \<lparr>ct_schema = None, ct_name = ''t'',
       ct_columns = [\<lparr>cs_name = ''z'', cs_type = dt_int32 True, cs_constraints = []\<rparr>], ct_ifNotExists = True\<rparr> demo_stock
   of (cat', out) \<Rightarrow> \<not> rejected out \<and> map_option rowCount (cat_get cat' ''t'') = Some 0"
  by code_simp

end
