(* ===== verification/LQ_Lexer.thy ===== *)
theory LQ_Lexer
  imports LQ_Ast "HOL-Library.Sublist"
begin

section \<open>The lexer\<close>

text \<open>
  Model of \<open>src/parser/lexer.h\<close> and \<open>src/parser/lexer.cpp\<close>. The position in the source is the
  text that is left together with line and column (\<open>cursor\<close>), so a lexeme is what a later cursor
  no longer has. \<open>TokenKind\<close> is split into the groups of its declaration. \<open>peek\<close> beyond the end
  is the NUL character, as in the code; \<open>advance\<close> is only called where a character is left.
  Comments are always skipped: nothing calls \<open>setSkipComments\<close>, and both branches skip.
  Lemmas: every step consumes input, so the loop of \<open>tokenize\<close> terminates. What the tokens are is
  in \<open>LQ_LexProps\<close>.
\<close>

subsection \<open>TokenKind\<close>

datatype lit_kind =
    LIT_INTEGER | LIT_FLOAT | LIT_STRING | LIT_TRUE | LIT_FALSE | LIT_NULL
datatype kw_clause =
    KW_SELECT | KW_FROM | KW_WHERE | KW_GROUP | KW_BY | KW_HAVING
  | KW_ORDER | KW_LIMIT | KW_OFFSET | KW_DISTINCT | KW_AS | KW_UNION
  | KW_ALL
datatype kw_join =
    KW_JOIN | KW_INNER | KW_LEFT | KW_RIGHT | KW_FULL | KW_OUTER
  | KW_CROSS | KW_ON
datatype kw_ddl =
    KW_CREATE | KW_TABLE | KW_DROP | KW_INSERT | KW_INTO | KW_VALUES
  | KW_DELETE | KW_UPDATE | KW_SET
datatype kw_type =
    KW_INT | KW_INTEGER | KW_BIGINT | KW_SMALLINT | KW_TINYINT | KW_FLOAT
  | KW_DOUBLE | KW_REAL | KW_BOOLEAN | KW_BOOL | KW_VARCHAR | KW_TEXT
  | KW_DATE | KW_TIMESTAMP | KW_DECIMAL | KW_NUMERIC | KW_BLOB
datatype kw_constraint =
    KW_NOT | KW_NULL_KW | KW_PRIMARY | KW_KEY | KW_DEFAULT
datatype kw_expr =
    KW_AND | KW_OR | KW_NOT_KW | KW_IN | KW_LIKE | KW_ILIKE
  | KW_BETWEEN | KW_IS | KW_EXISTS
datatype kw_case =
    KW_CASE | KW_WHEN | KW_THEN | KW_ELSE | KW_END
datatype kw_sort =
    KW_ASC | KW_DESC | KW_NULLS | KW_FIRST | KW_LAST
datatype kw_window =
    KW_OVER | KW_PARTITION | KW_ROWS | KW_RANGE | KW_UNBOUNDED | KW_PRECEDING
  | KW_FOLLOWING | KW_CURRENT | KW_ROW
datatype op_kind =
    OP_PLUS | OP_MINUS | OP_STAR | OP_SLASH | OP_PERCENT | OP_CARET
  | OP_EQ | OP_NEQ | OP_LT | OP_LTE | OP_GT | OP_GTE
  | OP_CONCAT | OP_ARROW | OP_ARROW2
datatype punct_kind =
    LPAREN | RPAREN | LBRACKET | RBRACKET | COMMA | SEMICOLON
  | DOT | COLON | DOUBLE_COLON | QUESTION | DOLLAR_NUM

datatype token_kind =
    Lit lit_kind
  | Clause kw_clause
  | JoinWord kw_join
  | Ddl kw_ddl
  | TypeWord kw_type
  | Constraint kw_constraint
  | ExprWord kw_expr
  | CaseWord kw_case
  | SortWord kw_sort
  | WindowWord kw_window
  | Op op_kind
  | Punct punct_kind
  | IDENT | END_OF_FILE | ERROR

fun lit_kind_name :: "lit_kind \<Rightarrow> string" where
    "lit_kind_name LIT_INTEGER = ''LIT_INTEGER''"
  | "lit_kind_name LIT_FLOAT = ''LIT_FLOAT''"
  | "lit_kind_name LIT_STRING = ''LIT_STRING''"
  | "lit_kind_name LIT_TRUE = ''LIT_TRUE''"
  | "lit_kind_name LIT_FALSE = ''LIT_FALSE''"
  | "lit_kind_name LIT_NULL = ''LIT_NULL''"

fun kw_clause_name :: "kw_clause \<Rightarrow> string" where
    "kw_clause_name KW_SELECT = ''SELECT''"
  | "kw_clause_name KW_FROM = ''FROM''"
  | "kw_clause_name KW_WHERE = ''WHERE''"
  | "kw_clause_name KW_GROUP = ''GROUP''"
  | "kw_clause_name KW_BY = ''BY''"
  | "kw_clause_name KW_HAVING = ''HAVING''"
  | "kw_clause_name KW_ORDER = ''ORDER''"
  | "kw_clause_name KW_LIMIT = ''LIMIT''"
  | "kw_clause_name KW_OFFSET = ''OFFSET''"
  | "kw_clause_name KW_DISTINCT = ''DISTINCT''"
  | "kw_clause_name KW_AS = ''AS''"
  | "kw_clause_name KW_UNION = ''UNION''"
  | "kw_clause_name KW_ALL = ''ALL''"

fun kw_join_name :: "kw_join \<Rightarrow> string" where
    "kw_join_name KW_JOIN = ''JOIN''"
  | "kw_join_name KW_INNER = ''INNER''"
  | "kw_join_name KW_LEFT = ''LEFT''"
  | "kw_join_name KW_RIGHT = ''RIGHT''"
  | "kw_join_name KW_FULL = ''FULL''"
  | "kw_join_name KW_OUTER = ''OUTER''"
  | "kw_join_name KW_CROSS = ''CROSS''"
  | "kw_join_name KW_ON = ''ON''"

fun kw_ddl_name :: "kw_ddl \<Rightarrow> string" where
    "kw_ddl_name KW_CREATE = ''CREATE''"
  | "kw_ddl_name KW_TABLE = ''TABLE''"
  | "kw_ddl_name KW_DROP = ''DROP''"
  | "kw_ddl_name KW_INSERT = ''INSERT''"
  | "kw_ddl_name KW_INTO = ''INTO''"
  | "kw_ddl_name KW_VALUES = ''VALUES''"
  | "kw_ddl_name KW_DELETE = ''DELETE''"
  | "kw_ddl_name KW_UPDATE = ''UPDATE''"
  | "kw_ddl_name KW_SET = ''SET''"

fun kw_type_name :: "kw_type \<Rightarrow> string" where
    "kw_type_name KW_INT = ''INT''"
  | "kw_type_name KW_INTEGER = ''INTEGER''"
  | "kw_type_name KW_BIGINT = ''BIGINT''"
  | "kw_type_name KW_SMALLINT = ''SMALLINT''"
  | "kw_type_name KW_TINYINT = ''TINYINT''"
  | "kw_type_name KW_FLOAT = ''FLOAT''"
  | "kw_type_name KW_DOUBLE = ''DOUBLE''"
  | "kw_type_name KW_REAL = ''REAL''"
  | "kw_type_name KW_BOOLEAN = ''BOOLEAN''"
  | "kw_type_name KW_BOOL = ''BOOL''"
  | "kw_type_name KW_VARCHAR = ''VARCHAR''"
  | "kw_type_name KW_TEXT = ''TEXT''"
  | "kw_type_name KW_DATE = ''DATE''"
  | "kw_type_name KW_TIMESTAMP = ''TIMESTAMP''"
  | "kw_type_name KW_DECIMAL = ''DECIMAL''"
  | "kw_type_name KW_NUMERIC = ''NUMERIC''"
  | "kw_type_name KW_BLOB = ''BLOB''"

fun kw_constraint_name :: "kw_constraint \<Rightarrow> string" where
    "kw_constraint_name KW_NOT = ''NOT''"
  | "kw_constraint_name KW_NULL_KW = ''NULL''"
  | "kw_constraint_name KW_PRIMARY = ''PRIMARY''"
  | "kw_constraint_name KW_KEY = ''KEY''"
  | "kw_constraint_name KW_DEFAULT = ''DEFAULT''"

fun kw_expr_name :: "kw_expr \<Rightarrow> string" where
    "kw_expr_name KW_AND = ''AND''"
  | "kw_expr_name KW_OR = ''OR''"
  | "kw_expr_name KW_NOT_KW = ''NOT''"
  | "kw_expr_name KW_IN = ''IN''"
  | "kw_expr_name KW_LIKE = ''LIKE''"
  | "kw_expr_name KW_ILIKE = ''ILIKE''"
  | "kw_expr_name KW_BETWEEN = ''BETWEEN''"
  | "kw_expr_name KW_IS = ''IS''"
  | "kw_expr_name KW_EXISTS = ''EXISTS''"

fun kw_case_name :: "kw_case \<Rightarrow> string" where
    "kw_case_name KW_CASE = ''CASE''"
  | "kw_case_name KW_WHEN = ''WHEN''"
  | "kw_case_name KW_THEN = ''THEN''"
  | "kw_case_name KW_ELSE = ''ELSE''"
  | "kw_case_name KW_END = ''END''"

fun kw_sort_name :: "kw_sort \<Rightarrow> string" where
    "kw_sort_name KW_ASC = ''ASC''"
  | "kw_sort_name KW_DESC = ''DESC''"
  | "kw_sort_name KW_NULLS = ''NULLS''"
  | "kw_sort_name KW_FIRST = ''FIRST''"
  | "kw_sort_name KW_LAST = ''LAST''"

fun kw_window_name :: "kw_window \<Rightarrow> string" where
    "kw_window_name KW_OVER = ''OVER''"
  | "kw_window_name KW_PARTITION = ''PARTITION''"
  | "kw_window_name KW_ROWS = ''ROWS''"
  | "kw_window_name KW_RANGE = ''RANGE''"
  | "kw_window_name KW_UNBOUNDED = ''UNBOUNDED''"
  | "kw_window_name KW_PRECEDING = ''PRECEDING''"
  | "kw_window_name KW_FOLLOWING = ''FOLLOWING''"
  | "kw_window_name KW_CURRENT = ''CURRENT''"
  | "kw_window_name KW_ROW = ''ROW''"

fun op_kind_name :: "op_kind \<Rightarrow> string" where
    "op_kind_name OP_PLUS = ''+''"
  | "op_kind_name OP_MINUS = ''-''"
  | "op_kind_name OP_STAR = ''*''"
  | "op_kind_name OP_SLASH = ''/''"
  | "op_kind_name OP_PERCENT = ''%''"
  | "op_kind_name OP_CARET = ''^''"
  | "op_kind_name OP_EQ = ''=''"
  | "op_kind_name OP_NEQ = ''<>''"
  | "op_kind_name OP_LT = ''<''"
  | "op_kind_name OP_LTE = ''<=''"
  | "op_kind_name OP_GT = ''>''"
  | "op_kind_name OP_GTE = ''>=''"
  | "op_kind_name OP_CONCAT = ''||''"
  | "op_kind_name OP_ARROW = ''->''"
  | "op_kind_name OP_ARROW2 = ''->>''"

fun punct_kind_name :: "punct_kind \<Rightarrow> string" where
    "punct_kind_name LPAREN = ''(''"
  | "punct_kind_name RPAREN = '')''"
  | "punct_kind_name LBRACKET = ''[''"
  | "punct_kind_name RBRACKET = '']''"
  | "punct_kind_name COMMA = '',''"
  | "punct_kind_name SEMICOLON = '';''"
  | "punct_kind_name DOT = ''.''"
  | "punct_kind_name COLON = '':''"
  | "punct_kind_name DOUBLE_COLON = ''::''"
  | "punct_kind_name QUESTION = ''?''"
  | "punct_kind_name DOLLAR_NUM = ''DOLLAR_PARAM''"

fun tokenKindName :: "token_kind \<Rightarrow> string" where
    "tokenKindName (Lit k) = lit_kind_name k"
  | "tokenKindName (Clause k) = kw_clause_name k"
  | "tokenKindName (JoinWord k) = kw_join_name k"
  | "tokenKindName (Ddl k) = kw_ddl_name k"
  | "tokenKindName (TypeWord k) = kw_type_name k"
  | "tokenKindName (Constraint k) = kw_constraint_name k"
  | "tokenKindName (ExprWord k) = kw_expr_name k"
  | "tokenKindName (CaseWord k) = kw_case_name k"
  | "tokenKindName (SortWord k) = kw_sort_name k"
  | "tokenKindName (WindowWord k) = kw_window_name k"
  | "tokenKindName (Op k) = op_kind_name k"
  | "tokenKindName (Punct k) = punct_kind_name k"
  | "tokenKindName IDENT = ''IDENT''"
  | "tokenKindName END_OF_FILE = ''EOF''"
  | "tokenKindName ERROR = ''ERROR''"

subsection \<open>Token\<close>

definition location_string :: "location \<Rightarrow> string" where
  "location_string l = nat_string (unat (loc_line l)) @ '':'' @ nat_string (unat (loc_column l))"

record token =
  tk_kind :: token_kind
  lexeme :: string
  tk_loc :: location

definition isKeyword :: "token \<Rightarrow> bool" where
  "isKeyword t = (case tk_kind t of
       Clause _ \<Rightarrow> True | JoinWord _ \<Rightarrow> True | Ddl _ \<Rightarrow> True | TypeWord _ \<Rightarrow> True | Constraint _ \<Rightarrow> True
     | ExprWord _ \<Rightarrow> True | CaseWord _ \<Rightarrow> True | SortWord _ \<Rightarrow> True | WindowWord _ \<Rightarrow> True | _ \<Rightarrow> False)"

definition isLiteral :: "token \<Rightarrow> bool" where
  "isLiteral t = (case tk_kind t of Lit _ \<Rightarrow> True | _ \<Rightarrow> False)"

definition isEof :: "token \<Rightarrow> bool" where
  "isEof t = (tk_kind t = END_OF_FILE)"

text \<open>\<open>stringValue\<close>: the text between the quotes, a doubled quote for one.\<close>

definition quote :: char where "quote = CHR 0x27"
definition dquote :: char where "dquote = CHR 0x22"

fun unescape :: "char \<Rightarrow> string \<Rightarrow> string" where
  "unescape q [] = []"
| "unescape q [c] = [c]"
| "unescape q (c # d # s) = (if c = q \<and> d = q then q # unescape q s else c # unescape q (d # s))"

definition stringValue :: "token \<Rightarrow> string res" where
  "stringValue t =
     (if tk_kind t \<noteq> Lit LIT_STRING then Inl (LogicError ''Token::stringValue called on non-string token'')
      else if length (lexeme t) < 2 \<or> hd (lexeme t) \<noteq> quote \<or> last (lexeme t) \<noteq> quote
      then Inl (Undefined ''assert: quoted lexeme'')
      else Inr (unescape quote (butlast (tl (lexeme t)))))"

definition intValue :: "token \<Rightarrow> 64 word res" where
  "intValue t =
     (if tk_kind t \<noteq> Lit LIT_INTEGER then Inl (LogicError ''Token::intValue called on non-integer token'')
      else case from_chars_i64 (lexeme t) of
        FcOk v r \<Rightarrow> Inr v
      | FcRange r \<Rightarrow> Inl (OutOfRange (''Integer literal out of range: '' @ lexeme t))
      | FcInvalid \<Rightarrow> Inl (OutOfRange (''Integer literal out of range: '' @ lexeme t)))"

definition floatValue :: "token \<Rightarrow> f64 res" where
  "floatValue t =
     (if tk_kind t \<noteq> Lit LIT_FLOAT then Inl (LogicError ''Token::floatValue called on non-float token'')
      else rbind (stod (lexeme t)) (\<lambda>(v, consumed).
        if consumed \<noteq> length (lexeme t) then Inl (InvalidArgument (''Malformed float literal: '' @ lexeme t))
        else Inr v))"

subsection \<open>Results and keywords\<close>

record lex_error =
  le_message :: string
  le_loc :: location

record lex_result =
  lr_tokens :: "token list"
  lr_errors :: "lex_error list"

definition lex_ok :: "lex_result \<Rightarrow> bool" where
  "lex_ok r = (lr_errors r = [])"

definition keywordTable :: "(string \<times> token_kind) list" where
  "keywordTable =
    [(''SELECT'', Clause KW_SELECT), (''FROM'', Clause KW_FROM), (''WHERE'', Clause KW_WHERE),
     (''GROUP'', Clause KW_GROUP), (''BY'', Clause KW_BY), (''HAVING'', Clause KW_HAVING),
     (''ORDER'', Clause KW_ORDER), (''LIMIT'', Clause KW_LIMIT), (''OFFSET'', Clause KW_OFFSET),
     (''DISTINCT'', Clause KW_DISTINCT), (''AS'', Clause KW_AS), (''UNION'', Clause KW_UNION),
     (''ALL'', Clause KW_ALL), (''JOIN'', JoinWord KW_JOIN), (''INNER'', JoinWord KW_INNER),
     (''LEFT'', JoinWord KW_LEFT), (''RIGHT'', JoinWord KW_RIGHT), (''FULL'', JoinWord KW_FULL),
     (''OUTER'', JoinWord KW_OUTER), (''CROSS'', JoinWord KW_CROSS), (''ON'', JoinWord KW_ON),
     (''CREATE'', Ddl KW_CREATE), (''TABLE'', Ddl KW_TABLE), (''DROP'', Ddl KW_DROP),
     (''INSERT'', Ddl KW_INSERT), (''INTO'', Ddl KW_INTO), (''VALUES'', Ddl KW_VALUES),
     (''DELETE'', Ddl KW_DELETE), (''UPDATE'', Ddl KW_UPDATE), (''SET'', Ddl KW_SET),
     (''INT'', TypeWord KW_INT), (''INTEGER'', TypeWord KW_INTEGER), (''BIGINT'', TypeWord KW_BIGINT),
     (''SMALLINT'', TypeWord KW_SMALLINT), (''TINYINT'', TypeWord KW_TINYINT), (''FLOAT'', TypeWord KW_FLOAT),
     (''DOUBLE'', TypeWord KW_DOUBLE), (''REAL'', TypeWord KW_REAL), (''BOOLEAN'', TypeWord KW_BOOLEAN),
     (''BOOL'', TypeWord KW_BOOL), (''VARCHAR'', TypeWord KW_VARCHAR), (''TEXT'', TypeWord KW_TEXT),
     (''DATE'', TypeWord KW_DATE), (''TIMESTAMP'', TypeWord KW_TIMESTAMP), (''DECIMAL'', TypeWord KW_DECIMAL),
     (''NUMERIC'', TypeWord KW_NUMERIC), (''BLOB'', TypeWord KW_BLOB), (''NOT'', Constraint KW_NOT),
     (''NULL'', Lit LIT_NULL), (''PRIMARY'', Constraint KW_PRIMARY), (''KEY'', Constraint KW_KEY),
     (''DEFAULT'', Constraint KW_DEFAULT), (''AND'', ExprWord KW_AND), (''OR'', ExprWord KW_OR),
     (''IN'', ExprWord KW_IN), (''LIKE'', ExprWord KW_LIKE), (''ILIKE'', ExprWord KW_ILIKE),
     (''BETWEEN'', ExprWord KW_BETWEEN), (''IS'', ExprWord KW_IS), (''EXISTS'', ExprWord KW_EXISTS),
     (''CASE'', CaseWord KW_CASE), (''WHEN'', CaseWord KW_WHEN), (''THEN'', CaseWord KW_THEN),
     (''ELSE'', CaseWord KW_ELSE), (''END'', CaseWord KW_END), (''ASC'', SortWord KW_ASC),
     (''DESC'', SortWord KW_DESC), (''NULLS'', SortWord KW_NULLS), (''FIRST'', SortWord KW_FIRST),
     (''LAST'', SortWord KW_LAST), (''OVER'', WindowWord KW_OVER), (''PARTITION'', WindowWord KW_PARTITION),
     (''ROWS'', WindowWord KW_ROWS), (''RANGE'', WindowWord KW_RANGE), (''UNBOUNDED'', WindowWord KW_UNBOUNDED),
     (''PRECEDING'', WindowWord KW_PRECEDING), (''FOLLOWING'', WindowWord KW_FOLLOWING), (''CURRENT'', WindowWord KW_CURRENT),
     (''ROW'', WindowWord KW_ROW), (''TRUE'', Lit LIT_TRUE), (''FALSE'', Lit LIT_FALSE)]"

definition classifyKeyword :: "string \<Rightarrow> token_kind" where
  "classifyKeyword upper = (case map_of keywordTable upper of None \<Rightarrow> IDENT | Some k \<Rightarrow> k)"

subsection \<open>The cursor\<close>

datatype cursor = Cursor (rest: string) (cur_line: "32 word") (cur_column: "32 word")

definition lexer_new :: "string \<Rightarrow> cursor" where
  "lexer_new source = Cursor source 1 1"

definition peek :: "cursor \<Rightarrow> nat \<Rightarrow> char" where
  "peek c i = (if i < length (rest c) then rest c ! i else CHR 0x00)"

fun advance :: "cursor \<Rightarrow> cursor" where
  "advance (Cursor [] l k) = Cursor [] l k"
| "advance (Cursor (x # xs) l k) = (if x = CHR 0x0A then Cursor xs (l + 1) 1 else Cursor xs l (k + 1))"

definition isAtEnd :: "cursor \<Rightarrow> bool" where
  "isAtEnd c = (rest c = [])"

definition currentLocation :: "cursor \<Rightarrow> location" where
  "currentLocation c = Loc (cur_line c) (cur_column c)"

text \<open>\<open>match\<close>: the cursor behind the expected character, if it is there.\<close>

definition lex_match :: "cursor \<Rightarrow> char \<Rightarrow> cursor option" where
  "lex_match c x = (if isAtEnd c \<or> peek c 0 \<noteq> x then None else Some (advance c))"

text \<open>The token from \<open>start\<close> to \<open>c\<close>, with the location its caller captured.\<close>

definition makeToken :: "token_kind \<Rightarrow> cursor \<Rightarrow> cursor \<Rightarrow> location \<Rightarrow> token" where
  "makeToken k start c loc =
     \<lparr>tk_kind = k, lexeme = take (length (rest start) - length (rest c)) (rest start), tk_loc = loc\<rparr>"

lemma length_advance: "rest c \<noteq> [] \<Longrightarrow> length (rest (advance c)) < length (rest c)"
  by (cases c rule: advance.cases) auto

lemma length_advance_le: "length (rest (advance c)) \<le> length (rest c)"
  by (cases c rule: advance.cases) auto

text \<open>A loop \<open>while (!isAtEnd() && P(peek())) advance()\<close>.\<close>

function skip_while :: "(char \<Rightarrow> bool) \<Rightarrow> cursor \<Rightarrow> cursor" where
  "skip_while P c = (if \<not> isAtEnd c \<and> P (peek c 0) then skip_while P (advance c) else c)"
  by pat_completeness auto
termination
  by (relation "measure (\<lambda>(P, c). length (rest c))") (auto simp: isAtEnd_def length_advance)

declare skip_while.simps [simp del]

definition skipWhitespace :: "cursor \<Rightarrow> cursor" where
  "skipWhitespace c = skip_while (\<lambda>x. x = CHR '' '' \<or> x = CHR 0x09 \<or> x = CHR 0x0D \<or> x = CHR 0x0A) c"

definition skipLineComment :: "cursor \<Rightarrow> cursor" where
  "skipLineComment c = skip_while (\<lambda>x. x \<noteq> CHR 0x0A) c"

subsection \<open>Scanners\<close>

type_synonym scanned = "cursor \<times> lex_result"

definition emit :: "token_kind \<Rightarrow> cursor \<Rightarrow> cursor \<Rightarrow> location \<Rightarrow> lex_result \<Rightarrow> scanned" where
  "emit k start c loc out = (c, out\<lparr>lr_tokens := lr_tokens out @ [makeToken k start c loc]\<rparr>)"

definition report :: "string \<Rightarrow> location \<Rightarrow> lex_result \<Rightarrow> lex_result" where
  "report msg loc out = out\<lparr>lr_errors := lr_errors out @ [\<lparr>le_message = msg, le_loc = loc\<rparr>]\<rparr>"

definition emit_error :: "string \<Rightarrow> cursor \<Rightarrow> cursor \<Rightarrow> location \<Rightarrow> lex_result \<Rightarrow> scanned" where
  "emit_error msg start c loc out = emit ERROR start c loc (report msg loc out)"

text \<open>The loop of \<open>skipBlockComment\<close> over the nesting depth.\<close>

function block_loop :: "nat \<Rightarrow> cursor \<Rightarrow> nat \<times> cursor" where
  "block_loop d c =
     (if isAtEnd c \<or> d = 0 then (d, c)
      else let x = peek c 0; c1 = advance c in
        if x = CHR ''/'' \<and> peek c1 0 = CHR ''*'' then block_loop (d + 1) (advance c1)
        else if x = CHR ''*'' \<and> peek c1 0 = CHR ''/'' then block_loop (d - 1) (advance c1)
        else block_loop d c1)"
  by pat_completeness auto
termination
  by (relation "measure (\<lambda>(d, c). length (rest c))")
     (auto simp: isAtEnd_def length_advance intro: le_less_trans [OF length_advance_le])

declare block_loop.simps [simp del]

definition skipBlockComment :: "cursor \<Rightarrow> lex_result \<Rightarrow> scanned" where
  "skipBlockComment c out =
     (case block_loop 1 c of (d, c') \<Rightarrow>
        (c', if 0 < d then report ''Unterminated block comment'' (currentLocation c) out else out))"

text \<open>\<open>scanNumber\<close>: the caller has advanced past the first digit, at \<open>start\<close>.\<close>

definition scanNumber :: "cursor \<Rightarrow> cursor \<Rightarrow> lex_result \<Rightarrow> scanned" where
  "scanNumber start c out =
     (let loc = currentLocation c;
          c1 = skip_while isdigit c;
          frac = (peek c1 0 = CHR ''.'' \<and> isdigit (peek c1 1));
          c2 = (if frac then skip_while isdigit (advance c1) else c1);
          nxt = peek c2 1
      in if (peek c2 0 = CHR ''e'' \<or> peek c2 0 = CHR ''E'')
            \<and> (isdigit nxt \<or> nxt = CHR ''+'' \<or> nxt = CHR ''-'') then
           (let c3 = advance c2;
                c4 = (if peek c3 0 = CHR ''+'' \<or> peek c3 0 = CHR ''-'' then advance c3 else c3)
            in if \<not> isdigit (peek c4 0)
               then emit_error ''Malformed exponent in numeric literal'' start c4 loc out
               else emit (Lit LIT_FLOAT) start (skip_while isdigit c4) loc out)
         else emit (Lit (if frac then LIT_FLOAT else LIT_INTEGER)) start c2 loc out)"

text \<open>The loop of \<open>scanString\<close> and \<open>scanQuotedIdent\<close>: whether the closing quote was found.\<close>

function quoted_loop :: "char \<Rightarrow> cursor \<Rightarrow> bool \<times> cursor" where
  "quoted_loop q c =
     (if isAtEnd c then (False, c)
      else let x = peek c 0; c1 = advance c in
        if x = q then (if peek c1 0 = q then quoted_loop q (advance c1) else (True, c1))
        else quoted_loop q c1)"
  by pat_completeness auto
termination
  by (relation "measure (\<lambda>(q, c). length (rest c))")
     (auto simp: isAtEnd_def length_advance intro: le_less_trans [OF length_advance_le])

declare quoted_loop.simps [simp del]

definition scanString :: "cursor \<Rightarrow> cursor \<Rightarrow> lex_result \<Rightarrow> scanned" where
  "scanString start c out =
     (case quoted_loop quote c of (closed, c') \<Rightarrow>
        if closed then emit (Lit LIT_STRING) start c' (currentLocation c) out
        else emit_error ''Unterminated string literal'' start c' (currentLocation c) out)"

definition scanQuotedIdent :: "cursor \<Rightarrow> cursor \<Rightarrow> lex_result \<Rightarrow> scanned" where
  "scanQuotedIdent start c out =
     (case quoted_loop dquote c of (closed, c') \<Rightarrow>
        if closed then emit IDENT start c' (currentLocation c) out
        else emit_error ''Unterminated quoted identifier'' start c' (currentLocation c) out)"

definition ident_char :: "char \<Rightarrow> bool" where
  "ident_char x = (isalnum x \<or> x = CHR ''_'')"

text \<open>The buffer for the upper-case copy holds 63 characters.\<close>

definition scanIdentOrKeyword :: "cursor \<Rightarrow> cursor \<Rightarrow> lex_result \<Rightarrow> scanned" where
  "scanIdentOrKeyword start c out =
     (let c' = skip_while ident_char c;
          raw = lexeme (makeToken IDENT start c' (currentLocation c))
      in emit (classifyKeyword (map toupper (take 63 raw))) start c' (currentLocation c) out)"

definition scanDollarParam :: "cursor \<Rightarrow> cursor \<Rightarrow> lex_result \<Rightarrow> scanned" where
  "scanDollarParam start c out =
     (if \<not> isdigit (peek c 0)
      then emit_error (''Bare '' @ quoted ''$'' @ '' is not a valid token; did you mean $1?'') start c (currentLocation c) out
      else emit (Punct DOLLAR_NUM) start (skip_while isdigit c) (currentLocation c) out)"

subsection \<open>tokenize\<close>

text \<open>The characters that are tokens by themselves.\<close>

definition single_char :: "char \<Rightarrow> token_kind option" where
  "single_char x = map_of
     [(CHR ''('', Punct LPAREN), (CHR '')'', Punct RPAREN), (CHR ''['', Punct LBRACKET),
      (CHR '']'', Punct RBRACKET), (CHR '','', Punct COMMA), (CHR '';'', Punct SEMICOLON),
      (CHR ''*'', Op OP_STAR), (CHR ''+'', Op OP_PLUS), (CHR ''%'', Op OP_PERCENT),
      (CHR ''^'', Op OP_CARET), (CHR ''='', Op OP_EQ), (CHR ''?'', Punct QUESTION)] x"

text \<open>\<open>match(x) ? yes : no\<close>, emitted from \<open>start\<close>.\<close>

definition emit_match ::
    "char \<Rightarrow> token_kind \<Rightarrow> token_kind \<Rightarrow> cursor \<Rightarrow> cursor \<Rightarrow> location \<Rightarrow> lex_result \<Rightarrow> scanned" where
  "emit_match x yes no start c loc out =
     (case lex_match c x of Some c' \<Rightarrow> emit yes start c' loc out | None \<Rightarrow> emit no start c loc out)"

text \<open>The operators of more than one character, and \<open>.\<close> with the digits of a fraction.\<close>

definition scanOperator :: "char \<Rightarrow> cursor \<Rightarrow> cursor \<Rightarrow> location \<Rightarrow> lex_result \<Rightarrow> scanned option" where
  "scanOperator x start c loc out =
     (if x = CHR ''<'' then Some (case lex_match c CHR ''='' of
          Some c' \<Rightarrow> emit (Op OP_LTE) start c' loc out
        | None \<Rightarrow> emit_match CHR ''>'' (Op OP_NEQ) (Op OP_LT) start c loc out)
      else if x = CHR ''>'' then Some (emit_match CHR ''='' (Op OP_GTE) (Op OP_GT) start c loc out)
      else if x = CHR ''!'' then Some (case lex_match c CHR ''='' of
          Some c' \<Rightarrow> emit (Op OP_NEQ) start c' loc out
        | None \<Rightarrow> emit_error (''Unexpected '' @ quoted ''!'' @ ''; did you mean '' @ quoted ''!='' @ ''?'') start c loc out)
      else if x = CHR ''|'' then Some (case lex_match c CHR ''|'' of
          Some c' \<Rightarrow> emit (Op OP_CONCAT) start c' loc out
        | None \<Rightarrow> emit_error (''Single '' @ quoted ''|'' @ '' is not valid; did you mean '' @ quoted ''||'' @ ''?'') start c loc out)
      else if x = CHR ''-'' then Some (
        if peek c 0 = CHR ''>'' then
          (let c1 = advance c in
           if peek c1 0 = CHR ''>'' then emit (Op OP_ARROW2) start (advance c1) loc out
           else emit (Op OP_ARROW) start c1 loc out)
        else emit (Op OP_MINUS) start c loc out)
      else if x = CHR ''/'' then Some (emit (Op OP_SLASH) start c loc out)
      else if x = CHR '':'' then Some (emit_match CHR '':'' (Punct DOUBLE_COLON) (Punct COLON) start c loc out)
      else if x = CHR ''.'' then Some (
        if isdigit (peek c 0) then emit (Lit LIT_FLOAT) start (skip_while isdigit c) loc out
        else emit (Punct DOT) start c loc out)
      else None)"

text \<open>The body of the loop, at a character that is not white space.\<close>

definition lex_step :: "cursor \<Rightarrow> lex_result \<Rightarrow> scanned" where
  "lex_step start out =
     (let loc = currentLocation start; x = peek start 0; c = advance start in
      if x = CHR ''-'' \<and> peek c 0 = CHR ''-'' then (skipLineComment (advance c), out)
      else if x = CHR ''/'' \<and> peek c 0 = CHR ''*'' then skipBlockComment (advance c) out
      else case single_char x of
        Some k \<Rightarrow> emit k start c loc out
      | None \<Rightarrow> (case scanOperator x start c loc out of
          Some r \<Rightarrow> r
        | None \<Rightarrow>
            if x = quote then scanString start c out
            else if x = dquote then scanQuotedIdent start c out
            else if isdigit x then scanNumber start c out
            else if x = CHR ''$'' then scanDollarParam start c out
            else if isalpha x \<or> x = CHR ''_'' then scanIdentOrKeyword start c out
            else emit_error (''Unexpected character '' @ quoted [x]) start c loc out))"


subsection \<open>Every step consumes input\<close>

lemma advance_Cons: "rest c = x # xs \<Longrightarrow> rest (advance c) = xs"
  by (cases c) auto

lemma suffix_advance: "suffix (rest (advance c)) (rest c)"
  by (cases c rule: advance.cases) (auto simp: suffix_def)

lemma suffix_advanceD: "suffix a (rest (advance c)) \<Longrightarrow> suffix a (rest c)"
  using suffix_advance suffix_order.trans by blast

lemma suffix_skip_while: "suffix (rest (skip_while P c)) (rest c)"
proof (induction P c rule: skip_while.induct)
  case (1 P c)
  show ?case
  proof (cases "\<not> isAtEnd c \<and> P (peek c 0)")
    case True
    from suffix_advanceD [OF "1.IH" [OF True]] True show ?thesis by (simp add: skip_while.simps [of P c])
  qed (auto simp: skip_while.simps [of P c])
qed

lemma suffix_block_loop: "suffix (rest (snd (block_loop d c))) (rest c)"
proof (induction d c rule: block_loop.induct)
  case (1 d c)
  show ?case
  proof (cases "isAtEnd c \<or> d = 0")
    case False
    note IH = "1.IH" [OF False refl refl]
    show ?thesis
      unfolding block_loop.simps [of d c] Let_def
      using False suffix_advanceD [OF suffix_advanceD [OF IH(1)]] suffix_advanceD [OF suffix_advanceD [OF IH(2)]]
        suffix_advanceD [OF IH(3)]
      by (simp split: if_splits)
  qed (simp add: block_loop.simps [of d c])
qed

lemma suffix_quoted_loop: "suffix (rest (snd (quoted_loop q c))) (rest c)"
proof (induction q c rule: quoted_loop.induct)
  case (1 q c)
  show ?case
  proof (cases "isAtEnd c")
    case False
    note IH = "1.IH" [OF False refl refl]
    show ?thesis
      unfolding quoted_loop.simps [of q c] Let_def
      using False suffix_advanceD [OF suffix_advanceD [OF IH(1)]] suffix_advanceD [OF IH(2)] suffix_advance [of c]
      by (simp split: if_splits)
  qed (simp add: quoted_loop.simps [of q c])
qed

lemmas suffix_steps = suffix_advance suffix_skip_while
  suffix_order.trans [OF suffix_skip_while suffix_advance]
  suffix_order.trans [OF suffix_advance suffix_advance]

lemma fst_emit [simp]: "fst (emit k start c loc out) = c" "fst (emit_error msg start c loc out) = c"
  by (simp_all add: emit_def emit_error_def)

lemma suffix_match: "lex_match c x = Some c' \<Longrightarrow> suffix (rest c') (rest c)"
  by (auto simp: lex_match_def suffix_advance split: if_splits)

lemma suffix_number: "suffix (rest (fst (scanNumber start c out))) (rest c)"
proof -
  have t: "suffix a b \<Longrightarrow> suffix b d \<Longrightarrow> suffix a d" for a b d :: string
    by (rule suffix_order.trans)
  define c1 where "c1 = skip_while isdigit c"
  define c2 where "c2 = (if peek c1 0 = CHR ''.'' \<and> isdigit (peek c1 1) then skip_while isdigit (advance c1) else c1)"
  define c3 where "c3 = advance c2"
  define c4 where "c4 = (if peek c3 0 = CHR ''+'' \<or> peek c3 0 = CHR ''-'' then advance c3 else c3)"
  have s1: "suffix (rest c1) (rest c)" by (simp add: c1_def suffix_skip_while)
  have s2: "suffix (rest c2) (rest c)"
    unfolding c2_def using s1 t [OF suffix_skip_while t [OF suffix_advance s1]] by simp
  have s3: "suffix (rest c3) (rest c)" unfolding c3_def by (rule t [OF suffix_advance s2])
  have s4: "suffix (rest c4) (rest c)" unfolding c4_def using s3 t [OF suffix_advance s3] by simp
  have "fst (scanNumber start c out) \<in> {c2, c4, skip_while isdigit c4}"
    unfolding scanNumber_def Let_def c1_def [symmetric] c2_def [symmetric] c3_def [symmetric] c4_def [symmetric]
    by simp
  with s2 s4 t [OF suffix_skip_while s4] show ?thesis by auto
qed

lemma suffix_emit_match: "suffix (rest (fst (emit_match x yes no start c loc out))) (rest c)"
  by (auto simp: emit_match_def dest: suffix_match split: option.splits)

lemma suffix_match_or:
  "suffix (rest (fst r)) (rest c) \<Longrightarrow>
   suffix (rest (fst (case lex_match c x of Some c' \<Rightarrow> emit k start c' loc out | None \<Rightarrow> r))) (rest c)"
  by (auto dest: suffix_match split: option.splits)

lemma suffix_operator:
  assumes "scanOperator x start c loc out = Some r"
  shows "suffix (rest (fst r)) (rest c)"
proof -
  have e: "suffix (rest (fst (emit k start c loc out))) (rest c)"
      "suffix (rest (fst (emit_error msg start c loc out))) (rest c)"
      "suffix (rest (fst (emit k start (advance c) loc out))) (rest c)"
      "suffix (rest (fst (emit k start (advance (advance c)) loc out))) (rest c)"
      "suffix (rest (fst (emit k start (skip_while P c) loc out))) (rest c)" for k msg P
    by (simp_all add: suffix_advance suffix_advanceD [OF suffix_advance] suffix_skip_while)
  have opt: "(b \<Longrightarrow> pred_option Q m) \<Longrightarrow> pred_option Q n \<Longrightarrow> pred_option Q (if b then m else n)"
    for b m n and Q :: "scanned \<Rightarrow> bool" by simp
  have "pred_option (\<lambda>r. suffix (rest (fst r)) (rest c)) (scanOperator x start c loc out)"
    unfolding scanOperator_def Let_def
    by (intro opt; simp only: option.pred_inject)
      (auto simp only: split: if_split intro!: e suffix_emit_match suffix_match_or)
  then show ?thesis using assms by simp
qed

lemma suffix_lex_step: "suffix (rest (fst (lex_step start out))) (rest (advance start))"
proof -
  have b: "suffix (rest (fst (skipBlockComment (advance c) out))) (rest c)" for c
    using suffix_order.trans [OF suffix_block_loop [of 1 "advance c"] suffix_advance [of c]]
    by (auto simp: skipBlockComment_def split: prod.splits)
  have q: "suffix (rest (fst (scanString start c out))) (rest c)"
    "suffix (rest (fst (scanQuotedIdent start c out))) (rest c)" for c
    using suffix_quoted_loop [of quote c] suffix_quoted_loop [of dquote c]
    by (auto simp: scanString_def scanQuotedIdent_def split: prod.splits)
  have n: "suffix (rest (fst (scanDollarParam start c out))) (rest c)"
    "suffix (rest (fst (scanIdentOrKeyword start c out))) (rest c)" for c
    by (simp_all add: scanDollarParam_def scanIdentOrKeyword_def Let_def suffix_skip_while)
  have br: "suffix (rest (fst m)) s \<Longrightarrow> suffix (rest (fst n)) s \<Longrightarrow> suffix (rest (fst (if b then m else n))) s"
    for b s and m n :: scanned by simp
  have op: "suffix (rest (fst m)) (rest c) \<Longrightarrow>
      suffix (rest (fst (case scanOperator x start c loc out of Some r \<Rightarrow> r | None \<Rightarrow> m))) (rest c)"
    for x c loc and m :: scanned
    by (auto dest: suffix_operator split: option.splits)
  have sc: "suffix (rest (fst m)) (rest c) \<Longrightarrow>
      suffix (rest (fst (case single_char x of Some k \<Rightarrow> emit k start c loc out | None \<Rightarrow> m))) (rest c)"
    for x c loc and m :: scanned
    by (auto split: option.splits)
  have e: "suffix (rest (fst (skipLineComment (advance c), out))) (rest c)"
      "suffix (rest (fst (emit_error msg start c loc out))) (rest c)" for c msg loc
    by (simp_all add: skipLineComment_def suffix_steps)
  show ?thesis
    unfolding lex_step_def Let_def
    by (intro br op sc e b q n suffix_number)
qed

lemma lex_step_shrinks:
  "rest start \<noteq> [] \<Longrightarrow> length (rest (fst (lex_step start out))) < length (rest start)"
  using suffix_length_le [OF suffix_lex_step [of start out]] length_advance [of start] by linarith

subsection \<open>The loop of tokenize\<close>

function lex_loop :: "cursor \<Rightarrow> lex_result \<Rightarrow> lex_result" where
  "lex_loop c out =
     (let start = skipWhitespace c in
      if isAtEnd start
      then out\<lparr>lr_tokens := lr_tokens out @
                 [\<lparr>tk_kind = END_OF_FILE, lexeme = [], tk_loc = currentLocation start\<rparr>]\<rparr>
      else case lex_step start out of (c', out') \<Rightarrow> lex_loop c' out')"
  by pat_completeness auto
termination
proof (relation "measure (\<lambda>(c, out). length (rest c))")
  fix c out start c' out'
  assume a: "start = skipWhitespace c" "\<not> isAtEnd start" "(c', out') = lex_step start out"
  have "length (rest start) \<le> length (rest c)"
    using suffix_length_le [OF suffix_skip_while] a(1) by (simp add: skipWhitespace_def)
  moreover have "length (rest (fst (lex_step start out))) < length (rest start)"
    using lex_step_shrinks a(2) by (simp add: isAtEnd_def)
  moreover have "lex_step start out = (c', out')" using a(3) by simp
  ultimately show "((c', out'), c, out) \<in> measure (\<lambda>(c, out). length (rest c))" by simp
qed simp

declare lex_loop.simps [simp del]

definition tokenize :: "string \<Rightarrow> lex_result" where
  "tokenize source = lex_loop (lexer_new source) \<lparr>lr_tokens = [], lr_errors = []\<rparr>"

end
