(* ===== verification/LQ_Parser.thy ===== *)
theory LQ_Parser
  imports LQ_Lexer
begin

section \<open>The parser\<close>

text \<open>
  Model of \<open>src/parser/parser.h\<close> and \<open>src/parser/parser.cpp\<close>. The position of the parser is the
  list of tokens that are left, whose last one is END_OF_FILE and is never consumed; a parser
  is a function from it to an exception or a value and the tokens behind it. The methods of
  the class call each other. Each is one definition here, over the record \<open>parsers\<close> of the
  methods it calls; \<open>parsers_at n\<close> ties the knot for a depth of calls up to \<open>n\<close>, with
  \<open>OutOfFuel\<close> below. Loops are recursive methods of their own.
\<close>

subsection \<open>The token cursor\<close>

type_synonym 'a parser = "token list \<Rightarrow> ('a \<times> token list) res"

definition pret :: "'a \<Rightarrow> 'a parser" where
  "pret x ts = Inr (x, ts)"

definition pbind :: "'a parser \<Rightarrow> ('a \<Rightarrow> 'b parser) \<Rightarrow> 'b parser" where
  "pbind p f ts = rbind (p ts) (\<lambda>(x, ts'). f x ts')"

definition pif :: "(token list \<Rightarrow> bool) \<Rightarrow> 'a parser \<Rightarrow> 'a parser \<Rightarrow> 'a parser" where
  "pif b p q ts = (if b ts then p ts else q ts)"

definition plift :: "'a res \<Rightarrow> 'a parser" where
  "plift r ts = rmap (\<lambda>x. (x, ts)) r"

definition pout :: "'a parser" where
  "pout ts = Inl OutOfFuel"

definition tok_peek :: "token list \<Rightarrow> nat \<Rightarrow> token" where
  "tok_peek ts i = (if i < length ts then ts ! i else last ts)"

definition current :: "token list \<Rightarrow> token" where
  "current ts = tok_peek ts 0"

definition at_end :: "token list \<Rightarrow> bool" where
  "at_end ts = (tk_kind (current ts) = END_OF_FILE)"

definition tok_advance :: "token list \<Rightarrow> token list" where
  "tok_advance ts = (if at_end ts then ts else tl ts)"

text \<open>\<open>advance()\<close> with the token it returns.\<close>

definition next_token :: "token parser" where
  "next_token ts = Inr (current ts, tok_advance ts)"

definition tok_check :: "token_kind \<Rightarrow> token list \<Rightarrow> bool" where
  "tok_check k ts = (tk_kind (current ts) = k)"

definition tok_match :: "token_kind \<Rightarrow> bool parser" where
  "tok_match k ts = Inr (if tok_check k ts then (True, tok_advance ts) else (False, ts))"

definition parse_error :: "string \<Rightarrow> 'a parser" where
  "parse_error msg ts =
     (let l = tk_loc (current ts)
      in Inl (ParseError (msg @ '' (at '' @ location_string l @ '')'') (loc_line l) (loc_column l)))"

definition expect :: "token_kind \<Rightarrow> string \<Rightarrow> token parser" where
  "expect k what ts =
     (if \<not> tok_check k ts
      then parse_error (''expected '' @ what @ '' but found '' @ quoted (tokenKindName (tk_kind (current ts)))) ts
      else next_token ts)"

text \<open>\<open>if (match(k)) p else q\<close>, and the same without consuming.\<close>

definition on_match :: "token_kind \<Rightarrow> 'a parser \<Rightarrow> 'a parser \<Rightarrow> 'a parser" where
  "on_match k p q = pif (tok_check k) (pbind next_token (\<lambda>_. p)) q"

definition on_check :: "token_kind \<Rightarrow> 'a parser \<Rightarrow> 'a parser \<Rightarrow> 'a parser" where
  "on_check k p q = pif (tok_check k) p q"

definition optional :: "token_kind \<Rightarrow> 'a parser \<Rightarrow> 'a option parser" where
  "optional k p = on_match k (pbind p (\<lambda>x. pret (Some x))) (pret None)"

definition name_of :: "string \<Rightarrow> string parser" where
  "name_of what = pbind (expect IDENT what) (\<lambda>t. pret (lexeme t))"

subsection \<open>The methods that call each other\<close>

record parsers =
  p_expr :: "int \<Rightarrow> expr parser"
  p_loop :: "int \<Rightarrow> expr \<Rightarrow> expr parser"
  p_unary :: "expr parser"
  p_postfix :: "expr \<Rightarrow> expr parser"
  p_primary :: "expr parser"
  p_whens :: "case_when list parser"
  p_exprs :: "expr list parser"
  p_select :: "select_stmt parser"
  p_items :: "select_item list parser"
  p_tables :: "table_ref list parser"
  p_joins :: "table_ref \<Rightarrow> table_ref parser"
  p_primaryRef :: "table_ref parser"
  p_keys :: "sort_key list parser"
  p_names :: "string list parser"
  p_rows :: "expr list list parser"
  p_sets :: "(string \<times> expr) list parser"
  p_constraints :: "column_constraint list parser"
  p_columns :: "column_spec list parser"

text \<open>\<open>do { x = p(); } while (match(COMMA))\<close>: \<open>again\<close> is the loop from its next round on.\<close>

definition do_list :: "'a parser \<Rightarrow> 'a list parser \<Rightarrow> 'a list parser" where
  "do_list p again =
     pbind p (\<lambda>x. on_match (Punct COMMA) (pbind again (\<lambda>xs. pret (x # xs))) (pret [x]))"

definition parseExpression :: "parsers \<Rightarrow> expr parser" where
  "parseExpression P = p_expr P 0"

definition parseExprs :: "parsers \<Rightarrow> expr list parser" where
  "parseExprs P = do_list (parseExpression P) (p_exprs P)"

text \<open>A list of expressions up to a closing parenthesis that is not consumed; it may be empty.\<close>

definition parseArgs :: "parsers \<Rightarrow> expr list parser" where
  "parseArgs P = on_check (Punct RPAREN) (pret []) (p_exprs P)"

subsection \<open>Expressions\<close>

definition binaryPrecedence :: "token_kind \<Rightarrow> int" where
  "binaryPrecedence k = (case k of
       ExprWord w \<Rightarrow> (case w of KW_OR \<Rightarrow> 1 | KW_AND \<Rightarrow> 2 | KW_LIKE \<Rightarrow> 4 | KW_ILIKE \<Rightarrow> 4 | _ \<Rightarrow> - 1)
     | Op p \<Rightarrow> (case p of
           OP_EQ \<Rightarrow> 4 | OP_NEQ \<Rightarrow> 4 | OP_LT \<Rightarrow> 4 | OP_LTE \<Rightarrow> 4 | OP_GT \<Rightarrow> 4 | OP_GTE \<Rightarrow> 4
         | OP_CONCAT \<Rightarrow> 5 | OP_PLUS \<Rightarrow> 6 | OP_MINUS \<Rightarrow> 6
         | OP_STAR \<Rightarrow> 7 | OP_SLASH \<Rightarrow> 7 | OP_PERCENT \<Rightarrow> 7 | OP_CARET \<Rightarrow> 8 | _ \<Rightarrow> - 1)
     | _ \<Rightarrow> - 1)"

definition isRightAssoc :: "token_kind \<Rightarrow> bool" where
  "isRightAssoc k = (k = Op OP_CARET)"

definition toBinaryOp :: "token_kind \<Rightarrow> binary_op" where
  "toBinaryOp k = (case k of
       ExprWord w \<Rightarrow> (case w of KW_OR \<Rightarrow> OR | KW_AND \<Rightarrow> AND | KW_LIKE \<Rightarrow> LIKE | KW_ILIKE \<Rightarrow> ILIKE | _ \<Rightarrow> ADD)
     | Op p \<Rightarrow> (case p of
           OP_EQ \<Rightarrow> EQ | OP_NEQ \<Rightarrow> NEQ | OP_LT \<Rightarrow> LT | OP_LTE \<Rightarrow> LTE | OP_GT \<Rightarrow> GT | OP_GTE \<Rightarrow> GTE
         | OP_CONCAT \<Rightarrow> CONCAT | OP_PLUS \<Rightarrow> ADD | OP_MINUS \<Rightarrow> SUB
         | OP_STAR \<Rightarrow> MUL | OP_SLASH \<Rightarrow> DIV | OP_PERCENT \<Rightarrow> MOD | OP_CARET \<Rightarrow> POW | _ \<Rightarrow> ADD)
     | _ \<Rightarrow> ADD)"

text \<open>\<open>parseExpr\<close>, and its loop over the operators that bind tightly enough.\<close>

definition parseExpr :: "parsers \<Rightarrow> int \<Rightarrow> expr parser" where
  "parseExpr P minPrecedence =
     pbind (p_unary P) (\<lambda>left0. pbind (p_postfix P left0) (\<lambda>left. p_loop P minPrecedence left))"

definition exprLoop :: "parsers \<Rightarrow> int \<Rightarrow> expr \<Rightarrow> expr parser" where
  "exprLoop P minPrecedence left =
     pbind (\<lambda>ts. Inr (tk_kind (current ts), ts)) (\<lambda>k.
       let prec = binaryPrecedence k in
       if prec < minPrecedence \<or> prec < 0 then pret left
       else pbind next_token (\<lambda>_.
         pbind (p_expr P (if isRightAssoc k then prec else prec + 1)) (\<lambda>right.
         pbind (p_postfix P (BinaryExpr (toBinaryOp k) left right)) (\<lambda>left'.
           p_loop P minPrecedence left'))))"

definition parseUnary :: "parsers \<Rightarrow> expr parser" where
  "parseUnary P =
     on_match (Constraint KW_NOT) (pbind (p_expr P 3) (\<lambda>e. pret (UnaryExpr NOT e)))
     (on_match (Op OP_MINUS) (pbind (p_unary P) (\<lambda>e. pret (UnaryExpr NEGATE e)))
     (on_match (Op OP_PLUS) (pbind (p_unary P) (\<lambda>e. pret (UnaryExpr PLUS e)))
     (p_primary P)))"

text \<open>NOT before BETWEEN, IN, LIKE or ILIKE.\<close>

definition negated_ahead :: "token list \<Rightarrow> bool" where
  "negated_ahead ts =
     (tok_check (Constraint KW_NOT) ts
      \<and> tk_kind (tok_peek ts 1) \<in> {ExprWord KW_BETWEEN, ExprWord KW_IN, ExprWord KW_LIKE, ExprWord KW_ILIKE})"

definition parsePostfix :: "parsers \<Rightarrow> expr \<Rightarrow> expr parser" where
  "parsePostfix P left =
     on_match (ExprWord KW_IS)
       (pbind (tok_match (Constraint KW_NOT)) (\<lambda>negated.
        pbind (expect (Lit LIT_NULL) ''NULL after IS [NOT]'') (\<lambda>_.
          p_postfix P (IsNullExpr left negated))))
     (pbind (pif negated_ahead (pbind next_token (\<lambda>_. pret True)) (pret False)) (\<lambda>negated.
        on_match (ExprWord KW_BETWEEN)
          (pbind (p_expr P 5) (\<lambda>low.
           pbind (expect (ExprWord KW_AND) ''AND in BETWEEN'') (\<lambda>_.
           pbind (p_expr P 5) (\<lambda>high.
             p_postfix P (BetweenExpr left low high negated)))))
        (on_match (ExprWord KW_IN)
          (pbind (expect (Punct LPAREN) ''( after IN'') (\<lambda>_.
           pbind (on_check (Clause KW_SELECT)
                    (pbind (p_select P) (\<lambda>s. pret (InSelect s)))
                    (pbind (parseArgs P) (\<lambda>es. pret (InList es)))) (\<lambda>vals.
           pbind (expect (Punct RPAREN) '') after IN list'') (\<lambda>_.
             p_postfix P (InExpr left vals negated)))))
        (if negated
         then pbind next_token (\<lambda>k. pbind (p_expr P 5) (\<lambda>right.
                p_postfix P (UnaryExpr NOT
                  (BinaryExpr (if tk_kind k = ExprWord KW_ILIKE then ILIKE else LIKE) left right))))
         else pret left))))"

definition parseFunctionCall :: "parsers \<Rightarrow> string \<Rightarrow> location \<Rightarrow> expr parser" where
  "parseFunctionCall P name loc =
     pbind (expect (Punct LPAREN) ''( after function name'') (\<lambda>_.
     pbind (tok_match (Clause KW_DISTINCT)) (\<lambda>dist.
     pbind (on_match (Op OP_STAR) (pret (True, []))
              (pbind (parseArgs P) (\<lambda>es. pret (False, es)))) (\<lambda>(star, args).
     pbind (expect (Punct RPAREN) '') to close function call'') (\<lambda>_.
       pret (FunctionCall (map toupper name) args dist star loc)))))"

text \<open>The WHEN clauses, and \<open>parseCase\<close>.\<close>

definition parseWhens :: "parsers \<Rightarrow> case_when list parser" where
  "parseWhens P =
     on_match (CaseWord KW_WHEN)
       (pbind (parseExpression P) (\<lambda>c.
        pbind (expect (CaseWord KW_THEN) ''THEN in CASE'') (\<lambda>_.
        pbind (parseExpression P) (\<lambda>r.
        pbind (p_whens P) (\<lambda>ws. pret ((c, r) # ws))))))
       (pret [])"

definition parseCase :: "parsers \<Rightarrow> expr parser" where
  "parseCase P =
     pbind (on_check (CaseWord KW_WHEN) (pret None) (pbind (parseExpression P) (\<lambda>e. pret (Some e)))) (\<lambda>subject.
     pbind (p_whens P) (\<lambda>whens.
       if whens = [] then parse_error ''CASE requires at least one WHEN clause''
       else pbind (optional (CaseWord KW_ELSE) (parseExpression P)) (\<lambda>els.
            pbind (expect (CaseWord KW_END) ''END to close CASE'') (\<lambda>_.
              pret (CaseExpr subject whens els)))))"

text \<open>A name, with what may follow it: arguments, or the rest of a qualified column.\<close>

definition parseName :: "parsers \<Rightarrow> string \<Rightarrow> location \<Rightarrow> expr parser" where
  "parseName P name loc =
     on_check (Punct LPAREN) (parseFunctionCall P name loc)
     (on_match (Punct DOT)
        (on_match (Op OP_STAR) (pret (ColumnRef None (Some name) ''*''))
           (pbind (name_of (''column name after '' @ quoted ''.''))  (\<lambda>second.
              on_match (Punct DOT)
                (pbind (name_of (''column name after '' @ quoted ''.'')) (\<lambda>third. pret (ColumnRef (Some name) (Some second) third)))
                (pret (ColumnRef None (Some name) second)))))
        (pret (ColumnRef None None name)))"

definition parseParen :: "parsers \<Rightarrow> expr parser" where
  "parseParen P =
     on_check (Clause KW_SELECT)
       (pbind (p_select P) (\<lambda>s. pbind (expect (Punct RPAREN) '') after subquery'') (\<lambda>_. pret (SubqueryExpr s))))
       (pbind (parseExpression P) (\<lambda>e. pbind (expect (Punct RPAREN) '') to close expression'') (\<lambda>_. pret e)))"

text \<open>A literal is decoded before the token is consumed, so that an error leaves it in place.\<close>

definition parsePrimary :: "parsers \<Rightarrow> expr parser" where
  "parsePrimary P ts =
     (let t = current ts; loc = tk_loc t; behind = (\<lambda>p :: expr parser. pbind next_token (\<lambda>_. p)) in
      case tk_kind t of
        Lit l \<Rightarrow> (case l of
            LIT_INTEGER \<Rightarrow> pbind (plift (intValue t)) (\<lambda>v. behind (pret (Literal (VI64 v)))) ts
          | LIT_FLOAT \<Rightarrow> pbind (plift (floatValue t)) (\<lambda>v. behind (pret (Literal (VF64 v)))) ts
          | LIT_STRING \<Rightarrow> pbind (plift (stringValue t)) (\<lambda>v. behind (pret (Literal (VStr v)))) ts
          | LIT_TRUE \<Rightarrow> behind (pret (Literal (VBool True))) ts
          | LIT_FALSE \<Rightarrow> behind (pret (Literal (VBool False))) ts
          | LIT_NULL \<Rightarrow> behind (pret (Literal VNull)) ts)
      | CaseWord w \<Rightarrow>
          if w = KW_CASE then behind (parseCase P) ts
          else parse_error (''unexpected token '' @ quoted (tokenKindName (tk_kind t)) @ '' in expression'') ts
      | Punct p \<Rightarrow>
          if p = LPAREN then behind (parseParen P) ts
          else parse_error (''unexpected token '' @ quoted (tokenKindName (tk_kind t)) @ '' in expression'') ts
      | Op p \<Rightarrow>
          if p = OP_STAR then behind (pret (ColumnRef None None ''*'')) ts
          else parse_error (''unexpected token '' @ quoted (tokenKindName (tk_kind t)) @ '' in expression'') ts
      | IDENT \<Rightarrow> behind (parseName P (lexeme t) loc) ts
      | _ \<Rightarrow> parse_error (''unexpected token '' @ quoted (tokenKindName (tk_kind t)) @ '' in expression'') ts)"

subsection \<open>SELECT\<close>

definition selectItem :: "parsers \<Rightarrow> select_item parser" where
  "selectItem P =
     on_match (Op OP_STAR) (pret (ColumnRef None None ''*'', None))
       (pbind (parseExpression P) (\<lambda>e.
          on_match (Clause KW_AS) (pbind (name_of ''alias after AS'') (\<lambda>a. pret (e, Some a)))
            (on_check IDENT (pbind next_token (\<lambda>t. pret (e, Some (lexeme t)))) (pret (e, None)))))"

definition parseSelectList :: "parsers \<Rightarrow> select_item list parser" where
  "parseSelectList P = do_list (selectItem P) (p_items P)"

definition parsePrimaryTableRef :: "parsers \<Rightarrow> table_ref parser" where
  "parsePrimaryTableRef P =
     pbind (on_match (Punct LPAREN)
              (pbind (p_select P) (\<lambda>s. pbind (expect (Punct RPAREN) '') to close subquery'') (\<lambda>_. pret (SubqueryRef s))))
              (pbind (name_of ''table name'') (\<lambda>first.
                 on_match (Punct DOT)
                   (pbind (name_of (''table name after '' @ quoted ''.'')) (\<lambda>n. pret (TableRef (Some first) n)))
                   (pret (TableRef None first))))) (\<lambda>ref.
     pbind (on_match (Clause KW_AS) (name_of ''alias after AS'')
              (on_check IDENT (pbind next_token (\<lambda>t. pret (lexeme t))) (pret []))) (\<lambda>alias.
       pret (if alias \<noteq> [] then AliasedRef ref alias else ref)))"

text \<open>The kind of the join that starts here, if one does.\<close>

definition joinType :: "join_type option parser" where
  "joinType =
     on_match (JoinWord KW_CROSS) (pbind (expect (JoinWord KW_JOIN) ''JOIN after CROSS'') (\<lambda>_. pret (Some CROSS)))
     (on_match (JoinWord KW_INNER) (pbind (expect (JoinWord KW_JOIN) ''JOIN after INNER'') (\<lambda>_. pret (Some INNER)))
     (on_match (JoinWord KW_LEFT) (pbind (tok_match (JoinWord KW_OUTER)) (\<lambda>_.
        pbind (expect (JoinWord KW_JOIN) ''JOIN after LEFT'') (\<lambda>_. pret (Some LEFT))))
     (on_match (JoinWord KW_RIGHT) (pbind (tok_match (JoinWord KW_OUTER)) (\<lambda>_.
        pbind (expect (JoinWord KW_JOIN) ''JOIN after RIGHT'') (\<lambda>_. pret (Some RIGHT))))
     (on_match (JoinWord KW_FULL) (pbind (tok_match (JoinWord KW_OUTER)) (\<lambda>_.
        pbind (expect (JoinWord KW_JOIN) ''JOIN after FULL'') (\<lambda>_. pret (Some FULL))))
     (on_match (JoinWord KW_JOIN) (pret (Some INNER)) (pret None))))))"

definition parseJoinChain :: "parsers \<Rightarrow> table_ref \<Rightarrow> table_ref parser" where
  "parseJoinChain P left =
     pbind joinType (\<lambda>jt. case jt of
         None \<Rightarrow> pret left
       | Some ty \<Rightarrow> pbind (p_primaryRef P) (\<lambda>right.
           pbind (if ty \<noteq> CROSS
                  then pbind (expect (JoinWord KW_ON) ''ON after JOIN'') (\<lambda>_.
                         pbind (parseExpression P) (\<lambda>c. pret (Some c)))
                  else pret None) (\<lambda>cond.
             p_joins P (JoinRef ty left right cond))))"

definition parseTableRef :: "parsers \<Rightarrow> table_ref parser" where
  "parseTableRef P = pbind (p_primaryRef P) (\<lambda>r. p_joins P r)"

definition tableRefs :: "parsers \<Rightarrow> table_ref list parser" where
  "tableRefs P = do_list (parseTableRef P) (p_tables P)"

definition parseFrom :: "parsers \<Rightarrow> table_ref list parser" where
  "parseFrom P = pbind (expect (Clause KW_FROM) ''FROM'') (\<lambda>_. p_tables P)"

definition sortKey :: "parsers \<Rightarrow> sort_key parser" where
  "sortKey P =
     pbind (parseExpression P) (\<lambda>e.
     pbind (on_match (SortWord KW_ASC) (pret ASC) (on_match (SortWord KW_DESC) (pret DESC) (pret ASC))) (\<lambda>ord.
     pbind (on_match (SortWord KW_NULLS)
              (on_match (SortWord KW_FIRST) (pret NULLS_FIRST)
                (on_match (SortWord KW_LAST) (pret NULLS_LAST)
                  (parse_error ''expected FIRST or LAST after NULLS'')))
              (pret UNSPECIFIED)) (\<lambda>nulls.
       pret (SortKey e ord nulls))))"

definition parseOrderBy :: "parsers \<Rightarrow> sort_key list parser" where
  "parseOrderBy P = do_list (sortKey P) (p_keys P)"

definition limitClause :: "parsers \<Rightarrow> limit_clause parser" where
  "limitClause P =
     pbind (parseExpression P) (\<lambda>l. pbind (optional (Clause KW_OFFSET) (parseExpression P)) (\<lambda>off.
       pret (Some l, off)))"

definition setOpTail :: "parsers \<Rightarrow> (set_op \<times> select_stmt) parser" where
  "setOpTail P =
     pbind (tok_match (Clause KW_ALL)) (\<lambda>all. pbind (p_select P) (\<lambda>rhs.
       pret (if all then UNION_ALL else UNION, rhs)))"

definition parseSelect :: "parsers \<Rightarrow> select_stmt parser" where
  "parseSelect P =
     pbind (expect (Clause KW_SELECT) ''SELECT'') (\<lambda>_.
     pbind (on_match (Clause KW_DISTINCT) (pret True)
              (pbind (tok_match (Clause KW_ALL)) (\<lambda>_. pret False))) (\<lambda>dist.
     pbind (p_items P) (\<lambda>items.
     pbind (on_check (Clause KW_FROM) (pbind (parseFrom P) (\<lambda>f. pret (Some f))) (pret None)) (\<lambda>frm.
     pbind (optional (Clause KW_WHERE) (parseExpression P)) (\<lambda>wh.
     pbind (optional (Clause KW_GROUP) (pbind (expect (Clause KW_BY) ''BY after GROUP'') (\<lambda>_. p_exprs P))) (\<lambda>gr.
     pbind (optional (Clause KW_HAVING) (parseExpression P)) (\<lambda>hav.
     pbind (optional (Clause KW_ORDER) (pbind (expect (Clause KW_BY) ''BY after ORDER'') (\<lambda>_. p_keys P))) (\<lambda>ord.
     pbind (optional (Clause KW_LIMIT) (limitClause P)) (\<lambda>lim.
     pbind (optional (Clause KW_UNION) (setOpTail P)) (\<lambda>tail.
       pret (SelectStmt dist items frm wh gr hav ord lim tail)))))))))))"

subsection \<open>Types and the other statements\<close>

definition int_arg :: "string \<Rightarrow> 64 word parser" where
  "int_arg what = pbind (expect (Lit LIT_INTEGER) what) (\<lambda>t. plift (intValue t))"

definition decimal_type :: "data_type parser" where
  "decimal_type =
     pbind (on_match (Punct LPAREN)
       (pbind (int_arg ''precision'') (\<lambda>p.
        pbind (on_match (Punct COMMA) (int_arg ''scale'') (pret 0)) (\<lambda>s.
        pbind (expect (Punct RPAREN) '') after DECIMAL'') (\<lambda>_. pret (ucast p, ucast s)))))
       (pret (18, 0))) (\<lambda>(p, s). pret (dt_decimal p s True))"

definition parseDataType :: "data_type parser" where
  "parseDataType = pbind next_token (\<lambda>t.
     let unknown = parse_error ''expected a data type name'' in
     case tk_kind t of
       TypeWord w \<Rightarrow> (case w of
           KW_BOOLEAN \<Rightarrow> pret (dt_boolean True)
         | KW_BOOL \<Rightarrow> pret (dt_boolean True)
         | KW_TINYINT \<Rightarrow> pret (mk_dt INT8 True)
         | KW_SMALLINT \<Rightarrow> pret (mk_dt INT16 True)
         | KW_INT \<Rightarrow> pret (dt_int32 True)
         | KW_INTEGER \<Rightarrow> pret (dt_int32 True)
         | KW_BIGINT \<Rightarrow> pret (dt_int64 True)
         | KW_REAL \<Rightarrow> pret (mk_dt FLOAT32 True)
         | KW_FLOAT \<Rightarrow> pret (mk_dt FLOAT32 True)
         | KW_DOUBLE \<Rightarrow> pret (dt_float64 True)
         | KW_DATE \<Rightarrow> pret (dt_date True)
         | KW_TIMESTAMP \<Rightarrow> pret (dt_timestamp True)
         | KW_TEXT \<Rightarrow> pret (dt_varchar (- 1) True)
         | KW_VARCHAR \<Rightarrow> pbind (on_match (Punct LPAREN)
               (pbind (int_arg ''length'') (\<lambda>n.
                pbind (expect (Punct RPAREN) '') after VARCHAR length'') (\<lambda>_. pret (ucast n))))
               (pret (- 1))) (\<lambda>len. pret (dt_varchar len True))
         | KW_DECIMAL \<Rightarrow> decimal_type
         | KW_NUMERIC \<Rightarrow> decimal_type
         | KW_BLOB \<Rightarrow> pret (mk_dt BLOB True))
     | _ \<Rightarrow> unknown)"

text \<open>\<open>table\<close> or \<open>schema.table\<close>.\<close>

definition qualifiedName :: "(string option \<times> string) parser" where
  "qualifiedName =
     pbind (name_of ''table name'') (\<lambda>first.
       on_match (Punct DOT)
         (pbind (name_of (''table name after '' @ quoted ''.'')) (\<lambda>n. pret (Some first, n)))
         (pret (None, first)))"

definition columnNames :: "parsers \<Rightarrow> string list parser" where
  "columnNames P = do_list (name_of ''column name'') (p_names P)"

definition valuesRow :: "parsers \<Rightarrow> expr list parser" where
  "valuesRow P =
     pbind (expect (Punct LPAREN) ''( to start a VALUES row'') (\<lambda>_.
     pbind (parseArgs P) (\<lambda>row.
     pbind (expect (Punct RPAREN) '') to close a VALUES row'') (\<lambda>_. pret row)))"

definition valuesRows :: "parsers \<Rightarrow> expr list list parser" where
  "valuesRows P = do_list (valuesRow P) (p_rows P)"

definition parseInsert :: "parsers \<Rightarrow> stmt parser" where
  "parseInsert P =
     pbind (expect (Ddl KW_INSERT) ''INSERT'') (\<lambda>_.
     pbind (expect (Ddl KW_INTO) ''INTO after INSERT'') (\<lambda>_.
     pbind qualifiedName (\<lambda>(q, n).
     pbind (on_match (Punct LPAREN)
              (pbind (p_names P) (\<lambda>ns. pbind (expect (Punct RPAREN) '') after column list'') (\<lambda>_. pret ns)))
              (pret [])) (\<lambda>cols.
     pbind (on_check (Clause KW_SELECT)
              (pbind (p_select P) (\<lambda>s. pret (InsertSelect s)))
              (pbind (expect (Ddl KW_VALUES) ''VALUES or SELECT'') (\<lambda>_.
               pbind (p_rows P) (\<lambda>rows. pret (InsertValues rows))))) (\<lambda>source.
       pret (StmtInsert \<lparr>ins_table = n, ins_schema = q, ins_columns = cols, ins_source = source\<rparr>))))))"

definition assignment :: "parsers \<Rightarrow> (string \<times> expr) parser" where
  "assignment P =
     pbind (name_of ''column name in SET'') (\<lambda>c.
     pbind (expect (Op OP_EQ) ''= in SET assignment'') (\<lambda>_.
     pbind (parseExpression P) (\<lambda>e. pret (c, e))))"

definition assignments :: "parsers \<Rightarrow> (string \<times> expr) list parser" where
  "assignments P = do_list (assignment P) (p_sets P)"

definition parseUpdate :: "parsers \<Rightarrow> stmt parser" where
  "parseUpdate P =
     pbind (expect (Ddl KW_UPDATE) ''UPDATE'') (\<lambda>_.
     pbind qualifiedName (\<lambda>(q, n).
     pbind (expect (Ddl KW_SET) ''SET after table name'') (\<lambda>_.
     pbind (p_sets P) (\<lambda>sets.
     pbind (optional (Clause KW_WHERE) (parseExpression P)) (\<lambda>wh.
       pret (StmtUpdate \<lparr>upd_table = n, upd_schema = q, upd_assignments = sets, upd_where = wh\<rparr>))))))"

definition parseDelete :: "parsers \<Rightarrow> stmt parser" where
  "parseDelete P =
     pbind (expect (Ddl KW_DELETE) ''DELETE'') (\<lambda>_.
     pbind (expect (Clause KW_FROM) ''FROM after DELETE'') (\<lambda>_.
     pbind qualifiedName (\<lambda>(q, n).
     pbind (optional (Clause KW_WHERE) (parseExpression P)) (\<lambda>wh.
       pret (StmtDelete \<lparr>del_table = n, del_schema = q, del_where = wh\<rparr>)))))"

definition constraintLoop :: "parsers \<Rightarrow> column_constraint list parser" where
  "constraintLoop P =
     on_match (Constraint KW_NOT)
       (pbind (expect (Lit LIT_NULL) ''NULL after NOT'') (\<lambda>_. pbind (p_constraints P) (\<lambda>cs.
          pret (\<lparr>cc_kind = NOT_NULL, cc_expr = None\<rparr> # cs))))
     (on_match (Constraint KW_PRIMARY)
       (pbind (expect (Constraint KW_KEY) ''KEY after PRIMARY'') (\<lambda>_. pbind (p_constraints P) (\<lambda>cs.
          pret (\<lparr>cc_kind = PRIMARY_KEY, cc_expr = None\<rparr> # cs))))
     (on_match (Constraint KW_DEFAULT)
       (pbind (parseExpression P) (\<lambda>e. pbind (p_constraints P) (\<lambda>cs.
          pret (\<lparr>cc_kind = DEFAULT, cc_expr = Some e\<rparr> # cs))))
     (pret [])))"

definition columnSpec :: "parsers \<Rightarrow> column_spec parser" where
  "columnSpec P =
     pbind (name_of ''column name'') (\<lambda>n. pbind parseDataType (\<lambda>ty. pbind (p_constraints P) (\<lambda>cs.
       pret \<lparr>cs_name = n, cs_type = ty, cs_constraints = cs\<rparr>)))"

definition columnSpecs :: "parsers \<Rightarrow> column_spec list parser" where
  "columnSpecs P = do_list (columnSpec P) (p_columns P)"

definition parseCreateTable :: "parsers \<Rightarrow> stmt parser" where
  "parseCreateTable P =
     pbind (expect (Ddl KW_CREATE) ''CREATE'') (\<lambda>_.
     pbind (expect (Ddl KW_TABLE) ''TABLE after CREATE'') (\<lambda>_.
     pbind qualifiedName (\<lambda>(q, n).
     pbind (expect (Punct LPAREN) ''( to start column definitions'') (\<lambda>_.
     pbind (p_columns P) (\<lambda>cols.
     pbind (expect (Punct RPAREN) '') to close column definitions'') (\<lambda>_.
       pret (StmtCreateTable \<lparr>ct_schema = q, ct_name = n, ct_columns = cols, ct_ifNotExists = False\<rparr>)))))))"

definition parseDropTable :: "stmt parser" where
  "parseDropTable =
     pbind (expect (Ddl KW_DROP) ''DROP'') (\<lambda>_.
     pbind (expect (Ddl KW_TABLE) ''TABLE after DROP'') (\<lambda>_.
     pbind qualifiedName (\<lambda>(q, n).
       pret (StmtDropTable \<lparr>dt_schema = q, dt_name = n, dt_ifExists = False\<rparr>))))"

definition statementBody :: "parsers \<Rightarrow> stmt parser" where
  "statementBody P ts =
     (let k = tk_kind (current ts) in
      if k = Clause KW_SELECT then pbind (p_select P) (\<lambda>s. pret (StmtSelect s)) ts
      else if k = Ddl KW_INSERT then parseInsert P ts
      else if k = Ddl KW_UPDATE then parseUpdate P ts
      else if k = Ddl KW_DELETE then parseDelete P ts
      else if k = Ddl KW_CREATE then parseCreateTable P ts
      else if k = Ddl KW_DROP then parseDropTable ts
      else parse_error ''expected a statement (SELECT/INSERT/UPDATE/DELETE/CREATE/DROP)'' ts)"

subsection \<open>Tying the knot\<close>

definition no_parsers :: parsers where
  "no_parsers = \<lparr>p_expr = (\<lambda>_. pout), p_loop = (\<lambda>_ _. pout), p_unary = pout, p_postfix = (\<lambda>_. pout),
     p_primary = pout, p_whens = pout, p_exprs = pout, p_select = pout, p_items = pout, p_tables = pout,
     p_joins = (\<lambda>_. pout), p_primaryRef = pout, p_keys = pout, p_names = pout, p_rows = pout, p_sets = pout,
     p_constraints = pout, p_columns = pout\<rparr>"

definition deeper :: "parsers \<Rightarrow> parsers" where
  "deeper P = \<lparr>p_expr = parseExpr P, p_loop = exprLoop P, p_unary = parseUnary P, p_postfix = parsePostfix P,
     p_primary = parsePrimary P, p_whens = parseWhens P, p_exprs = parseExprs P, p_select = parseSelect P,
     p_items = parseSelectList P, p_tables = tableRefs P, p_joins = parseJoinChain P,
     p_primaryRef = parsePrimaryTableRef P, p_keys = parseOrderBy P, p_names = columnNames P,
     p_rows = valuesRows P, p_sets = assignments P, p_constraints = constraintLoop P, p_columns = columnSpecs P\<rparr>"

primrec parsers_at :: "nat \<Rightarrow> parsers" where
  "parsers_at 0 = no_parsers"
| "parsers_at (Suc n) = deeper (parsers_at n)"

definition parseStatement :: "nat \<Rightarrow> token list \<Rightarrow> stmt res" where
  "parseStatement fuel ts =
     rmap fst (pbind (statementBody (parsers_at fuel)) (\<lambda>s.
       pbind (tok_match (Punct SEMICOLON)) (\<lambda>_.
         pif at_end (pret s) (parse_error ''unexpected trailing tokens after statement''))) ts)"

end
