(* ===== verification/LQ_LexProps.thy ===== *)
theory LQ_LexProps
  imports LQ_Lexer
begin

section \<open>What the lexer produces\<close>

text \<open>
  Lemmas on \<open>tokenize\<close>: the token list ends with the only END_OF_FILE, string tokens carry their
  quotes, the lexemes with the text skipped between them make up the source, and a quoted
  string is read back as the string that was quoted.
\<close>

subsection \<open>Well-formed tokens\<close>

text \<open>String tokens carry their quotes; the list ends with END_OF_FILE.\<close>

definition wf_token :: "token \<Rightarrow> bool" where
  "wf_token t = (tk_kind t = Lit LIT_STRING \<longrightarrow>
     2 \<le> length (lexeme t) \<and> hd (lexeme t) = quote \<and> last (lexeme t) = quote)"

definition wf_tokens :: "token list \<Rightarrow> bool" where
  "wf_tokens ts = (ts \<noteq> [] \<and> tk_kind (last ts) = END_OF_FILE \<and> list_all wf_token ts)"


lemma quoted_loop_closed:
  "quoted_loop q c = (True, c') \<Longrightarrow> \<exists>u. rest c = u @ q # rest c'"
proof (induction q c rule: quoted_loop.induct)
  case (1 q c)
  show ?case
  proof (cases "rest c")
    case Nil
    with "1.prems" show ?thesis by (simp add: quoted_loop.simps [of q c] isAtEnd_def)
  next
    case (Cons x xs)
    have r1: "rest (advance c) = xs" by (rule advance_Cons [OF Cons])
    have p: "peek c 0 = x" "\<not> isAtEnd c" using Cons by (simp_all add: peek_def isAtEnd_def)
    note loop = "1.prems" [unfolded quoted_loop.simps [of q c] Let_def, simplified p if_False]
    show ?thesis
    proof (cases "x = q")
      case False
      with loop "1.IH"(2) [OF p(2) refl refl] p(1) obtain u where "rest (advance c) = u @ q # rest c'" by auto
      with Cons r1 show ?thesis by (intro exI [of _ "x # u"]) simp
    next
      case True
      show ?thesis
      proof (cases "peek (advance c) 0 = q \<and> xs \<noteq> []")
        case t: True
        then obtain ys where ys: "xs = q # ys" using r1 by (cases xs) (auto simp: peek_def)
        with loop "1.IH"(1) [OF p(2) refl refl] p(1) True t obtain u
          where "rest (advance (advance c)) = u @ q # rest c'" by auto
        moreover have "rest (advance (advance c)) = ys" by (rule advance_Cons) (simp add: r1 ys)
        ultimately show ?thesis using Cons True ys by (intro exI [of _ "q # q # u"]) simp
      next
        case f: False
        have "rest (advance (advance c)) = []" if "xs = []"
          using r1 that by (cases "advance c" rule: advance.cases) auto
        then have "peek (advance c) 0 \<noteq> q"
          using loop f True p(1) by (auto simp: quoted_loop.simps [of "peek c 0" "advance (advance c)"] isAtEnd_def)
        with loop p(1) True r1 Cons show ?thesis by (intro exI [of _ "[]"]) auto
      qed
    qed
  qed
qed

text \<open>A step that adds one token, reaching from \<open>start\<close> to the cursor that it returns.\<close>

definition one_token :: "cursor \<Rightarrow> lex_result \<Rightarrow> scanned \<Rightarrow> bool" where
  "one_token start out r = (\<exists>t es. lr_tokens (snd r) = lr_tokens out @ [t] \<and> lr_errors (snd r) = lr_errors out @ es
     \<and> lexeme t = take (length (rest start) - length (rest (fst r))) (rest start)
     \<and> wf_token t \<and> tk_kind t \<noteq> END_OF_FILE)"

lemma one_token_emit:
  "k \<noteq> END_OF_FILE \<Longrightarrow> k \<noteq> Lit LIT_STRING \<Longrightarrow> one_token start out (emit k start c loc out)"
  by (simp add: one_token_def emit_def makeToken_def wf_token_def)

lemma one_token_error: "one_token start out (emit_error msg start c loc out)"
  by (simp add: one_token_def emit_error_def report_def emit_def makeToken_def wf_token_def)

lemma one_token_if:
  "one_token start out p \<Longrightarrow> one_token start out q \<Longrightarrow> one_token start out (if b then p else q)"
  by simp

lemma one_token_match:
  "(\<And>c'. one_token start out (f c')) \<Longrightarrow> one_token start out q \<Longrightarrow>
   one_token start out (case lex_match c x of Some c' \<Rightarrow> f c' | None \<Rightarrow> q)"
  by (auto split: option.splits)

lemmas one_tokens = one_token_if one_token_match one_token_emit one_token_error

lemma keyword_kinds: "classifyKeyword u \<noteq> END_OF_FILE" "classifyKeyword u \<noteq> Lit LIT_STRING"
  using map_of_SomeD [of keywordTable u]
  by (auto simp: classifyKeyword_def keywordTable_def split: option.splits)

lemma one_token_scans:
  "one_token start out (scanNumber start c out)"
  "one_token start out (scanDollarParam start c out)"
  "one_token start out (scanIdentOrKeyword start c out)"
  unfolding scanNumber_def scanDollarParam_def scanIdentOrKeyword_def Let_def
  by (intro one_tokens keyword_kinds; simp)+

lemma one_token_quoted:
  "one_token start out (scanQuotedIdent start c out)"
  "rest start = quote # rest c \<Longrightarrow> one_token start out (scanString start c out)"
proof -
  show "one_token start out (scanQuotedIdent start c out)"
    unfolding scanQuotedIdent_def by (cases "quoted_loop dquote c") (auto intro: one_tokens)
  assume s: "rest start = quote # rest c"
  show "one_token start out (scanString start c out)"
  proof (cases "quoted_loop quote c")
    case (Pair closed c')
    show ?thesis
    proof (cases closed)
      case True
      with Pair quoted_loop_closed [of quote c c'] obtain u where "rest c = u @ quote # rest c'" by auto
      with s have "take (length (rest start) - length (rest c')) (rest start) = quote # u @ [quote]" by simp
      with True Pair show ?thesis
        by (simp add: scanString_def one_token_def emit_def makeToken_def wf_token_def)
    qed (use Pair in \<open>simp add: scanString_def one_token_error\<close>)
  qed
qed

lemma one_token_single: "single_char x = Some k \<Longrightarrow> one_token start out (emit k start c loc out)"
  by (rule one_token_emit) (auto simp: single_char_def split: if_splits)

lemma one_token_operator: "scanOperator x start c loc out = Some r \<Longrightarrow> one_token start out r"
proof -
  have opt: "(b \<Longrightarrow> pred_option Q m) \<Longrightarrow> pred_option Q n \<Longrightarrow> pred_option Q (if b then m else n)"
    for b m n and Q :: "scanned \<Rightarrow> bool" by simp
  have "pred_option (one_token start out) (scanOperator x start c loc out)"
    unfolding scanOperator_def Let_def emit_match_def
    by (intro opt; simp only: option.pred_inject) (intro one_tokens; simp)+
  then show "scanOperator x start c loc out = Some r \<Longrightarrow> one_token start out r" by simp
qed

subsection \<open>Skipped text\<close>

definition blank :: "char \<Rightarrow> bool" where
  "blank x = (x = CHR '' '' \<or> x = CHR 0x09 \<or> x = CHR 0x0D \<or> x = CHR 0x0A)"

text \<open>The rest of a comment of depth \<open>d\<close>, up to and with its end.\<close>

fun comment_rest :: "nat \<Rightarrow> string \<Rightarrow> bool" where
  "comment_rest 0 u = (u = [])"
| "comment_rest (Suc d) (x # y # u) =
     (if x = CHR ''/'' \<and> y = CHR ''*'' then comment_rest (Suc (Suc d)) u
      else if x = CHR ''*'' \<and> y = CHR ''/'' then comment_rest d u
      else comment_rest (Suc d) (y # u))"
| "comment_rest (Suc d) u = False"

text \<open>White space and comments.\<close>

inductive skipped :: "string \<Rightarrow> bool" where
  skipped_Nil: "skipped []"
| skipped_blank: "blank x \<Longrightarrow> skipped s \<Longrightarrow> skipped (x # s)"
| skipped_line: "CHR 0x0A \<notin> set u \<Longrightarrow> skipped s \<Longrightarrow> skipped (''--'' @ u @ s)"
| skipped_block: "comment_rest 1 u \<Longrightarrow> skipped s \<Longrightarrow> skipped (''/*'' @ u @ s)"

lemma rest_skip_while: "rest (skip_while P c) = dropWhile P (rest c)"
proof (induction P c rule: skip_while.induct)
  case (1 P c)
  show ?case
  proof (cases "rest c")
    case (Cons x xs)
    then show ?thesis
      using "1.IH" advance_Cons [OF Cons] by (auto simp: skip_while.simps [of P c] isAtEnd_def peek_def)
  qed (simp add: skip_while.simps [of P c] isAtEnd_def)
qed

lemma skipped_blanks: "\<forall>x \<in> set g. blank x \<Longrightarrow> skipped s \<Longrightarrow> skipped (g @ s)"
  by (induction g) (auto intro: skipped.intros)

lemma block_loop_rest:
  "block_loop d c = (0, c') \<Longrightarrow> \<exists>u. rest c = u @ rest c' \<and> comment_rest d u"
proof (induction d c rule: block_loop.induct)
  case (1 d c)
  show ?case
  proof (cases "isAtEnd c \<or> d = 0")
    case True
    with "1.prems" show ?thesis by (auto simp: block_loop.simps [of d c] intro!: exI [of _ "[]"])
  next
    case False
    then obtain x xs d' where x: "rest c = x # xs" "d = Suc d'"
      by (cases "rest c"; cases d) (auto simp: isAtEnd_def)
    have r1: "rest (advance c) = xs" by (rule advance_Cons [OF x(1)])
    have p: "peek c 0 = x" using x by (simp add: peek_def)
    note IH = "1.IH" [OF False refl refl]
    note loop = "1.prems" [unfolded block_loop.simps [of d c] Let_def if_not_P [OF False]]
    show ?thesis
    proof (cases xs)
      case Nil
      then have "block_loop d (advance c) = (0, c')"
        using loop r1 by (simp add: peek_def)
      then show ?thesis
        using x(2) r1 Nil by (simp add: block_loop.simps [of "Suc d'" "advance c"] isAtEnd_def)
    next
      case (Cons y ys)
      have r2: "rest (advance (advance c)) = ys" by (rule advance_Cons) (simp add: r1 Cons)
      have py: "peek (advance c) 0 = y" using r1 Cons by (simp add: peek_def)
      show ?thesis
      proof (cases "x = CHR ''/'' \<and> y = CHR ''*'' \<or> x = CHR ''*'' \<and> y = CHR ''/''")
        case True
        with IH(1,2) loop p py r2 x(2) obtain u where
          "ys = u @ rest c'" "comment_rest (if x = CHR ''/'' then Suc (Suc d') else d') u"
          by auto
        with True show ?thesis
          by (intro exI [of _ "x # y # u"]) (auto simp: x Cons)
      next
        case f: False
        with IH(3) loop p py r1 obtain u where u: "xs = u @ rest c'" "comment_rest d u" by auto
        from u(2) x(2) obtain z zs where z: "u = z # zs" by (cases u) auto
        with u(1) Cons have "z = y" by simp
        with f u z x show ?thesis by (intro exI [of _ "x # u"]) auto
      qed
    qed
  qed
qed

lemma lex_step_cases:
  assumes "rest start \<noteq> []"
  shows "one_token start out (lex_step start out)
    \<or> (\<exists>g es. rest start = g @ rest (fst (lex_step start out))
        \<and> snd (lex_step start out) = out\<lparr>lr_errors := lr_errors out @ es\<rparr>
        \<and> (es = [] \<longrightarrow> (\<forall>s. skipped s \<longrightarrow> skipped (g @ s))))"
proof -
  obtain x xs where x: "rest start = x # xs" using assms by (cases "rest start") auto
  define c where "c = advance start"
  have r: "rest c = xs" unfolding c_def by (rule advance_Cons [OF x])
  have p: "peek start 0 = x" using x by (simp add: peek_def)
  consider "x = CHR ''-'' \<and> peek c 0 = CHR ''-''" | "x = CHR ''/'' \<and> peek c 0 = CHR ''*''"
    | "\<not> (x = CHR ''-'' \<and> peek c 0 = CHR ''-'')" "\<not> (x = CHR ''/'' \<and> peek c 0 = CHR ''*'')" by blast
  then show ?thesis
  proof cases
    case 1
    then obtain ys where ys: "xs = CHR ''-'' # ys" using r by (cases xs) (auto simp: peek_def)
    then have "rest (advance c) = ys" using r by (intro advance_Cons) simp
    then have "rest start = (''--'' @ takeWhile (\<lambda>x. x \<noteq> CHR 0x0A) ys) @ rest (fst (lex_step start out))"
      using 1 p x ys by (simp add: lex_step_def Let_def c_def [symmetric] skipLineComment_def rest_skip_while)
    moreover have "snd (lex_step start out) = out\<lparr>lr_errors := lr_errors out @ []\<rparr>"
      using 1 p by (simp add: lex_step_def Let_def c_def [symmetric])
    moreover have "skipped ((''--'' @ takeWhile (\<lambda>x. x \<noteq> CHR 0x0A) ys) @ s)" if "skipped s" for s
      using skipped_line [OF _ that, of "takeWhile (\<lambda>x. x \<noteq> CHR 0x0A) ys"] by (auto dest: set_takeWhileD)
    ultimately show ?thesis by blast
  next
    case 2
    then obtain ys where ys: "xs = CHR ''*'' # ys" using r by (cases xs) (auto simp: peek_def)
    then have r2: "rest (advance c) = ys" using r by (intro advance_Cons) simp
    have s: "lex_step start out = skipBlockComment (advance c) out"
      using 2 p by (simp add: lex_step_def Let_def c_def [symmetric])
    obtain d c' where b: "block_loop 1 (advance c) = (d, c')" by force
    show ?thesis
    proof (cases "d = 0")
      case True
      with block_loop_rest b r2 obtain u where u: "ys = u @ rest c'" "comment_rest 1 u" by metis
      then have "rest start = (''/*'' @ u) @ rest c'" using 2 x ys by simp
      moreover have "skipped ((''/*'' @ u) @ s)" if "skipped s" for s
        using skipped_block [OF u(2) that] by simp
      ultimately show ?thesis using True b s
        by (intro disjI2 exI [of _ "''/*'' @ u"] exI [of _ "[]"]) (simp add: skipBlockComment_def)
    next
      case False
      from suffix_block_loop [of 1 "advance c"] b r2 obtain u where "ys = u @ rest c'"
        by (auto simp: suffix_def)
      with False b s 2 x ys show ?thesis
        by (intro disjI2 exI [of _ "''/*'' @ u"])
          (auto simp: skipBlockComment_def report_def intro!: exI [of _ "[_]"])
    qed
  next
    case 3
    have q: "rest start = quote # rest c" if "x = quote" using that x r by simp
    have br: "(b \<Longrightarrow> one_token start out m) \<Longrightarrow> one_token start out n \<Longrightarrow> one_token start out (if b then m else n)"
      for b m n by simp
    have op: "one_token start out m \<Longrightarrow>
        one_token start out (case scanOperator x start c loc out of Some r \<Rightarrow> r | None \<Rightarrow> m)" for loc m
      using one_token_operator by (simp split: option.splits)
    have sc: "one_token start out m \<Longrightarrow>
        one_token start out (case single_char x of Some k \<Rightarrow> emit k start c loc out | None \<Rightarrow> m)" for loc m
      using one_token_single by (simp split: option.splits)
    have "one_token start out (lex_step start out)"
      unfolding lex_step_def Let_def p c_def [symmetric] if_not_P [OF 3(1)] if_not_P [OF 3(2)]
      by (intro sc op br one_token_scans one_token_quoted one_token_error q)
    then show ?thesis ..
  qed
qed

subsection \<open>The tokens of a text\<close>

text \<open>The gaps and the lexemes, in turn.\<close>

definition interleaved :: "string list \<Rightarrow> token list \<Rightarrow> string" where
  "interleaved gs ts = concat (map2 (\<lambda>g t. g @ lexeme t) gs ts)"

definition covered :: "string \<Rightarrow> token list \<Rightarrow> bool" where
  "covered s ts = (\<exists>gs. length gs = length ts \<and> (\<forall>g \<in> set gs. skipped g) \<and> interleaved gs ts = s)"

lemma covered_skip:
  assumes "covered s ts" "ts \<noteq> []" "\<And>u. skipped u \<Longrightarrow> skipped (g @ u)"
  shows "covered (g @ s) ts"
proof -
  from assms(1) obtain gs where gs: "length gs = length ts" "\<forall>g \<in> set gs. skipped g" "interleaved gs ts = s"
    by (auto simp: covered_def)
  with assms(2) obtain h hs t us where "gs = h # hs" "ts = t # us" by (cases gs; cases ts) auto
  with gs assms(3) show ?thesis
    unfolding covered_def by (intro exI [of _ "(g @ h) # hs"]) (auto simp: interleaved_def)
qed

lemma covered_token: "covered s ts \<Longrightarrow> covered (lexeme t @ s) (t # ts)"
  unfolding covered_def
  by (elim exE, rule_tac x = "[] # gs" in exI) (auto simp: interleaved_def intro: skipped.intros)

lemma covered_eof: "lexeme t = [] \<Longrightarrow> covered [] [t]"
  unfolding covered_def by (intro exI [of _ "[[]]"]) (auto simp: interleaved_def intro: skipped.intros)

lemma rest_whitespace: "rest c = takeWhile blank (rest c) @ rest (skipWhitespace c)"
proof -
  have "(\<lambda>x. x = CHR '' '' \<or> x = CHR 0x09 \<or> x = CHR 0x0D \<or> x = CHR 0x0A) = blank"
    by (simp add: blank_def fun_eq_iff)
  then show ?thesis by (simp add: skipWhitespace_def rest_skip_while)
qed

lemma lex_loop_result:
  "\<exists>ts es. lr_tokens (lex_loop c out) = lr_tokens out @ ts \<and> lr_errors (lex_loop c out) = lr_errors out @ es
     \<and> wf_tokens ts \<and> (\<forall>t \<in> set (butlast ts). tk_kind t \<noteq> END_OF_FILE) \<and> (es = [] \<longrightarrow> covered (rest c) ts)"
proof (induction c out rule: lex_loop.induct)
  case (1 c out)
  define start where "start = skipWhitespace c"
  have ws: "rest c = takeWhile blank (rest c) @ rest start" unfolding start_def by (rule rest_whitespace)
  have gap: "skipped (takeWhile blank (rest c) @ u)" if "skipped u" for u
    by (rule skipped_blanks [OF _ that]) (auto dest: set_takeWhileD)
  show ?case
  proof (cases "isAtEnd start")
    case True
    let ?t = "\<lparr>tk_kind = END_OF_FILE, lexeme = [], tk_loc = currentLocation start\<rparr>"
    have "covered (rest c) [?t]"
      using covered_skip [OF covered_eof _ gap, of ?t] ws True by (simp add: isAtEnd_def)
    then show ?thesis
      using True by (intro exI [of _ "[?t]"] exI [of _ "[]"])
        (simp add: lex_loop.simps [of c out] start_def Let_def wf_tokens_def wf_token_def)
  next
    case False
    obtain c' out' where s: "lex_step start out = (c', out')" by force
    have loop: "lex_loop c out = lex_loop c' out'"
      using False s by (simp add: lex_loop.simps [of c out] start_def Let_def)
    from "1.IH" [OF start_def False s [symmetric]] obtain ts es where IH:
      "lr_tokens (lex_loop c' out') = lr_tokens out' @ ts" "lr_errors (lex_loop c' out') = lr_errors out' @ es"
      "wf_tokens ts" "\<forall>t \<in> set (butlast ts). tk_kind t \<noteq> END_OF_FILE" "es = [] \<longrightarrow> covered (rest c') ts"
      by blast
    have ne: "ts \<noteq> []" using IH(3) by (simp add: wf_tokens_def)
    have suf: "suffix (rest c') (rest start)"
      using suffix_advanceD [OF suffix_lex_step [of start out]] s by simp
    from False have "rest start \<noteq> []" by (simp add: isAtEnd_def)
    from lex_step_cases [OF this, of out] show ?thesis
    proof
      assume "one_token start out (lex_step start out)"
      then obtain t fs where t: "lr_tokens out' = lr_tokens out @ [t]" "lr_errors out' = lr_errors out @ fs"
        "lexeme t = take (length (rest start) - length (rest c')) (rest start)" "wf_token t" "tk_kind t \<noteq> END_OF_FILE"
        by (auto simp: one_token_def s)
      from suf t(3) have "rest start = lexeme t @ rest c'" by (auto simp: suffix_def)
      then have "covered (rest c) (t # ts)" if "es = []"
        using covered_skip [OF covered_token _ gap, of "rest c'" ts t] IH(5) that ws by simp
      with IH t ne loop show ?thesis
        by (intro exI [of _ "t # ts"] exI [of _ "fs @ es"]) (auto simp: wf_tokens_def)
    next
      assume "\<exists>g es. rest start = g @ rest (fst (lex_step start out))
        \<and> snd (lex_step start out) = out\<lparr>lr_errors := lr_errors out @ es\<rparr>
        \<and> (es = [] \<longrightarrow> (\<forall>s. skipped s \<longrightarrow> skipped (g @ s)))"
      then obtain g fs where g: "rest start = g @ rest c'" "out' = out\<lparr>lr_errors := lr_errors out @ fs\<rparr>"
        "fs = [] \<longrightarrow> (\<forall>s. skipped s \<longrightarrow> skipped (g @ s))" by (auto simp: s)
      have "covered (rest c) ts" if "fs = []" "es = []"
        using covered_skip [OF covered_skip _ gap, of "rest c'" ts g] IH(5) that g(1,3) ws ne by simp
      with IH g(2) loop show ?thesis
        by (intro exI [of _ ts] exI [of _ "fs @ es"]) auto
    qed
  qed
qed

lemma wf_tokenize: "wf_tokens (lr_tokens (tokenize s))"
  using lex_loop_result [of "lexer_new s" "\<lparr>lr_tokens = [], lr_errors = []\<rparr>"]
  by (auto simp: tokenize_def)

text \<open>
  C31: nothing of a text without lexical errors is lost: the lexemes of its tokens, in their order
  and with white space and closed comments between them, are the text itself.
\<close>

theorem lexing_is_lossless:
  assumes "lex_ok (tokenize s)"
  shows "\<exists>gs. length gs = length (lr_tokens (tokenize s)) \<and> (\<forall>g \<in> set gs. skipped g)
    \<and> interleaved gs (lr_tokens (tokenize s)) = s"
  using assms lex_loop_result [of "lexer_new s" "\<lparr>lr_tokens = [], lr_errors = []\<rparr>"]
  by (auto simp: tokenize_def lex_ok_def lexer_new_def covered_def)

theorem lexing_is_lossless_witness:
  "\<exists>gs. length gs = 3 \<and> (\<forall>g \<in> set gs. skipped g)
    \<and> interleaved gs (lr_tokens (tokenize ''a /* b */ 'c' '')) = ''a /* b */ 'c' ''"
proof -
  have "lex_ok (tokenize ''a /* b */ 'c' '')" "length (lr_tokens (tokenize ''a /* b */ 'c' '')) = 3"
    by code_simp+
  with lexing_is_lossless show ?thesis by metis
qed

text \<open>END_OF_FILE ends every token list, with or without errors, and occurs nowhere before.\<close>

lemma eof_ends_the_tokens:
  "\<exists>ts t. lr_tokens (tokenize s) = ts @ [t] \<and> tk_kind t = END_OF_FILE \<and> (\<forall>u \<in> set ts. tk_kind u \<noteq> END_OF_FILE)"
proof -
  from lex_loop_result [of "lexer_new s" "\<lparr>lr_tokens = [], lr_errors = []\<rparr>"]
  obtain ts where "lr_tokens (tokenize s) = ts" "wf_tokens ts" "\<forall>t \<in> set (butlast ts). tk_kind t \<noteq> END_OF_FILE"
    by (auto simp: tokenize_def)
  then show ?thesis by (metis append_butlast_last_id wf_tokens_def)
qed

subsection \<open>String literals\<close>

definition escape :: "char \<Rightarrow> string \<Rightarrow> string" where
  "escape q s = concat (map (\<lambda>c. if c = q then [q, q] else [c]) s)"

lemma unescape_skip: "c \<noteq> q \<Longrightarrow> unescape q (c # u) = c # unescape q u"
  by (cases u) simp_all

lemma unescape_escape: "unescape q (escape q s) = s"
  by (induction s) (simp_all add: escape_def unescape_skip)

lemma quoted_loop_escape:
  assumes "r = [] \<or> hd r \<noteq> q" "q \<noteq> CHR 0x00" "rest c = escape q s @ q # r"
  shows "\<exists>c'. quoted_loop q c = (True, c') \<and> rest c' = r"
  using assms(3)
proof (induction s arbitrary: c)
  case Nil
  then have "rest (advance c) = r" by (intro advance_Cons) (simp add: escape_def)
  then show ?case
    using Nil assms(1,2)
    by (cases r) (auto simp: quoted_loop.simps [of q c] escape_def isAtEnd_def peek_def Let_def)
next
  case (Cons x s)
  show ?case
  proof (cases "x = q")
    case True
    with Cons.prems have r1: "rest (advance c) = q # escape q s @ q # r"
      by (intro advance_Cons) (simp add: escape_def)
    then have "rest (advance (advance c)) = escape q s @ q # r" by (rule advance_Cons)
    from Cons.IH [OF this] r1 Cons.prems True show ?thesis
      by (auto simp: quoted_loop.simps [of q c] escape_def isAtEnd_def peek_def Let_def)
  next
    case False
    with Cons.prems have "rest (advance c) = escape q s @ q # r"
      by (intro advance_Cons [where x = x]) (simp add: escape_def)
    from Cons.IH [OF this] Cons.prems False show ?thesis
      by (auto simp: quoted_loop.simps [of q c] escape_def isAtEnd_def peek_def Let_def)
  qed
qed

text \<open>
  C32: a string between quotes, with the quotes inside it doubled, is one token without an error,
  and the value of that token is the string, whatever characters it has.
\<close>

theorem string_literal_roundtrip:
  "\<exists>t e. tokenize (quote # escape quote s @ [quote]) = \<lparr>lr_tokens = [t, e], lr_errors = []\<rparr>
     \<and> stringValue t = Inr s \<and> tk_kind e = END_OF_FILE"
proof -
  let ?c = "lexer_new (quote # escape quote s @ [quote])"
  have start: "skipWhitespace ?c = ?c" "\<not> isAtEnd ?c" "peek ?c 0 = quote"
    by (simp_all add: skipWhitespace_def skip_while.simps lexer_new_def quote_def isAtEnd_def peek_def)
  have "rest (advance ?c) = escape quote s @ quote # []" by (rule advance_Cons) (simp add: lexer_new_def)
  from quoted_loop_escape [OF _ _ this] obtain c' where
    c': "quoted_loop quote (advance ?c) = (True, c')" "rest c' = []" by (auto simp: quote_def)
  let ?t = "\<lparr>tk_kind = Lit LIT_STRING, lexeme = quote # escape quote s @ [quote], tk_loc = currentLocation (advance ?c)\<rparr>"
  have "lex_step ?c \<lparr>lr_tokens = [], lr_errors = []\<rparr> = (c', \<lparr>lr_tokens = [?t], lr_errors = []\<rparr>)"
    using c' start(3)
    by (simp add: lex_step_def Let_def scanString_def emit_def makeToken_def lexer_new_def quote_def
        single_char_def scanOperator_def)
  moreover have "isAtEnd (skipWhitespace c')"
    using c'(2) by (simp add: skipWhitespace_def skip_while.simps isAtEnd_def)
  ultimately have "tokenize (quote # escape quote s @ [quote]) = \<lparr>lr_tokens = [?t,
      \<lparr>tk_kind = END_OF_FILE, lexeme = [], tk_loc = currentLocation (skipWhitespace c')\<rparr>], lr_errors = []\<rparr>"
    using start(1,2) by (simp add: tokenize_def lex_loop.simps [of ?c] lex_loop.simps [of c'] Let_def)
  moreover have "stringValue ?t = Inr s" by (simp add: stringValue_def butlast_append unescape_escape)
  ultimately show ?thesis by auto
qed

end
