(* ===== verification/LQ_ParseTotal.thy ===== *)
theory LQ_ParseTotal
  imports LQ_Parser LQ_LexProps
begin

section \<open>The parser terminates\<close>

text \<open>
  A call of a parser method either consumes a token or passes control to a method of lower rank,
  so the depth of nested calls is bounded by four times the number of tokens. The locale
  \<open>parsers_within\<close> states what a method may rely on about the methods it calls within a depth
  \<open>n\<close>; every method of the class meets the same contract one level higher.
\<close>

subsection \<open>What a parser does with its tokens\<close>

text \<open>It throws an exception, or returns and leaves a well-formed list that is \<open>d\<close> shorter.\<close>

definition outcome :: "nat \<Rightarrow> token list \<Rightarrow> ('a \<times> token list) res \<Rightarrow> bool" where
  "outcome d ts r = (case r of Inl e \<Rightarrow> is_exception e | Inr (x, us) \<Rightarrow> wf_tokens us \<and> length us + d \<le> length ts)"

definition runs :: "nat \<Rightarrow> 'a parser \<Rightarrow> token list \<Rightarrow> bool" where
  "runs d p ts = (wf_tokens ts \<longrightarrow> outcome d ts (p ts))"

named_theorems runs_intros \<open>introduction rules for \<open>runs\<close>\<close>

lemma runs_less: "runs a p ts \<Longrightarrow> d \<le> a \<Longrightarrow> runs d p ts"
  by (auto simp: runs_def outcome_def split: sum.splits)

lemma runs_eq: "p ts = q ts \<Longrightarrow> runs d q ts \<Longrightarrow> runs d p ts"
  by (simp add: runs_def)

lemma runs_pret [runs_intros]: "runs 0 (pret x) ts"
  by (simp add: runs_def outcome_def pret_def)

lemma runs_pret2 [runs_intros]: "runs (0 + 0) (pret x) ts"
  by (simp add: runs_pret)

lemma runs_bind [runs_intros]:
  assumes "runs a p ts" "\<And>x us. length us + a \<le> length ts \<Longrightarrow> wf_tokens us \<Longrightarrow> runs b (f x) us" "d \<le> a + b"
  shows "runs d (pbind p f) ts"
proof (cases "p ts")
  case (Inl e)
  then show ?thesis using assms(1) by (simp add: runs_def outcome_def pbind_def)
next
  case (Inr r)
  obtain x us where r: "r = (x, us)" by force
  show ?thesis
    unfolding runs_def
  proof
    assume "wf_tokens ts"
    with assms(1) Inr r have us: "wf_tokens us" "length us + a \<le> length ts" by (simp_all add: runs_def outcome_def)
    from assms(2) [OF us(2,1)] us(1) have o1: "outcome b us (f x us)" by (simp add: runs_def)
    have "outcome d ts (f x us)"
    proof (cases "f x us")
      case (Inr q)
      with o1 us(2) assms(3) show ?thesis by (cases q) (auto simp: outcome_def)
    qed (use o1 in \<open>simp add: outcome_def\<close>)
    then show "outcome d ts (pbind p f ts)" by (simp add: pbind_def Inr r)
  qed
qed

lemma runs_pif [runs_intros]: "runs d p ts \<Longrightarrow> runs d q ts \<Longrightarrow> runs d (pif b p q) ts"
  by (simp add: runs_def pif_def)

lemma runs_if [runs_intros]: "runs d p ts \<Longrightarrow> runs d q ts \<Longrightarrow> runs d (if b then p else q) ts"
  by simp

lemma runs_prod [runs_intros]: "(\<And>a b. runs d (f a b) ts) \<Longrightarrow> runs d (case x of (a, b) \<Rightarrow> f a b) ts"
  by (cases x) simp

lemma runs_option [runs_intros]:
  "runs d p ts \<Longrightarrow> (\<And>a. runs d (f a) ts) \<Longrightarrow> runs d (case x of None \<Rightarrow> p | Some a \<Rightarrow> f a) ts"
  by (cases x) simp_all

lemma runs_on_check [runs_intros]: "runs d p ts \<Longrightarrow> runs d q ts \<Longrightarrow> runs d (on_check k p q) ts"
  by (simp add: on_check_def runs_pif)

lemma runs_error [runs_intros]: "runs d (parse_error msg) ts"
  by (simp add: runs_def outcome_def parse_error_def is_exception_def Let_def)

lemma runs_plift: "(\<And>e. r = Inl e \<Longrightarrow> is_exception e) \<Longrightarrow> runs 0 (plift r) ts"
  by (cases r) (auto simp: runs_def outcome_def plift_def)

lemma wf_tokens_tl: "wf_tokens ts \<Longrightarrow> \<not> at_end ts \<Longrightarrow> wf_tokens (tl ts) \<and> length (tl ts) + 1 = length ts"
  by (cases ts; cases "tl ts") (auto simp: wf_tokens_def at_end_def current_def tok_peek_def)

lemma wf_current: "wf_tokens ts \<Longrightarrow> wf_token (current ts)"
  by (cases ts) (auto simp: wf_tokens_def current_def tok_peek_def)

lemma runs_next [runs_intros]: "runs 0 next_token ts"
  using wf_tokens_tl [of ts] by (auto simp: runs_def outcome_def next_token_def tok_advance_def)

lemma runs_next_inside: "\<not> at_end ts \<Longrightarrow> runs 1 next_token ts"
  using wf_tokens_tl [of ts] by (auto simp: runs_def outcome_def next_token_def tok_advance_def)

lemma runs_match [runs_intros]: "runs 0 (tok_match k) ts"
  using wf_tokens_tl [of ts] by (auto simp: runs_def outcome_def tok_match_def tok_advance_def)

lemma runs_expect [runs_intros]:
  assumes "k \<noteq> END_OF_FILE"
  shows "runs 1 (expect k what) ts"
proof (cases "tok_check k ts")
  case True
  then have "\<not> at_end ts" using assms by (simp add: tok_check_def at_end_def)
  with True runs_next_inside show ?thesis by (simp add: runs_def expect_def)
qed (use runs_error in \<open>simp add: runs_def expect_def\<close>)

lemma runs_on_match [runs_intros]:
  assumes "k \<noteq> END_OF_FILE" "\<And>us. length us + 1 \<le> length ts \<Longrightarrow> runs 0 p us" "runs d q ts" "d \<le> 1"
  shows "runs d (on_match k p q) ts"
proof (cases "tok_check k ts")
  case True
  then have "runs 1 next_token ts"
    using assms(1) by (intro runs_next_inside) (simp add: tok_check_def at_end_def)
  then have "runs d (pbind next_token (\<lambda>_. p)) ts"
    by (rule runs_bind) (use assms(2,4) in simp_all)
  with True show ?thesis by (simp add: on_match_def pif_def runs_def)
qed (use assms(3) in \<open>simp add: on_match_def pif_def runs_def\<close>)

lemma runs_optional [runs_intros]:
  "k \<noteq> END_OF_FILE \<Longrightarrow> (\<And>us. length us + 1 \<le> length ts \<Longrightarrow> runs 0 p us) \<Longrightarrow> runs 0 (optional k p) ts"
  unfolding optional_def by (rule runs_intros | assumption | simp)+

lemma runs_name [runs_intros]: "runs 1 (name_of what) ts"
  unfolding name_of_def by (rule runs_intros | simp)+

lemma runs_list:
  assumes "runs 1 p ts" "\<And>us. length us + 2 \<le> length ts \<Longrightarrow> runs 0 again us"
  shows "runs 1 (do_list p again) ts"
  unfolding do_list_def
  by (rule runs_bind [OF assms(1)], rule runs_on_match) (rule runs_intros assms(2) | simp)+

subsection \<open>The decoders throw exceptions only\<close>

lemma string_exception: "wf_token t \<Longrightarrow> tk_kind t = Lit LIT_STRING \<Longrightarrow> stringValue t \<noteq> Inl e"
  by (auto simp: stringValue_def wf_token_def)

lemma int_exception: "intValue t = Inl e \<Longrightarrow> is_exception e"
  by (auto simp: intValue_def is_exception_def split: if_splits from_chars_result.splits)

lemma float_exception: "floatValue t = Inl e \<Longrightarrow> is_exception e"
  by (auto simp: floatValue_def is_exception_def stod_def res_simps split: if_splits option.splits)

lemma runs_behind:
  assumes "\<not> at_end ts" "\<And>us. length us + 1 \<le> length ts \<Longrightarrow> runs 0 p us"
  shows "runs 1 (pbind next_token (\<lambda>_. p)) ts"
  by (rule runs_bind [OF runs_next_inside]) (use assms in simp_all)

lemma runs_literal:
  assumes "\<not> at_end ts" "\<And>e. wf_tokens ts \<Longrightarrow> r = Inl e \<Longrightarrow> is_exception e"
  shows "runs 1 (pbind (plift r) (\<lambda>v. pbind next_token (\<lambda>_. pret (g v)))) ts"
proof (cases r)
  case (Inr v)
  have "runs 1 (pbind next_token (\<lambda>_. pret (g v))) ts"
    by (rule runs_behind [OF assms(1)]) (rule runs_pret)
  then show ?thesis by (simp add: Inr runs_def pbind_def plift_def)
qed (use assms(2) in \<open>simp add: runs_def outcome_def pbind_def plift_def\<close>)

lemma runs_int_arg [runs_intros]: "runs 1 (int_arg what) ts"
  unfolding int_arg_def by (rule runs_bind, rule runs_expect) (auto intro: runs_plift int_exception)

subsection \<open>The contract of the methods\<close>

locale parsers_within =
  fixes n :: nat and P :: parsers
  assumes expr: "4 * length ts + 3 \<le> n \<Longrightarrow> runs 1 (p_expr P k) ts"
    and loop: "4 * length ts + 1 \<le> n \<Longrightarrow> runs 0 (p_loop P k e) ts"
    and unary: "4 * length ts + 2 \<le> n \<Longrightarrow> runs 1 (p_unary P) ts"
    and postfix_expr: "4 * length ts + 1 \<le> n \<Longrightarrow> runs 0 (p_postfix P e) ts"
    and primary: "4 * length ts + 1 \<le> n \<Longrightarrow> runs 1 (p_primary P) ts"
    and whens: "4 * length ts + 1 \<le> n \<Longrightarrow> runs 0 (p_whens P) ts"
    and exprs: "4 * length ts + 4 \<le> n \<Longrightarrow> runs 1 (p_exprs P) ts"
    and select: "4 * length ts + 1 \<le> n \<Longrightarrow> runs 1 (p_select P) ts"
    and items: "4 * length ts + 4 \<le> n \<Longrightarrow> runs 1 (p_items P) ts"
    and tables: "4 * length ts + 3 \<le> n \<Longrightarrow> runs 1 (p_tables P) ts"
    and joins: "4 * length ts + 2 \<le> n \<Longrightarrow> runs 0 (p_joins P r) ts"
    and primaryRef: "4 * length ts + 1 \<le> n \<Longrightarrow> runs 1 (p_primaryRef P) ts"
    and keys: "4 * length ts + 4 \<le> n \<Longrightarrow> runs 1 (p_keys P) ts"
    and names: "4 * length ts + 1 \<le> n \<Longrightarrow> runs 1 (p_names P) ts"
    and rows: "4 * length ts + 1 \<le> n \<Longrightarrow> runs 1 (p_rows P) ts"
    and sets: "4 * length ts + 1 \<le> n \<Longrightarrow> runs 1 (p_sets P) ts"
    and constraints: "4 * length ts + 1 \<le> n \<Longrightarrow> runs 0 (p_constraints P) ts"
    and columns: "4 * length ts + 1 \<le> n \<Longrightarrow> runs 1 (p_columns P) ts"
begin

lemmas methods = loop postfix_expr whens joins constraints expr unary primary exprs select items tables
  primaryRef keys names rows sets columns

lemma runs_0: "runs 1 p ts \<Longrightarrow> runs 0 p ts"
  by (rule runs_less) simp_all

lemma runs_expression [runs_intros]: "4 * length ts + 3 \<le> n \<Longrightarrow> runs 1 (parseExpression P) ts"
  unfolding parseExpression_def by (rule expr)

lemma runs_args [runs_intros]: "4 * length ts + 4 \<le> n \<Longrightarrow> runs 0 (parseArgs P) ts"
  unfolding parseArgs_def by (rule runs_intros methods runs_0 order_refl | linarith)+

lemma runs_exprs: "4 * length ts + 3 \<le> n \<Longrightarrow> runs 1 (parseExprs P) ts"
  unfolding parseExprs_def by (rule runs_list runs_intros methods runs_0 order_refl | linarith)+

lemma runs_parseExpr: "4 * length ts + 2 \<le> n \<Longrightarrow> runs 1 (parseExpr P k) ts"
  unfolding parseExpr_def by (rule runs_intros methods order_refl | linarith)+

lemma runs_parseUnary: "4 * length ts + 1 \<le> n \<Longrightarrow> runs 1 (parseUnary P) ts"
  unfolding parseUnary_def by (rule runs_intros methods order_refl | linarith | (simp; fail))+

lemma runs_call [runs_intros]: "4 * length ts + 1 \<le> n \<Longrightarrow> runs 1 (parseFunctionCall P f loc) ts"
  unfolding parseFunctionCall_def by (rule runs_intros methods runs_0 order_refl | linarith | (simp; fail))+

lemma runs_parsePostfix:
  assumes "4 * length ts + 0 \<le> n"
  shows "runs 0 (parsePostfix P e) ts"
proof -
  have tail: "runs 0 (on_match (ExprWord KW_BETWEEN)
          (pbind (p_expr P 5) (\<lambda>low.
           pbind (expect (ExprWord KW_AND) ''AND in BETWEEN'') (\<lambda>_.
           pbind (p_expr P 5) (\<lambda>high.
             p_postfix P (BetweenExpr e low high negated)))))
        (on_match (ExprWord KW_IN)
          (pbind (expect (Punct LPAREN) ''( after IN'') (\<lambda>_.
           pbind (on_check (Clause KW_SELECT)
                    (pbind (p_select P) (\<lambda>s. pret (InSelect s)))
                    (pbind (parseArgs P) (\<lambda>es. pret (InList es)))) (\<lambda>vals.
           pbind (expect (Punct RPAREN) '') after IN list'') (\<lambda>_.
             p_postfix P (InExpr e vals negated)))))
        (if negated
         then pbind next_token (\<lambda>k. pbind (p_expr P 5) (\<lambda>right.
                p_postfix P (UnaryExpr NOT
                  (BinaryExpr (if tk_kind k = ExprWord KW_ILIKE then ILIKE else LIKE) e right))))
         else pret e))) us"
    if "4 * length us \<le> n" "negated \<Longrightarrow> 4 * length us + 4 \<le> n" for us negated
    using that
    by (cases negated; simp only: if_True if_False simp_thms)
      (rule runs_intros methods runs_0 order_refl | linarith | (simp; fail))+
  have split: "pbind (pif negated_ahead (pbind next_token (\<lambda>_. pret True)) (pret False)) f ts
      = (if negated_ahead ts then f True (tl ts) else f False ts)" for f :: "bool \<Rightarrow> expr parser"
    by (auto simp: pbind_def pif_def pret_def next_token_def tok_advance_def negated_ahead_def tok_check_def at_end_def)
  have ahead: "wf_tokens (tl ts) \<and> length (tl ts) + 1 = length ts" if "wf_tokens ts" "negated_ahead ts"
    using wf_tokens_tl [OF that(1)] that(2) by (simp add: negated_ahead_def tok_check_def at_end_def)
  have negation: "runs 0 (pbind (pif negated_ahead (pbind next_token (\<lambda>_. pret True)) (pret False)) f) ts"
    if "\<And>b us. 4 * length us \<le> n \<Longrightarrow> (b \<Longrightarrow> 4 * length us + 4 \<le> n) \<Longrightarrow> runs 0 (f b) us" for f :: "bool \<Rightarrow> expr parser"
  proof (cases "wf_tokens ts \<and> negated_ahead ts")
    case True
    with ahead have "wf_tokens (tl ts)" "length (tl ts) + 1 = length ts" by simp_all
    moreover have "runs 0 (f True) (tl ts)" by (rule that) (use assms calculation in simp_all)
    ultimately show ?thesis using True by (auto simp: runs_def split outcome_def split: sum.splits)
  next
    case False
    have "runs 0 (f False) ts" by (rule that) (use assms in simp_all)
    with False show ?thesis by (auto simp: runs_def split)
  qed
  show ?thesis
    unfolding parsePostfix_def
    by (rule negation tail runs_intros methods runs_0 order_refl | assumption | (use assms in linarith) | (simp; fail))+
qed

lemma runs_parseWhens: "4 * length ts + 0 \<le> n \<Longrightarrow> runs 0 (parseWhens P) ts"
  unfolding parseWhens_def by (rule runs_intros methods runs_0 order_refl | linarith | (simp; fail))+

lemma runs_case [runs_intros]: "4 * length ts + 3 \<le> n \<Longrightarrow> runs 1 (parseCase P) ts"
  unfolding parseCase_def by (rule runs_intros methods runs_0 order_refl | linarith | (simp; fail))+

lemma runs_parseName [runs_intros]: "4 * length ts + 1 \<le> n \<Longrightarrow> runs 0 (parseName P f loc) ts"
  unfolding parseName_def by (rule runs_intros methods runs_0 order_refl | linarith | (simp; fail))+

lemma runs_parseParen [runs_intros]: "4 * length ts + 3 \<le> n \<Longrightarrow> runs 1 (parseParen P) ts"
  unfolding parseParen_def by (rule runs_intros methods runs_0 order_refl | linarith | (simp; fail))+

lemma runs_parsePrimary: "4 * length ts \<le> n \<Longrightarrow> runs 1 (parsePrimary P) ts"
proof -
  assume n: "4 * length ts \<le> n"
  let ?t = "current ts"
  have str: "is_exception e" if "wf_tokens ts" "tk_kind ?t = Lit LIT_STRING" "stringValue ?t = Inl e" for e
    using string_exception [OF wf_current [OF that(1)] that(2), of e] that(3) by simp
  have taken: "runs 1 (pbind next_token (\<lambda>_. p)) ts"
    if "\<And>us. length us + 1 \<le> length ts \<Longrightarrow> runs 0 p us"
      "tk_kind ?t \<noteq> END_OF_FILE" for p :: "expr parser"
    by (rule runs_behind) (use that in \<open>simp_all add: at_end_def\<close>)
  have lit: "runs 1 (parsePrimary P) ts" if "tk_kind ?t = Lit l" for l
  proof (cases l)
    case LIT_INTEGER
    have "runs 1 (pbind (plift (intValue ?t)) (\<lambda>v. pbind next_token (\<lambda>_. pret (Literal (VI64 v))))) ts"
      by (rule runs_literal) (use that LIT_INTEGER in \<open>auto simp: at_end_def intro: int_exception\<close>)
    then show ?thesis using that LIT_INTEGER by (simp add: runs_def parsePrimary_def Let_def)
  next
    case LIT_FLOAT
    have "runs 1 (pbind (plift (floatValue ?t)) (\<lambda>v. pbind next_token (\<lambda>_. pret (Literal (VF64 v))))) ts"
      by (rule runs_literal) (use that LIT_FLOAT in \<open>auto simp: at_end_def intro: float_exception\<close>)
    then show ?thesis using that LIT_FLOAT by (simp add: runs_def parsePrimary_def Let_def)
  next
    case LIT_STRING
    have "runs 1 (pbind (plift (stringValue ?t)) (\<lambda>v. pbind next_token (\<lambda>_. pret (Literal (VStr v))))) ts"
      by (rule runs_literal) (use that LIT_STRING in \<open>auto simp: at_end_def intro: str\<close>)
    then show ?thesis using that LIT_STRING by (simp add: runs_def parsePrimary_def Let_def)
  qed (use that taken [OF runs_pret] in \<open>auto simp: runs_def parsePrimary_def Let_def\<close>)
  have c: "runs 0 (parseCase P) us" "runs 0 (parseParen P) us" "runs 0 (parseName P f loc) us" "runs 0 (pret x) us"
    if "length us + 1 \<le> length ts" for us f loc x
    by (rule runs_intros runs_0 | (use n that in linarith))+
  show ?thesis
  proof (cases "tk_kind ?t")
    case (Lit l)
    then show ?thesis by (rule lit)
  qed (use runs_error [of 1 _ ts] taken [OF c(1)] taken [OF c(2)] taken [OF c(3)] taken [OF c(4)]
      in \<open>auto simp: runs_def parsePrimary_def Let_def\<close>)
qed

lemma runs_item [runs_intros]: "4 * length ts + 3 \<le> n \<Longrightarrow> runs 1 (selectItem P) ts"
  unfolding selectItem_def by (rule runs_intros methods runs_0 order_refl | linarith | (simp; fail))+

lemma runs_parseSelectList: "4 * length ts + 3 \<le> n \<Longrightarrow> runs 1 (parseSelectList P) ts"
  unfolding parseSelectList_def by (rule runs_list runs_intros methods runs_0 order_refl | linarith | (simp; fail))+

lemma runs_parsePrimaryTableRef: "4 * length ts \<le> n \<Longrightarrow> runs 1 (parsePrimaryTableRef P) ts"
  unfolding parsePrimaryTableRef_def by (rule runs_intros methods runs_0 order_refl | linarith | (simp; fail))+

lemma runs_joinType [runs_intros]: "runs 0 joinType ts"
  unfolding joinType_def by (rule runs_intros methods runs_0 order_refl | linarith | (simp; fail))+

lemma runs_parseJoinChain: "4 * length ts + 1 \<le> n \<Longrightarrow> runs 0 (parseJoinChain P r) ts"
  unfolding parseJoinChain_def by (rule runs_intros methods runs_0 order_refl | linarith | (simp; fail))+

lemma runs_tableRef [runs_intros]: "4 * length ts + 2 \<le> n \<Longrightarrow> runs 1 (parseTableRef P) ts"
  unfolding parseTableRef_def by (rule runs_intros methods runs_0 order_refl | linarith | (simp; fail))+

lemma runs_tableRefs: "4 * length ts + 2 \<le> n \<Longrightarrow> runs 1 (tableRefs P) ts"
  unfolding tableRefs_def by (rule runs_list runs_intros methods runs_0 order_refl | linarith | (simp; fail))+

lemma runs_from [runs_intros]: "4 * length ts \<le> n \<Longrightarrow> runs 1 (parseFrom P) ts"
  unfolding parseFrom_def by (rule runs_intros methods runs_0 order_refl | linarith | (simp; fail))+

lemma runs_sortKey [runs_intros]: "4 * length ts + 3 \<le> n \<Longrightarrow> runs 1 (sortKey P) ts"
  unfolding sortKey_def by (rule runs_intros methods runs_0 order_refl | linarith | (simp; fail))+

lemma runs_parseOrderBy: "4 * length ts + 3 \<le> n \<Longrightarrow> runs 1 (parseOrderBy P) ts"
  unfolding parseOrderBy_def by (rule runs_list runs_intros methods runs_0 order_refl | linarith | (simp; fail))+

lemma runs_limit [runs_intros]: "4 * length ts + 3 \<le> n \<Longrightarrow> runs 1 (limitClause P) ts"
  unfolding limitClause_def by (rule runs_intros methods runs_0 order_refl | linarith | (simp; fail))+

lemma runs_setOp [runs_intros]: "4 * length ts + 1 \<le> n \<Longrightarrow> runs 1 (setOpTail P) ts"
  unfolding setOpTail_def by (rule runs_intros methods runs_0 order_refl | linarith | (simp; fail))+

lemma runs_parseSelect: "4 * length ts \<le> n \<Longrightarrow> runs 1 (parseSelect P) ts"
  unfolding parseSelect_def by (rule runs_intros methods runs_0 order_refl | linarith | (simp; fail))+

subsubsection \<open>The other statements\<close>

lemma runs_decimal [runs_intros]: "runs 0 decimal_type ts"
  unfolding decimal_type_def by (rule runs_intros methods runs_0 order_refl | linarith | (simp; fail))+

lemma runs_dataType [runs_intros]: "runs 0 parseDataType ts"
  unfolding parseDataType_def Let_def
proof (rule runs_bind [where a = 0 and b = 0, OF runs_next])
  fix t :: token and us :: "token list"
  have "runs 0 (pbind (on_match (Punct LPAREN)
      (pbind (int_arg ''length'') (\<lambda>n. pbind (expect (Punct RPAREN) '') after VARCHAR length'') (\<lambda>_. pret (ucast n))))
      (pret (- 1))) (\<lambda>len. pret (dt_varchar len True))) us"
    by (rule runs_intros runs_0 order_refl | (simp; fail))+
  then show "runs 0 (case tk_kind t of TypeWord w \<Rightarrow> (case w of
           KW_BOOLEAN \<Rightarrow> pret (dt_boolean True) | KW_BOOL \<Rightarrow> pret (dt_boolean True)
         | KW_TINYINT \<Rightarrow> pret (mk_dt INT8 True) | KW_SMALLINT \<Rightarrow> pret (mk_dt INT16 True)
         | KW_INT \<Rightarrow> pret (dt_int32 True) | KW_INTEGER \<Rightarrow> pret (dt_int32 True)
         | KW_BIGINT \<Rightarrow> pret (dt_int64 True) | KW_REAL \<Rightarrow> pret (mk_dt FLOAT32 True)
         | KW_FLOAT \<Rightarrow> pret (mk_dt FLOAT32 True) | KW_DOUBLE \<Rightarrow> pret (dt_float64 True)
         | KW_DATE \<Rightarrow> pret (dt_date True) | KW_TIMESTAMP \<Rightarrow> pret (dt_timestamp True)
         | KW_TEXT \<Rightarrow> pret (dt_varchar (- 1) True)
         | KW_VARCHAR \<Rightarrow> pbind (on_match (Punct LPAREN)
               (pbind (int_arg ''length'') (\<lambda>n. pbind (expect (Punct RPAREN) '') after VARCHAR length'') (\<lambda>_. pret (ucast n))))
               (pret (- 1))) (\<lambda>len. pret (dt_varchar len True))
         | KW_DECIMAL \<Rightarrow> decimal_type | KW_NUMERIC \<Rightarrow> decimal_type | KW_BLOB \<Rightarrow> pret (mk_dt BLOB True))
     | _ \<Rightarrow> parse_error ''expected a data type name'') us"
    by (auto split: token_kind.split kw_type.split intro: runs_pret runs_error runs_decimal)
qed simp

lemma runs_qualified [runs_intros]: "runs 1 qualifiedName ts"
  unfolding qualifiedName_def by (rule runs_intros methods runs_0 order_refl | linarith | (simp; fail))+

lemma runs_columnNames: "4 * length ts \<le> n \<Longrightarrow> runs 1 (columnNames P) ts"
  unfolding columnNames_def by (rule runs_list runs_intros methods runs_0 order_refl | linarith | (simp; fail))+

lemma runs_valuesRow [runs_intros]: "4 * length ts \<le> n \<Longrightarrow> runs 1 (valuesRow P) ts"
  unfolding valuesRow_def by (rule runs_intros methods runs_0 order_refl | linarith | (simp; fail))+

lemma runs_valuesRows: "4 * length ts \<le> n \<Longrightarrow> runs 1 (valuesRows P) ts"
  unfolding valuesRows_def by (rule runs_list runs_intros methods runs_0 order_refl | linarith | (simp; fail))+

lemma runs_assignment [runs_intros]: "4 * length ts \<le> n \<Longrightarrow> runs 1 (assignment P) ts"
  unfolding assignment_def by (rule runs_intros methods runs_0 order_refl | linarith | (simp; fail))+

lemma runs_assignments: "4 * length ts \<le> n \<Longrightarrow> runs 1 (assignments P) ts"
  unfolding assignments_def by (rule runs_list runs_intros methods runs_0 order_refl | linarith | (simp; fail))+

lemma runs_constraintLoop: "4 * length ts \<le> n \<Longrightarrow> runs 0 (constraintLoop P) ts"
  unfolding constraintLoop_def by (rule runs_intros methods runs_0 order_refl | linarith | (simp; fail))+

lemma runs_columnSpec [runs_intros]: "4 * length ts \<le> n \<Longrightarrow> runs 1 (columnSpec P) ts"
  unfolding columnSpec_def by (rule runs_intros methods runs_0 order_refl | linarith | (simp; fail))+

lemma runs_columnSpecs: "4 * length ts \<le> n \<Longrightarrow> runs 1 (columnSpecs P) ts"
  unfolding columnSpecs_def by (rule runs_list runs_intros methods runs_0 order_refl | linarith | (simp; fail))+

lemma runs_insert: "4 * length ts \<le> n \<Longrightarrow> runs 0 (parseInsert P) ts"
  unfolding parseInsert_def by (rule runs_intros methods runs_0 order_refl | linarith | (simp; fail))+

lemma runs_update: "4 * length ts \<le> n \<Longrightarrow> runs 0 (parseUpdate P) ts"
  unfolding parseUpdate_def by (rule runs_intros methods runs_0 order_refl | linarith | (simp; fail))+

lemma runs_delete: "4 * length ts \<le> n \<Longrightarrow> runs 0 (parseDelete P) ts"
  unfolding parseDelete_def by (rule runs_intros methods runs_0 order_refl | linarith | (simp; fail))+

lemma runs_create: "4 * length ts \<le> n \<Longrightarrow> runs 0 (parseCreateTable P) ts"
  unfolding parseCreateTable_def by (rule runs_intros methods runs_0 order_refl | linarith | (simp; fail))+

lemma runs_drop: "runs 0 parseDropTable ts"
  unfolding parseDropTable_def by (rule runs_intros methods runs_0 order_refl | linarith | (simp; fail))+

lemma runs_statement:
  assumes "4 * length ts + 1 \<le> n"
  shows "runs 0 (statementBody P) ts"
proof -
  have "runs 0 (pbind (p_select P) (\<lambda>s. pret (StmtSelect s))) ts"
    by (rule runs_intros methods runs_0 order_refl | (use assms in linarith) | (simp; fail))+
  moreover have "4 * length ts \<le> n" using assms by simp
  ultimately show ?thesis
    using runs_insert runs_update runs_delete runs_create runs_drop
      runs_error [of 0 "''expected a statement (SELECT/INSERT/UPDATE/DELETE/CREATE/DROP)''" ts, where 'a = stmt]
    by (simp add: runs_def statementBody_def Let_def)
qed

lemma runs_exprLoop:
  assumes "4 * length ts \<le> n"
  shows "runs 0 (exprLoop P k left) ts"
proof -
  let ?k = "tk_kind (current ts)"
  have stays: "runs 0 (pret left) ts" by (rule runs_pret)
  have "runs 0 (pbind next_token (\<lambda>_. pbind (p_expr P (if isRightAssoc ?k then binaryPrecedence ?k
        else binaryPrecedence ?k + 1)) (\<lambda>right. pbind (p_postfix P (BinaryExpr (toBinaryOp ?k) left right))
        (p_loop P k)))) ts" if "0 \<le> binaryPrecedence ?k"
  proof (rule runs_bind [OF runs_next_inside])
    show "\<not> at_end ts" using that by (auto simp: at_end_def binaryPrecedence_def)
    show "runs 0 (pbind (p_expr P (if isRightAssoc ?k then binaryPrecedence ?k else binaryPrecedence ?k + 1))
        (\<lambda>right. pbind (p_postfix P (BinaryExpr (toBinaryOp ?k) left right)) (p_loop P k))) us"
      if "length us + 1 \<le> length ts" for us
      by (rule runs_intros methods order_refl | (use assms that in linarith))+
  qed simp
  with stays show ?thesis
    by (simp add: runs_def exprLoop_def pbind_def [of "\<lambda>ts. Inr (tk_kind (current ts), ts)"] Let_def)
qed

lemma one_deeper: "parsers_within (Suc n) (deeper P)"
  by unfold_locales
    (simp only: deeper_def parsers.simps,
     (rule runs_parseExpr runs_exprLoop runs_parseUnary runs_parsePostfix runs_parsePrimary runs_parseWhens
        runs_exprs runs_parseSelect runs_parseSelectList runs_tableRefs runs_parseJoinChain
        runs_parsePrimaryTableRef runs_parseOrderBy runs_columnNames runs_valuesRows runs_assignments
        runs_constraintLoop runs_columnSpecs; linarith))+

end

lemma within_depth: "parsers_within n (parsers_at n)"
proof (induction n)
  case 0
  show ?case by unfold_locales simp_all
next
  case (Suc n)
  then show ?case unfolding parsers_at.simps by (rule parsers_within.one_deeper)
qed

interpretation depth: parsers_within n "parsers_at n" for n
  by (rule within_depth)

subsection \<open>Enough depth\<close>

definition parse_depth :: "token list \<Rightarrow> nat" where
  "parse_depth ts = 4 * length ts + 1"

lemma runs_parseStatement:
  assumes "wf_tokens ts" "parse_depth ts \<le> fuel" "parseStatement fuel ts = Inl e"
  shows "is_exception e"
proof -
  let ?p = "pbind (statementBody (parsers_at fuel)) (\<lambda>s. pbind (tok_match (Punct SEMICOLON)) (\<lambda>_.
         pif at_end (pret s) (parse_error ''unexpected trailing tokens after statement'')))"
  have "runs 0 ?p ts"
    by (rule runs_intros depth.runs_statement order_refl | (use assms(2) in \<open>simp add: parse_depth_def; fail\<close>))+
  then show ?thesis
    using assms(1,3) by (auto simp: runs_def outcome_def parseStatement_def res_simps)
qed

subsection \<open>More depth changes nothing\<close>

definition below :: "'a parser \<Rightarrow> 'a parser \<Rightarrow> bool" where
  "below p q = (\<forall>ts. p ts = Inl OutOfFuel \<or> p ts = q ts)"

named_theorems below_intros \<open>introduction rules for \<open>below\<close>\<close>

lemma below_refl [below_intros]: "below p p"
  by (simp add: below_def)

lemma below_out [below_intros]: "below pout q"
  by (simp add: below_def pout_def)

lemma below_bind [below_intros]:
  assumes "below p q" "\<And>x. below (f x) (g x)"
  shows "below (pbind p f) (pbind q g)"
  unfolding below_def
proof
  fix ts
  from assms(1) consider "p ts = Inl OutOfFuel" | "p ts = q ts" by (auto simp: below_def)
  then show "pbind p f ts = Inl OutOfFuel \<or> pbind p f ts = pbind q g ts"
  proof cases
    case 2
    with assms(2) show ?thesis by (cases "q ts") (auto simp: pbind_def below_def)
  qed (simp add: pbind_def)
qed

lemma below_pif [below_intros]: "below p p' \<Longrightarrow> below q q' \<Longrightarrow> below (pif b p q) (pif b p' q')"
  by (simp add: below_def pif_def)

lemma below_if [below_intros]: "below p p' \<Longrightarrow> below q q' \<Longrightarrow> below (if b then p else q) (if b then p' else q')"
  by simp

lemma below_let [below_intros]: "(\<And>x. below (f x) (g x)) \<Longrightarrow> below (Let x f) (Let x g)"
  by (simp add: Let_def)

lemma below_prod [below_intros]:
  "(\<And>a b. below (f a b) (g a b)) \<Longrightarrow> below (case x of (a, b) \<Rightarrow> f a b) (case x of (a, b) \<Rightarrow> g a b)"
  by (cases x) simp

lemma below_option [below_intros]:
  "below p q \<Longrightarrow> (\<And>a. below (f a) (g a)) \<Longrightarrow>
   below (case x of None \<Rightarrow> p | Some a \<Rightarrow> f a) (case x of None \<Rightarrow> q | Some a \<Rightarrow> g a)"
  by (cases x) simp_all

lemma below_on_check [below_intros]: "below p p' \<Longrightarrow> below q q' \<Longrightarrow> below (on_check k p q) (on_check k p' q')"
  unfolding on_check_def by (rule below_intros | assumption)+

lemma below_on_match [below_intros]: "below p p' \<Longrightarrow> below q q' \<Longrightarrow> below (on_match k p q) (on_match k p' q')"
  unfolding on_match_def by (rule below_pif below_bind below_refl | assumption)+

lemma below_optional [below_intros]: "below p p' \<Longrightarrow> below (optional k p) (optional k p')"
  unfolding optional_def by (rule below_on_match below_bind below_refl | assumption)+

lemma below_list [below_intros]: "below p p' \<Longrightarrow> below q q' \<Longrightarrow> below (do_list p q) (do_list p' q')"
  unfolding do_list_def by (rule below_on_match below_bind below_refl | assumption)+

locale parsers_below =
  fixes P Q :: parsers
  assumes expr: "below (p_expr P k) (p_expr Q k)"
    and loop: "below (p_loop P k e) (p_loop Q k e)"
    and unary: "below (p_unary P) (p_unary Q)"
    and postfix_expr: "below (p_postfix P e) (p_postfix Q e)"
    and primary: "below (p_primary P) (p_primary Q)"
    and whens: "below (p_whens P) (p_whens Q)"
    and exprs: "below (p_exprs P) (p_exprs Q)"
    and select: "below (p_select P) (p_select Q)"
    and items: "below (p_items P) (p_items Q)"
    and tables: "below (p_tables P) (p_tables Q)"
    and joins: "below (p_joins P r) (p_joins Q r)"
    and primaryRef: "below (p_primaryRef P) (p_primaryRef Q)"
    and keys: "below (p_keys P) (p_keys Q)"
    and names: "below (p_names P) (p_names Q)"
    and rows: "below (p_rows P) (p_rows Q)"
    and sets: "below (p_sets P) (p_sets Q)"
    and constraints: "below (p_constraints P) (p_constraints Q)"
    and columns: "below (p_columns P) (p_columns Q)"
begin

lemmas methods = expr loop unary postfix_expr primary whens exprs select items tables joins primaryRef keys names rows sets constraints columns

lemma below_parseExpression [below_intros]: "below (parseExpression P) (parseExpression Q)"
  unfolding parseExpression_def by (rule below_intros methods)+

lemma below_parseExprs [below_intros]: "below (parseExprs P) (parseExprs Q)"
  unfolding parseExprs_def by (rule below_intros methods)+

lemma below_parseArgs [below_intros]: "below (parseArgs P) (parseArgs Q)"
  unfolding parseArgs_def by (rule below_intros methods)+

lemma below_parseExpr [below_intros]: "below (parseExpr P k) (parseExpr Q k)"
  unfolding parseExpr_def by (rule below_intros methods)+

lemma below_exprLoop [below_intros]: "below (exprLoop P k e) (exprLoop Q k e)"
  unfolding exprLoop_def by (rule below_intros methods)+

lemma below_parseUnary [below_intros]: "below (parseUnary P) (parseUnary Q)"
  unfolding parseUnary_def by (rule below_intros methods)+

lemma below_parsePostfix [below_intros]: "below (parsePostfix P e) (parsePostfix Q e)"
  unfolding parsePostfix_def by (rule below_intros methods)+

lemma below_parseFunctionCall [below_intros]: "below (parseFunctionCall P f l) (parseFunctionCall Q f l)"
  unfolding parseFunctionCall_def by (rule below_intros methods)+

lemma below_parseWhens [below_intros]: "below (parseWhens P) (parseWhens Q)"
  unfolding parseWhens_def by (rule below_intros methods)+

lemma below_parseCase [below_intros]: "below (parseCase P) (parseCase Q)"
  unfolding parseCase_def by (rule below_intros methods)+

lemma below_parseName [below_intros]: "below (parseName P f l) (parseName Q f l)"
  unfolding parseName_def by (rule below_intros methods)+

lemma below_parseParen [below_intros]: "below (parseParen P) (parseParen Q)"
  unfolding parseParen_def by (rule below_intros methods)+

lemma below_parsePrimary [below_intros]: "below (parsePrimary P) (parsePrimary Q)"
proof -
  have b: "below (pbind next_token (\<lambda>_. parseCase P)) (pbind next_token (\<lambda>_. parseCase Q))"
      "below (pbind next_token (\<lambda>_. parseParen P)) (pbind next_token (\<lambda>_. parseParen Q))"
      "below (pbind next_token (\<lambda>_. parseName P f l)) (pbind next_token (\<lambda>_. parseName Q f l))" for f l
    by (rule below_intros)+
  show ?thesis
    using b unfolding below_def parsePrimary_def Let_def
    by (auto split: token_kind.split lit_kind.split)
qed

lemma below_selectItem [below_intros]: "below (selectItem P) (selectItem Q)"
  unfolding selectItem_def by (rule below_intros methods)+

lemma below_parseSelectList [below_intros]: "below (parseSelectList P) (parseSelectList Q)"
  unfolding parseSelectList_def by (rule below_intros methods)+

lemma below_parsePrimaryTableRef [below_intros]: "below (parsePrimaryTableRef P) (parsePrimaryTableRef Q)"
  unfolding parsePrimaryTableRef_def by (rule below_intros methods)+

lemma below_parseJoinChain [below_intros]: "below (parseJoinChain P r) (parseJoinChain Q r)"
  unfolding parseJoinChain_def by (rule below_intros methods)+

lemma below_parseTableRef [below_intros]: "below (parseTableRef P) (parseTableRef Q)"
  unfolding parseTableRef_def by (rule below_intros methods)+

lemma below_tableRefs [below_intros]: "below (tableRefs P) (tableRefs Q)"
  unfolding tableRefs_def by (rule below_intros methods)+

lemma below_parseFrom [below_intros]: "below (parseFrom P) (parseFrom Q)"
  unfolding parseFrom_def by (rule below_intros methods)+

lemma below_sortKey [below_intros]: "below (sortKey P) (sortKey Q)"
  unfolding sortKey_def by (rule below_intros methods)+

lemma below_parseOrderBy [below_intros]: "below (parseOrderBy P) (parseOrderBy Q)"
  unfolding parseOrderBy_def by (rule below_intros methods)+

lemma below_limitClause [below_intros]: "below (limitClause P) (limitClause Q)"
  unfolding limitClause_def by (rule below_intros methods)+

lemma below_setOpTail [below_intros]: "below (setOpTail P) (setOpTail Q)"
  unfolding setOpTail_def by (rule below_intros methods)+

lemma below_parseSelect [below_intros]: "below (parseSelect P) (parseSelect Q)"
  unfolding parseSelect_def by (rule below_intros methods)+

lemma below_columnNames [below_intros]: "below (columnNames P) (columnNames Q)"
  unfolding columnNames_def by (rule below_intros methods)+

lemma below_valuesRow [below_intros]: "below (valuesRow P) (valuesRow Q)"
  unfolding valuesRow_def by (rule below_intros methods)+

lemma below_valuesRows [below_intros]: "below (valuesRows P) (valuesRows Q)"
  unfolding valuesRows_def by (rule below_intros methods)+

lemma below_parseInsert [below_intros]: "below (parseInsert P) (parseInsert Q)"
  unfolding parseInsert_def by (rule below_intros methods)+

lemma below_assignment [below_intros]: "below (assignment P) (assignment Q)"
  unfolding assignment_def by (rule below_intros methods)+

lemma below_assignments [below_intros]: "below (assignments P) (assignments Q)"
  unfolding assignments_def by (rule below_intros methods)+

lemma below_parseUpdate [below_intros]: "below (parseUpdate P) (parseUpdate Q)"
  unfolding parseUpdate_def by (rule below_intros methods)+

lemma below_parseDelete [below_intros]: "below (parseDelete P) (parseDelete Q)"
  unfolding parseDelete_def by (rule below_intros methods)+

lemma below_constraintLoop [below_intros]: "below (constraintLoop P) (constraintLoop Q)"
  unfolding constraintLoop_def by (rule below_intros methods)+

lemma below_columnSpec [below_intros]: "below (columnSpec P) (columnSpec Q)"
  unfolding columnSpec_def by (rule below_intros methods)+

lemma below_columnSpecs [below_intros]: "below (columnSpecs P) (columnSpecs Q)"
  unfolding columnSpecs_def by (rule below_intros methods)+

lemma below_parseCreateTable [below_intros]: "below (parseCreateTable P) (parseCreateTable Q)"
  unfolding parseCreateTable_def by (rule below_intros methods)+

lemma below_statementBody [below_intros]: "below (statementBody P) (statementBody Q)"
proof -
  have "below (pbind (p_select P) (\<lambda>s. pret (StmtSelect s))) (pbind (p_select Q) (\<lambda>s. pret (StmtSelect s)))"
    by (rule below_intros methods)+
  then show ?thesis
    using below_parseInsert below_parseUpdate below_parseDelete below_parseCreateTable
    by (auto simp: below_def statementBody_def Let_def)
qed

lemma one_deeper: "parsers_below (deeper P) (deeper Q)"
  by unfold_locales (simp only: deeper_def parsers.simps, rule below_intros)+

end

lemma below_depth: "parsers_below (parsers_at n) (parsers_at (n + k))"
proof (induction n)
  case 0
  show ?case by unfold_locales (simp add: no_parsers_def below_out)+
next
  case (Suc n)
  then show ?case by (simp add: parsers_below.one_deeper)
qed

interpretation deeper: parsers_below "parsers_at n" "parsers_at (n + k)" for n k
  by (rule below_depth)

lemma parse_deeper:
  assumes "wf_tokens ts" "parse_depth ts \<le> fuel"
  shows "parseStatement fuel ts = parseStatement (parse_depth ts) ts"
proof -
  let ?n = "parse_depth ts"
  let ?q = "\<lambda>m. pbind (statementBody (parsers_at m)) (\<lambda>s. pbind (tok_match (Punct SEMICOLON)) (\<lambda>_.
         pif at_end (pret s) (parse_error ''unexpected trailing tokens after statement'')))"
  have "below (?q ?n) (?q (?n + (fuel - ?n)))"
    by (rule below_intros deeper.below_statementBody)+
  then have "?q ?n ts = Inl OutOfFuel \<or> ?q ?n ts = ?q fuel ts"
    using assms(2) by (simp add: below_def)
  moreover have "parseStatement ?n ts \<noteq> Inl OutOfFuel"
    using runs_parseStatement [OF assms(1) order_refl] by (auto simp: is_exception_def)
  ultimately show ?thesis
    by (auto simp: parseStatement_def)
qed

subsection \<open>The whole parser\<close>

text \<open>The parser, with the depth of calls that its tokens may need.\<close>

definition parse_tokens :: "token list \<Rightarrow> stmt res" where
  "parse_tokens ts = parseStatement (parse_depth ts) ts"

lemma parse_tokens_error: "wf_tokens ts \<Longrightarrow> parse_tokens ts = Inl e \<Longrightarrow> is_exception e"
  unfolding parse_tokens_def by (rule runs_parseStatement [OF _ order_refl])

text \<open>
  C30: the parser terminates on the tokens of every text: with a depth of calls of four times the
  number of tokens and one more it returns a statement or throws an exception, without undefined
  behaviour, and no larger depth changes its outcome.
\<close>

theorem parser_terminates:
  assumes "parse_depth (lr_tokens (tokenize s)) \<le> fuel"
  shows "parseStatement fuel (lr_tokens (tokenize s)) = parse_tokens (lr_tokens (tokenize s))
    \<and> (\<forall>e. parse_tokens (lr_tokens (tokenize s)) = Inl e \<longrightarrow> is_exception e)"
  using parse_deeper [OF wf_tokenize assms] parse_tokens_error [OF wf_tokenize]
  by (simp add: parse_tokens_def)

theorem parser_terminates_witness:
  "parseStatement 40 (lr_tokens (tokenize ''SELECT ((1)'')) = parse_tokens (lr_tokens (tokenize ''SELECT ((1)''))
    \<and> (case parse_tokens (lr_tokens (tokenize ''SELECT ((1)'')) of Inl e \<Rightarrow> is_exception e | Inr s \<Rightarrow> True)"
proof -
  have "parse_depth (lr_tokens (tokenize ''SELECT ((1)'')) \<le> 40" by code_simp
  from parser_terminates [OF this] show ?thesis by (simp split: sum.split)
qed

end
