(* ===== verification/LQ_Persist.thy ===== *)
theory LQ_Persist
  imports LQ_Catalog
begin

section \<open>Saving and loading a database\<close>

text \<open>
  Model of \<open>src/storage/persistence.cpp\<close>. A file is the list of its bytes. A writer is a function
  to bytes, a reader a function from the bytes that are left to a value and the bytes left after
  it. Whether a file can be opened and written is an argument of the model; allocations succeed.
  \<open>loadDatabase\<close> registers table after table and may throw in between, so that the model returns
  the catalog as it is left behind with the outcome.
  Lemmas: writer and reader of every part meet the contract of a codec (locale \<open>codec\<close>: a
  reader returns what was written and leaves the rest, and reads no further), from which follow
  the round trip of a whole database and the refusal of every truncated file.
\<close>

unbundle bit_operations_syntax

subsection \<open>Writers\<close>

definition le_byte :: "nat \<Rightarrow> 'a::len word \<Rightarrow> char" where
  "le_byte i v = char_of (unat (take_bit 8 (drop_bit (8 * i) v)))"

definition write_u32 :: "32 word \<Rightarrow> string" where
  "write_u32 v = map (\<lambda>i. le_byte i v) [0..<4]"

definition write_u64 :: "64 word \<Rightarrow> string" where
  "write_u64 v = map (\<lambda>i. le_byte i v) [0..<8]"

definition write_size :: "nat \<Rightarrow> string" where
  "write_size n = write_u64 (word_of_nat n)"

definition write_f64 :: "f64 \<Rightarrow> string" where
  "write_f64 d = write_u64 (f64_bits d)"

definition write_str :: "string \<Rightarrow> string" where
  "write_str s = write_size (length s) @ s"

definition byte_char :: "8 word \<Rightarrow> char" where
  "byte_char w = char_of (unat w)"

definition write_dataType :: "data_type \<Rightarrow> string" where
  "write_dataType t =
     write_u32 (word_of_nat (type_id_code (dt_id t)))
     @ [if nullable t then CHR 0x01 else CHR 0x00] @ [byte_char (scale t)] @ [byte_char (precision t)]
     @ write_u32 (maxLength t)"

definition write_column_def :: "column_def \<Rightarrow> string" where
  "write_column_def c = write_str (cd_name c) @ write_dataType (cd_type c)"

definition write_column :: "column \<Rightarrow> string" where
  "write_column c =
     write_size (length (bm_words (c_valid c))) @ concat (map write_u64 (bm_words (c_valid c)))
     @ (case c_kind c of
          KInt64 \<Rightarrow> concat (map write_u64 (c_i64 c))
        | KDouble \<Rightarrow> concat (map write_f64 (c_f64 c))
        | KString \<Rightarrow> concat (map write_str (c_str c)))"

definition write_table :: "table \<Rightarrow> string" where
  "write_table t =
     write_str (t_name t) @ write_size (length (t_schema t)) @ concat (map write_column_def (t_schema t))
     @ write_size (rowCount t) @ concat (map write_column (t_cols t))"

definition kMagic :: string where
  "kMagic = ''LQDB''"

definition kPersistenceVersion :: "32 word" where
  "kPersistenceVersion = 1"

definition saved_bytes :: "catalog \<Rightarrow> string res" where
  "saved_bytes c =
     rmap (\<lambda>ts. kMagic @ write_u32 kPersistenceVersion @ write_size (length (tableNames c))
               @ concat (map write_table ts))
       (rmapM (getTable c) (tableNames c))"

text \<open>\<open>opens\<close> and \<open>written\<close> are the states of the stream after opening it and after the last write.\<close>

definition saveDatabase :: "bool \<Rightarrow> bool \<Rightarrow> catalog \<Rightarrow> string \<Rightarrow> string res" where
  "saveDatabase opens written c path =
     (if \<not> opens then Inl (PersistenceError (''cannot open file for writing: '' @ path))
      else rbind (saved_bytes c) (\<lambda>bs.
        if \<not> written then Inl (PersistenceError (''error while writing: '' @ path)) else Inr bs))"

subsection \<open>Readers\<close>

type_synonym 'a reader = "string \<Rightarrow> ('a \<times> string) res"

definition read_bytes :: "nat \<Rightarrow> string reader" where
  "read_bytes n s =
     (if length s < n then Inl (PersistenceError ''unexpected end of file'') else Inr (take n s, drop n s))"

definition le_word :: "string \<Rightarrow> 'a::len word" where
  "le_word bs = fold (\<lambda>i v. v OR push_bit (8 * i) (word_of_nat (of_char (bs ! i)))) [0..<length bs] 0"

definition read_u32 :: "32 word reader" where
  "read_u32 s = rmap (\<lambda>(bs, r). (le_word bs, r)) (read_bytes 4 s)"

definition read_u64 :: "64 word reader" where
  "read_u64 s = rmap (\<lambda>(bs, r). (le_word bs, r)) (read_bytes 8 s)"

definition read_size :: "nat reader" where
  "read_size s = rmap (\<lambda>(w, r). (unat w, r)) (read_u64 s)"

definition read_f64 :: "f64 reader" where
  "read_f64 s = rmap (\<lambda>(w, r). (F64 w, r)) (read_u64 s)"

definition read_str :: "string reader" where
  "read_str s = rbind (read_size s) (\<lambda>(n, r). read_bytes n r)"

text \<open>\<open>is.get(c)\<close>: at the end of the file \<open>c\<close> keeps its value 0 and the stream fails.\<close>

definition stream_get :: "string \<Rightarrow> char \<times> string \<times> bool" where
  "stream_get s = (case s of [] \<Rightarrow> (CHR 0x00, [], False) | c # r \<Rightarrow> (c, r, True))"

definition read_dataType :: "data_type reader" where
  "read_dataType s =
     rbind (read_u32 s) (\<lambda>(i, s0).
       case stream_get s0 of (nb, s1, ok1) \<Rightarrow>
       case stream_get s1 of (sc, s2, ok2) \<Rightarrow>
       case stream_get s2 of (pr, s3, ok3) \<Rightarrow>
       rbind (read_u32 s3) (\<lambda>(m, s4).
         if ok1 \<and> ok2 \<and> ok3
         then Inr (\<lparr>dt_id = type_id_of (ucast i), nullable = (nb \<noteq> CHR 0x00),
                    scale = word_of_nat (of_char sc), precision = word_of_nat (of_char pr),
                    maxLength = m\<rparr>, s4)
         else Inl (PersistenceError ''truncated DataType'')))"

definition read_column_def :: "column_def reader" where
  "read_column_def s =
     rbind (read_str s) (\<lambda>(n, r). rmap (\<lambda>(t, r'). (\<lparr>cd_name = n, cd_type = t\<rparr>, r')) (read_dataType r))"

text \<open>A counted loop of reads.\<close>

fun read_many :: "'a reader \<Rightarrow> nat \<Rightarrow> 'a list reader" where
  "read_many rd 0 s = Inr ([], s)"
| "read_many rd (Suc n) s =
     rbind (rd s) (\<lambda>(x, r). rmap (\<lambda>(xs, r'). (x # xs, r')) (read_many rd n r))"

text \<open>One column of \<open>rows\<close> rows into the new column \<open>c\<close>.\<close>

definition read_column :: "nat \<Rightarrow> column \<Rightarrow> column reader" where
  "read_column rows c s =
     rbind (read_size s) (\<lambda>(wn, s1).
     rbind (read_many read_u64 wn s1) (\<lambda>(valid, s2).
       case c_kind c of
         KInt64 \<Rightarrow> rbind (read_many read_u64 rows s2) (\<lambda>(data, s3).
           rmap (\<lambda>c'. (c', s3)) (column_restoreInt64 c data valid rows))
       | KDouble \<Rightarrow> rbind (read_many read_f64 rows s2) (\<lambda>(data, s3).
           rmap (\<lambda>c'. (c', s3)) (column_restoreDouble c data valid rows))
       | KString \<Rightarrow> rbind (read_many read_str rows s2) (\<lambda>(data, s3).
           rmap (\<lambda>c'. (c', s3)) (column_restoreString c data valid rows))))"

fun read_columns :: "nat \<Rightarrow> column list \<Rightarrow> column list reader" where
  "read_columns rows [] s = Inr ([], s)"
| "read_columns rows (c # cs) s =
     rbind (read_column rows c s) (\<lambda>(c', r). rmap (\<lambda>(cs', r'). (c' # cs', r')) (read_columns rows cs r))"

definition read_table :: "table reader" where
  "read_table s =
     rbind (read_str s) (\<lambda>(n, s1).
     rbind (read_size s1) (\<lambda>(ncol, s2).
     rbind (read_many read_column_def ncol s2) (\<lambda>(defs, s3).
     rbind (read_size s3) (\<lambda>(rows, s4).
       let t = table_new n (fold (\<lambda>d sch. addColumn sch (cd_name d) (cd_type d)) defs [])
       in rmap (\<lambda>(cs, s5). (t\<lparr>t_cols := cs\<rparr>, s5)) (read_columns rows (t_cols t) s4)))))"

text \<open>The header: magic, version and number of tables.\<close>

definition read_header :: "string \<Rightarrow> nat reader" where
  "read_header path s =
     rbind (read_bytes 4 s) (\<lambda>(m, s1).
       if m \<noteq> kMagic
       then Inl (PersistenceError (''not a LiteQuery database file (bad magic): '' @ path))
       else rbind (read_u32 s1) (\<lambda>(v, s2).
         if kPersistenceVersion < v
         then Inl (PersistenceError (''database file version '' @ nat_string (unat v)
                @ '' is newer than this build supports ('' @ nat_string (unat kPersistenceVersion) @ '')''))
         else read_size s2))"

fun load_tables :: "nat \<Rightarrow> catalog \<Rightarrow> string \<Rightarrow> catalog \<times> unit res" where
  "load_tables 0 c s = (c, Inr ())"
| "load_tables (Suc n) c s =
     (case read_table s of
        Inl e \<Rightarrow> (c, Inl e)
      | Inr (t, r) \<Rightarrow> load_tables n (registerTable c t) r)"

text \<open>\<open>file\<close> is the contents, if the file can be opened.\<close>

definition loadDatabase :: "catalog \<Rightarrow> string \<Rightarrow> string option \<Rightarrow> catalog \<times> unit res" where
  "loadDatabase c path file =
     (case file of
        None \<Rightarrow> (c, Inl (PersistenceError (''cannot open file for reading: '' @ path)))
      | Some s \<Rightarrow> (case read_header path s of
            Inl e \<Rightarrow> (c, Inl e)
          | Inr (n, r) \<Rightarrow> load_tables n c r))"


subsection \<open>The contract of a codec\<close>

text \<open>
  A reader is \<open>sequential\<close> if on a prefix of a text that it accepts it either returns the same or
  runs into the end of the file.
\<close>

abbreviation eof :: error where
  "eof \<equiv> PersistenceError ''unexpected end of file''"

definition sequential :: "'a reader \<Rightarrow> bool" where
  "sequential rd = (\<forall>s t y r. rd (s @ t) = Inr (y, r) \<longrightarrow>
     (\<exists>r'. rd s = Inr (y, r') \<and> r = r' @ t) \<or> rd s = Inl eof)"

named_theorems reader_intros \<open>sequential readers\<close>

lemma sequentialE:
  assumes "sequential rd" "rd (s @ t) = Inr (y, r)"
  obtains (same) r' where "rd s = Inr (y, r')" "r = r' @ t" | (short) "rd s = Inl eof"
  using assms unfolding sequential_def by blast

lemma sequential_bytes [reader_intros]: "sequential (read_bytes n)"
  by (auto simp: sequential_def read_bytes_def split: if_splits)

lemma sequential_pure [reader_intros]: "sequential (\<lambda>s. Inr (x, s))"
  by (simp add: sequential_def)

lemma sequential_fail [reader_intros]: "sequential (\<lambda>s. Inl e)"
  by (simp add: sequential_def)

lemma sequential_bind [reader_intros]:
  assumes "sequential rd" "\<And>x. sequential (f x)"
  shows "sequential (\<lambda>s. rbind (rd s) (\<lambda>(x, r). f x r))"
  unfolding sequential_def
proof (intro allI impI)
  fix s t y r
  assume "rbind (rd (s @ t)) (\<lambda>(x, r). f x r) = Inr (y, r)"
  then obtain x r1 where x: "rd (s @ t) = Inr (x, r1)" "f x r1 = Inr (y, r)" by (auto simp: rbind_eq_Inr)
  from assms(1) x(1) show "(\<exists>r'. rbind (rd s) (\<lambda>(x, r). f x r) = Inr (y, r') \<and> r = r' @ t)
      \<or> rbind (rd s) (\<lambda>(x, r). f x r) = Inl eof"
  proof (cases rule: sequentialE)
    case (same r1')
    from assms(2) x(2) [unfolded same(2)] show ?thesis
      by (cases rule: sequentialE) (simp_all add: same(1))
  qed simp
qed

lemma sequential_map [reader_intros]:
  assumes "sequential rd"
  shows "sequential (\<lambda>s. rmap (\<lambda>(x, r). (f x, r)) (rd s))"
  using assms unfolding sequential_def by (fastforce simp: rmap_eq_Inr rmap_eq_Inl)

lemma sequential_res [reader_intros]: "sequential (\<lambda>s. rmap (\<lambda>x. (x, s)) m)"
  by (auto simp: sequential_def rmap_eq_Inr)

lemma sequential_if [reader_intros]:
  "sequential a \<Longrightarrow> sequential b \<Longrightarrow> sequential (\<lambda>s. if P then a s else b s)"
  by (simp add: sequential_def)

lemma sequential_many [reader_intros]: "sequential rd \<Longrightarrow> sequential (read_many rd n)"
proof (induction n)
  case (Suc n)
  then show ?case unfolding read_many.simps [abs_def] by (intro reader_intros)
qed (simp add: sequential_def)

text \<open>\<open>wr\<close> and \<open>rd\<close> belong together on the values that satisfy \<open>ok\<close>.\<close>

locale codec =
  fixes wr :: "'a \<Rightarrow> string" and rd :: "string \<Rightarrow> ('a \<times> string) res" and ok :: "'a \<Rightarrow> bool"
  assumes rd_wr: "ok x \<Longrightarrow> rd (wr x @ r) = Inr (x, r)"
    and rd_sequential: "sequential rd"
begin

lemma rd_wr_end: "ok x \<Longrightarrow> rd (wr x) = Inr (x, [])"
  using rd_wr [of x "[]"] by simp

lemma truncated:
  assumes "ok x" "wr x = p @ t" "t \<noteq> []"
  shows "rd p = Inl eof"
proof -
  have "rd (p @ t) = Inr (x, [])" using rd_wr_end [OF assms(1)] assms(2) by simp
  from rd_sequential this show ?thesis by (cases rule: sequentialE) (use assms(3) in simp_all)
qed

lemma many_wr: "\<forall>x \<in> set xs. ok x \<Longrightarrow> read_many rd (length xs) (concat (map wr xs) @ r) = Inr (xs, r)"
  by (induction xs) (simp_all add: rd_wr)

end

lemma read_bytes_append [simp]: "length bs = n \<Longrightarrow> read_bytes n (bs @ r) = Inr (bs, r)"
  by (auto simp: read_bytes_def)

lemma bit_le_fold:
  "bit (fold (\<lambda>i v. v OR push_bit (8 * i) (f i)) is (a :: 'a::len word)) k
     = (bit a k \<or> (\<exists>i \<in> set is. bit (push_bit (8 * i) (f i)) k))"
  by (induction "is" arbitrary: a) (simp_all add: bit_or_iff disj_assoc)

lemma le_word_bytes:
  fixes v :: "'a::len word"
  assumes "LENGTH('a) = 8 * n"
  shows "le_word (map (\<lambda>i. le_byte i v) [0..<n]) = v"
proof (rule bit_word_eqI)
  fix k assume k: "k < LENGTH('a)"
  have byte: "word_of_nat (of_char (le_byte i v)) = take_bit 8 (drop_bit (8 * i) v)" for i
  proof -
    have "unat (take_bit 8 (drop_bit (8 * i) v)) < 256"
      by (simp add: unsigned_take_bit_eq) (simp add: take_bit_eq_mod)
    then show ?thesis by (simp add: le_byte_def)
  qed
  have "bit (le_word (map (\<lambda>i. le_byte i v) [0..<n]) :: 'a word) k
      = (\<exists>i \<in> set [0..<n]. bit (push_bit (8 * i) (word_of_nat (of_char (map (\<lambda>i. le_byte i v) [0..<n] ! i)) :: 'a word)) k)"
    unfolding le_word_def bit_le_fold by simp
  also have "\<dots> = (\<exists>i < n. bit (push_bit (8 * i) (take_bit 8 (drop_bit (8 * i) v))) k)"
    using byte by auto
  also have "\<dots> = bit v k"
  proof
    assume "\<exists>i < n. bit (push_bit (8 * i) (take_bit 8 (drop_bit (8 * i) v))) k"
    then show "bit v k" using k by (auto simp: bit_push_bit_iff bit_take_bit_iff bit_drop_bit_eq)
  next
    assume "bit v k"
    moreover have "k div 8 < n" using k assms by (simp add: less_mult_imp_div_less mult.commute)
    ultimately show "\<exists>i < n. bit (push_bit (8 * i) (take_bit 8 (drop_bit (8 * i) v))) k"
      using k by (intro exI [of _ "k div 8"]) (auto simp: bit_push_bit_iff bit_take_bit_iff bit_drop_bit_eq)
  qed
  finally show "bit (le_word (map (\<lambda>i. le_byte i v) [0..<n]) :: 'a word) k = bit v k" .
qed

interpretation u32: codec write_u32 read_u32 "\<lambda>_. True"
proof unfold_locales
  show "read_u32 (write_u32 x @ r) = Inr (x, r)" for x r
    by (simp add: read_u32_def write_u32_def le_word_bytes)
  show "sequential read_u32" unfolding read_u32_def [abs_def] by (intro reader_intros)
qed

interpretation u64: codec write_u64 read_u64 "\<lambda>_. True"
proof unfold_locales
  show "read_u64 (write_u64 x @ r) = Inr (x, r)" for x r
    by (simp add: read_u64_def write_u64_def le_word_bytes)
  show "sequential read_u64" unfolding read_u64_def [abs_def] by (intro reader_intros)
qed

interpretation size: codec write_size read_size "\<lambda>n. n < 2 ^ 64"
proof unfold_locales
  show "n < 2 ^ 64 \<Longrightarrow> read_size (write_size n @ r) = Inr (n, r)" for n r
    by (simp add: read_size_def write_size_def u64.rd_wr unsigned_of_nat take_bit_nat_eq_self)
  show "sequential read_size" unfolding read_size_def [abs_def] by (intro reader_intros u64.rd_sequential)
qed

interpretation dbl: codec write_f64 read_f64 "\<lambda>_. True"
proof unfold_locales
  show "read_f64 (write_f64 x @ r) = Inr (x, r)" for x r
    by (simp add: read_f64_def write_f64_def u64.rd_wr)
  show "sequential read_f64" unfolding read_f64_def [abs_def] by (intro reader_intros u64.rd_sequential)
qed

interpretation str: codec write_str read_str "\<lambda>s. length s < 2 ^ 64"
proof unfold_locales
  show "length x < 2 ^ 64 \<Longrightarrow> read_str (write_str x @ r) = Inr (x, r)" for x r
    by (simp add: read_str_def write_str_def size.rd_wr)
  show "sequential read_str" unfolding read_str_def [abs_def] by (intro reader_intros size.rd_sequential)
qed


text \<open>The type codes that \<open>static_cast<TypeId>\<close> brings back: every named type, and other codes.\<close>

definition storable_type :: "data_type \<Rightarrow> bool" where
  "storable_type t = (case dt_id t of TypeIdOther w \<Rightarrow> 14 \<le> unat w | _ \<Rightarrow> True)"

lemma type_id_of_code: "storable_type t \<Longrightarrow> type_id_of (word_of_nat (type_id_code (dt_id t))) = dt_id t"
  by (cases "dt_id t") (auto simp: storable_type_def type_id_of_def)

lemma ucast_code [simp]:
  "ucast (word_of_nat (type_id_code i) :: 32 word) = (word_of_nat (type_id_code i) :: 8 word)"
  by (rule bit_word_eqI) (auto simp: bit_unsigned_iff bit_of_nat_iff)

lemma byte_char_inverse [simp]: "word_of_nat (of_char (byte_char w)) = w"
proof -
  have "unat w < 2 ^ LENGTH(8)" by (rule unsigned_less)
  then show ?thesis by (simp add: byte_char_def)
qed

lemma read_dataType_alt:
  "read_dataType s = rbind (read_u32 s) (\<lambda>(i, s0). case s0 of
      nb # sc # pr # s3 \<Rightarrow> rmap (\<lambda>(m, s4). (\<lparr>dt_id = type_id_of (ucast i), nullable = (nb \<noteq> CHR 0x00),
         scale = word_of_nat (of_char sc), precision = word_of_nat (of_char pr), maxLength = m\<rparr>, s4)) (read_u32 s3)
    | _ \<Rightarrow> Inl (PersistenceError ''unexpected end of file''))"
proof (cases "read_u32 s")
  case (Inr is0)
  obtain i s0 where is0: "is0 = (i, s0)" by (cases is0)
  have short: "read_u32 [] = Inl (PersistenceError ''unexpected end of file'')"
    by (simp add: read_u32_def read_bytes_def)
  consider "s0 = []" | a where "s0 = [a]" | a b where "s0 = [a, b]" | a b c u where "s0 = a # b # c # u"
    by (metis list.exhaust)
  then show ?thesis
    by cases (simp_all add: read_dataType_def Inr is0 stream_get_def short rmap_def case_prod_unfold)
qed (simp add: read_dataType_def)

interpretation dataType: codec write_dataType read_dataType storable_type
proof unfold_locales
  fix x r
  assume x: "storable_type x"
  have nul: "(if nullable x then CHR 0x01 else CHR 0x00) \<noteq> CHR 0x00 \<longleftrightarrow> nullable x" by simp
  show "read_dataType (write_dataType x @ r) = Inr (x, r)"
    unfolding read_dataType_def write_dataType_def append_assoc u32.rd_wr [OF TrueI]
    by (simp add: stream_get_def u32.rd_wr type_id_of_code [OF x])
next
  show "sequential read_dataType"
    unfolding sequential_def
  proof (intro allI impI)
    fix s t y r
    assume "read_dataType (s @ t) = Inr (y, r)"
    then obtain i s0 where i: "read_u32 (s @ t) = Inr (i, s0)" by (auto simp: read_dataType_alt rbind_eq_Inr)
    from u32.rd_sequential i show "(\<exists>r'. read_dataType s = Inr (y, r') \<and> r = r' @ t) \<or> read_dataType s = Inl eof"
    proof (cases rule: sequentialE)
      case (same s1)
      consider "s1 = []" | a where "s1 = [a]" | a b where "s1 = [a, b]" | a b c u where "s1 = a # b # c # u"
        by (metis list.exhaust)
      then show ?thesis
      proof cases
        case 4
        with i same \<open>read_dataType (s @ t) = Inr (y, r)\<close> obtain m where m: "read_u32 (u @ t) = Inr (m, r)"
          by (auto simp: read_dataType_alt rmap_eq_Inr)
        from u32.rd_sequential m show ?thesis
          by (cases rule: sequentialE)
            (use i same 4 m \<open>read_dataType (s @ t) = Inr (y, r)\<close> in \<open>auto simp: read_dataType_alt rmap_eq_Inr\<close>)
      qed (simp_all add: read_dataType_alt same(1))
    qed (simp add: read_dataType_alt)
  qed
qed

text \<open>The error message for a truncated type is never produced: the next read fails first.\<close>

lemma truncated_DataType_unreachable:
  "read_dataType s \<noteq> Inl (PersistenceError ''truncated DataType'')"
proof -
  have "read_u32 s = Inl e \<Longrightarrow> e = PersistenceError ''unexpected end of file''" for s e
    by (auto simp: read_u32_def read_bytes_def rmap_eq_Inl split: if_splits)
  then show ?thesis
    by (auto simp: read_dataType_alt rbind_eq_Inl rmap_eq_Inl split: list.splits)
qed

definition storable_def :: "column_def \<Rightarrow> bool" where
  "storable_def d = (length (cd_name d) < 2 ^ 64 \<and> storable_type (cd_type d))"

interpretation def: codec write_column_def read_column_def storable_def
proof unfold_locales
  show "storable_def d \<Longrightarrow> read_column_def (write_column_def d @ r) = Inr (d, r)" for d r
    by (simp add: read_column_def_def write_column_def_def storable_def_def str.rd_wr dataType.rd_wr)
  show "sequential read_column_def"
    unfolding read_column_def_def [abs_def] by (intro reader_intros str.rd_sequential dataType.rd_sequential)
qed

text \<open>A column that is loaded into a new column of its own type.\<close>

definition storable_column :: "data_type \<Rightarrow> nat \<Rightarrow> column \<Rightarrow> bool" where
  "storable_column ty rows c =
     (wf_column c \<and> c_type c = ty \<and> column_size c = rows \<and> length (bm_words (c_valid c)) < 2 ^ 64
      \<and> (\<forall>s \<in> set (c_str c). length s < 2 ^ 64))"

interpretation column: codec write_column "read_column rows (column_new ty)" "storable_column ty rows" for rows ty
proof unfold_locales
  fix c r
  assume c: "storable_column ty rows c"
  then have wf: "wf_bitmap (c_valid c)" "bm_count (c_valid c) = rows" "c_kind c = kindOf (dt_id ty)"
      "length (c_i64 c) = (if c_kind c = KInt64 then rows else 0)"
      "length (c_f64 c) = (if c_kind c = KDouble then rows else 0)"
      "length (c_str c) = (if c_kind c = KString then rows else 0)"
    by (auto simp: storable_column_def wf_column_def column_size_def)
  have bits: "bitmap_assignRaw (bm_words (c_valid c)) rows = Inr (c_valid c)"
    using bitmap_assignRaw_inverse [OF wf(1)] wf(2) by simp
  have words: "length (bm_words (c_valid c)) < 2 ^ 64" using c by (simp add: storable_column_def)
  show "read_column rows (column_new ty) (write_column c @ r) = Inr (c, r)"
  proof (cases "c_kind c")
    case KInt64
    with wf c u64.many_wr [of "c_i64 c" r] show ?thesis
      unfolding read_column_def write_column_def
      by (simp add: size.rd_wr [OF words] u64.many_wr column_restoreInt64_def bits column_new_def
        storable_column_def)
  next
    case KDouble
    with wf c dbl.many_wr [of "c_f64 c" r] show ?thesis
      unfolding read_column_def write_column_def
      by (simp add: size.rd_wr [OF words] u64.many_wr column_restoreDouble_def bits column_new_def
        storable_column_def)
  next
    case KString
    with wf c str.many_wr [of "c_str c" r] show ?thesis
      unfolding read_column_def write_column_def
      by (simp add: size.rd_wr [OF words] u64.many_wr column_restoreString_def bits column_new_def
        storable_column_def)
  qed
next
  show "sequential (read_column rows (column_new ty))"
    unfolding read_column_def [abs_def]
    by (cases "c_kind (column_new ty)"; simp only: kind.case)
      (intro reader_intros size.rd_sequential u64.rd_sequential dbl.rd_sequential str.rd_sequential)+
qed


lemma sequential_columns [reader_intros]:
  "sequential (read_columns rows (map (\<lambda>d. column_new (cd_type d)) ds))"
proof (induction ds)
  case (Cons d ds)
  then show ?case
    unfolding list.map read_columns.simps [abs_def] by (intro reader_intros column.rd_sequential)
qed (simp add: sequential_def)

lemma read_columns_wr:
  "\<forall>c \<in> set cs. storable_column (c_type c) rows c \<Longrightarrow> map c_type cs = map cd_type ds \<Longrightarrow>
   read_columns rows (map (\<lambda>d. column_new (cd_type d)) ds) (concat (map write_column cs) @ r) = Inr (cs, r)"
proof (induction cs ds rule: list_induct2')
  case (4 c cs d ds)
  have "storable_column (cd_type d) rows c" using 4 by simp
  from column.rd_wr [OF this] 4 show ?case by simp
qed auto

text \<open>Every length fits its 64-bit field, and every type code is one that is read back.\<close>

definition storable_table :: "table \<Rightarrow> bool" where
  "storable_table t =
     (wf_table t \<and> length (t_name t) < 2 ^ 64 \<and> length (t_schema t) < 2 ^ 64 \<and> rowCount t < 2 ^ 64
      \<and> (\<forall>d \<in> set (t_schema t). storable_def d) \<and> (\<forall>c \<in> set (t_cols t). \<forall>s \<in> set (c_str c). length s < 2 ^ 64))"

interpretation tbl_file: codec write_table read_table storable_table
proof unfold_locales
  fix t r
  assume t: "storable_table t"
  then have wf: "wf_table t" "length (t_name t) < 2 ^ 64" "length (t_schema t) < 2 ^ 64" "rowCount t < 2 ^ 64"
      "\<forall>d \<in> set (t_schema t). storable_def d"
    by (auto simp: storable_table_def)
  have "(rowCount t + 63) div 64 < 2 ^ 64" using wf(4) by simp
  then have cols: "\<forall>c \<in> set (t_cols t). storable_column (c_type c) (rowCount t) c"
    using t by (auto simp: storable_table_def storable_column_def wf_table_def wf_column_def wf_bitmap_def column_size_def)
  have types: "map c_type (t_cols t) = map cd_type (t_schema t)" using wf(1) by (simp add: wf_table_def)
  show "read_table (write_table t @ r) = Inr (t, r)"
    unfolding read_table_def write_table_def
    by (simp add: str.rd_wr [OF wf(2)] size.rd_wr [OF wf(3)] size.rd_wr [OF wf(4)] def.many_wr [OF wf(5)] fold_addColumn table_new_def
      read_columns_wr [OF cols types])
next
  show "sequential read_table"
    unfolding read_table_def [abs_def] Let_def table_new_def table.simps fold_addColumn column_def_eta list.map_ident append_Nil
    by (intro reader_intros str.rd_sequential size.rd_sequential def.rd_sequential)
qed


lemma load_tables_wr:
  "\<forall>t \<in> set ts. storable_table t \<Longrightarrow>
   load_tables (length ts) c (concat (map write_table ts) @ r) = (fold (\<lambda>t c. registerTable c t) ts c, Inr ())"
  by (induction ts arbitrary: c) (simp_all add: tbl_file.rd_wr)

lemma register_get:
  "distinct (map t_name ts) \<Longrightarrow>
   cat_get (fold (\<lambda>t c. registerTable c t) ts c) = cat_get c ++ map_of (map (\<lambda>t. (t_name t, t)) ts)"
proof -
  assume d: "distinct (map t_name ts)"
  have "fold (\<lambda>t c. registerTable c t) ts c = fold (\<lambda>(k, v). cat_put k v) (map (\<lambda>t. (t_name t, t)) ts) c"
    by (induction ts arbitrary: c) (simp_all add: registerTable_def)
  with cat.get_puts_distinct [of "map (\<lambda>t. (t_name t, t)) ts" c] d show ?thesis by (simp add: o_def)
qed

lemma header_wr:
  "n < 2 ^ 64 \<Longrightarrow> read_header path (kMagic @ write_u32 kPersistenceVersion @ write_size n @ r) = Inr (n, r)"
  unfolding read_header_def
  by (simp add: kMagic_def u32.rd_wr size.rd_wr read_bytes_def)

lemma sequential_header: "sequential (read_header path)"
  unfolding read_header_def [abs_def] by (intro reader_intros u32.rd_sequential size.rd_sequential)

definition storable :: "catalog \<Rightarrow> bool" where
  "storable c = (wf_catalog c \<and> length (tables c) < 2 ^ 64 \<and> (\<forall>(n, t) \<in> set (tables c). storable_table t))"

lemma saved_tables:
  assumes "wf_catalog c"
  shows "rmapM (getTable c) (tableNames c) = Inr (map snd (tables c))"
    and "map (\<lambda>t. (t_name t, t)) (map snd (tables c)) = tables c"
    and "map t_name (map snd (tables c)) = map fst (tables c)"
proof -
  have d: "distinct (map fst (tables c))" using assms by (simp add: wf_catalog_def distinct_names_def)
  have get: "cat_get c n = Some t" if "(n, t) \<in> set (tables c)" for n t
    using that d by (simp add: cat_get_def)
  have "rmapM (\<lambda>(n, t). getTable c n) (tables c) = Inr (map snd (tables c))"
    by (rule rmapM_Inr_map) (auto simp: get)
  moreover have "rmapM (getTable c) (map fst xs) = rmapM (\<lambda>(n, t). getTable c n) xs"
    for xs :: "(string \<times> table) list"
    by (induction xs) auto
  ultimately show "rmapM (getTable c) (tableNames c) = Inr (map snd (tables c))"
    by (simp add: tableNames_def)
  show "map (\<lambda>t. (t_name t, t)) (map snd (tables c)) = tables c"
    unfolding map_map by (rule map_idI) (use get wf_catalogD(1) [OF assms] in auto)
  show "map t_name (map snd (tables c)) = map fst (tables c)"
    unfolding map_map by (rule map_cong [OF refl]) (use get wf_catalogD(1) [OF assms] in auto)
qed

lemma storable_bytes:
  assumes "storable c"
  shows "saved_bytes c = Inr (kMagic @ write_u32 kPersistenceVersion @ write_size (length (map snd (tables c)))
     @ concat (map write_table (map snd (tables c))))"
  using saved_tables(1) [of c] assms by (simp add: saved_bytes_def storable_def tableNames_def)

lemma saved_file:
  assumes "storable c"
  shows "\<exists>file. saveDatabase True True c path = Inr file
    \<and> (\<forall>c0 path'. loadDatabase c0 path' (Some file) = (fold (\<lambda>t c. registerTable c t) (map snd (tables c)) c0, Inr ()))"
proof -
  let ?ts = "map snd (tables c)"
  have c: "length ?ts < 2 ^ 64" "\<forall>t \<in> set ?ts. storable_table t"
    using assms by (auto simp: storable_def)
  have "loadDatabase c0 path' (Some (kMagic @ write_u32 kPersistenceVersion
      @ write_size (length ?ts) @ concat (map write_table ?ts))) = (fold (\<lambda>t c. registerTable c t) ?ts c0, Inr ())"
    for c0 path'
    unfolding loadDatabase_def using header_wr [OF c(1)] load_tables_wr [OF c(2), of c0 "[]"] by simp
  then show ?thesis unfolding saveDatabase_def storable_bytes [OF assms] by auto
qed

lemma reloaded_get:
  assumes "wf_catalog c"
  shows "cat_get (fold (\<lambda>t c. registerTable c t) (map snd (tables c)) c0) = cat_get c0 ++ cat_get c"
proof -
  have d: "distinct (map t_name (map snd (tables c)))"
    unfolding saved_tables(3) [OF assms] using assms by (simp add: wf_catalog_def distinct_names_def)
  have "cat_get c = map_of (tables c)" by (rule ext) (simp add: cat_get_def)
  with register_get [OF d] saved_tables(2) [OF assms] show ?thesis by simp
qed

text \<open>
  C7: after a database file is loaded into a catalog with no other tables than those that were saved
  (an empty one, or the database itself, changed since), every name has the table that was saved
  under it, unchanged, and no other name has one. A catalog with further tables is left out: the comment
  in \<open>persistence.h\<close> has a load replace them, the code keeps them.
\<close>

theorem save_load_roundtrip:
  assumes "storable c" "dom (cat_get c0) \<subseteq> dom (cat_get c)"
  shows "\<exists>file c'. saveDatabase True True c path = Inr file \<and> loadDatabase c0 path' (Some file) = (c', Inr ())
    \<and> cat_get c' = cat_get c"
proof -
  have "cat_get c0 ++ cat_get c = cat_get c" using assms(2) by (auto simp: map_add_def fun_eq_iff dom_def split: option.splits)
  then show ?thesis using saved_file [OF assms(1), of path] reloaded_get [of c c0] assms(1) by (auto simp: storable_def)
qed

text \<open>A database of one table with a number, a text and a NULL.\<close>

definition demo_file_table :: table where
  "demo_file_table =
     \<lparr>t_name = ''t'', t_schema = [\<lparr>cd_name = ''a'', cd_type = dt_int64 True\<rparr>, \<lparr>cd_name = ''b'', cd_type = dt_varchar (- 1) True\<rparr>],
      t_cols = [\<lparr>c_type = dt_int64 True, c_kind = KInt64, c_i64 = [7, 8], c_f64 = [], c_str = [],
                 c_valid = \<lparr>bm_words = [3], bm_count = 2, bm_anyNull = False\<rparr>\<rparr>,
                \<lparr>c_type = dt_varchar (- 1) True, c_kind = KString, c_i64 = [], c_f64 = [], c_str = [''x'', []],
                 c_valid = \<lparr>bm_words = [1], bm_count = 2, bm_anyNull = True\<rparr>\<rparr>]\<rparr>"

definition demo_db :: catalog where
  "demo_db = \<lparr>tables = [(''t'', demo_file_table)], nextNodeId = 0\<rparr>"

lemma demo_rows_file: "table_rows demo_file_table = [[VI64 7, VStr ''x''], [VI64 8, VNull]]"
  by code_simp

lemma storable_demo_db: "storable demo_db"
proof -
  have masks: "(3 :: 64 word) = mask 2" "(1 :: 64 word) = mask 1" by (simp_all add: mask_eq_exp_minus_1)
  have bits: "wf_bitmap \<lparr>bm_words = [3], bm_count = 2, bm_anyNull = False\<rparr>"
    "wf_bitmap \<lparr>bm_words = [1], bm_count = 2, bm_anyNull = True\<rparr>"
    unfolding masks by (auto simp: wf_bitmap_def bitmap_bits_def upt_rec bit_mask_iff bit_1_iff)
  have "wf_table demo_file_table"
    by (simp add: wf_table_def demo_file_table_def wf_column_def bits column_size_def rowCount_def kindOf_def
        dt_int64_def dt_varchar_def mk_dt_def)
  then show ?thesis
    by (auto simp: storable_def demo_db_def wf_catalog_def distinct_names_def cat_get_def storable_table_def
        storable_def_def storable_type_def demo_file_table_def rowCount_def column_size_def
        dt_int64_def dt_varchar_def mk_dt_def)
qed

text \<open>The table was dropped and created anew since it was saved.\<close>

theorem save_load_roundtrip_witness:
  "\<exists>file c'. saveDatabase True True demo_db ''out.lqdb'' = Inr file
    \<and> loadDatabase \<lparr>tables = [(''t'', table_new ''t'' [])], nextNodeId = 5\<rparr> ''out.lqdb'' (Some file) = (c', Inr ())
    \<and> cat_get c' ''t'' = Some demo_file_table"
proof -
  have "dom (cat_get \<lparr>tables = [(''t'', table_new ''t'' [])], nextNodeId = 5\<rparr>) \<subseteq> dom (cat_get demo_db)"
    by (auto simp: cat_get_def demo_db_def split: if_splits)
  from save_load_roundtrip [OF storable_demo_db this, of "''out.lqdb''" "''out.lqdb''"]
  obtain img c' where "saveDatabase True True demo_db ''out.lqdb'' = Inr img"
      "loadDatabase \<lparr>tables = [(''t'', table_new ''t'' [])], nextNodeId = 5\<rparr> ''out.lqdb'' (Some img) = (c', Inr ())"
      "cat_get c' = cat_get demo_db" by blast
  moreover have "cat_get demo_db ''t'' = Some demo_file_table" by (simp add: cat_get_def demo_db_def)
  ultimately show ?thesis by auto
qed

lemma cut_append:
  assumes "a @ b = p @ u" "u \<noteq> []"
  obtains (here) v where "a = p @ v" "u = v @ b" "v \<noteq> []" | (later) q where "p = a @ q" "b = q @ u"
  using assms by (metis append_Nil2 append_eq_append_conv2)

lemma load_tables_truncated:
  "\<forall>t \<in> set ts. storable_table t \<Longrightarrow> concat (map write_table ts) = p @ u \<Longrightarrow> u \<noteq> [] \<Longrightarrow>
   snd (load_tables (length ts) c p) = Inl eof"
proof (induction ts arbitrary: c p)
  case (Cons t ts)
  from Cons.prems(2) have "write_table t @ concat (map write_table ts) = p @ u" by simp
  then show ?case
  proof (cases rule: cut_append [OF _ Cons.prems(3), consumes 1, case_names here later])
    case (here v)
    with tbl_file.truncated [of t p v] Cons.prems(1) show ?thesis by simp
  next
    case (later q)
    with Cons.IH [OF _ later(2)] Cons.prems show ?thesis by (simp add: tbl_file.rd_wr)
  qed
qed simp

text \<open>C20: loading a file that was cut short anywhere throws, with the message for it.\<close>

theorem load_refuses_truncated:
  assumes "storable c" "saveDatabase True True c path = Inr (p @ u)" "u \<noteq> []"
  shows "snd (loadDatabase c0 path' (Some p)) = Inl (PersistenceError ''unexpected end of file'')"
proof -
  let ?ts = "map snd (tables c)"
  let ?h = "kMagic @ write_u32 kPersistenceVersion @ write_size (length ?ts)"
  have c: "length ?ts < 2 ^ 64" "\<forall>t \<in> set ?ts. storable_table t"
    using assms(1) by (auto simp: storable_def)
  have "?h @ concat (map write_table ?ts) = p @ u"
    using assms(2) unfolding saveDatabase_def storable_bytes [OF assms(1)] by simp
  then show ?thesis
  proof (cases rule: cut_append [OF _ assms(3), consumes 1, case_names here later])
    case (here v)
    from header_wr [OF c(1), of path' "[]"] here(1) have "read_header path' (p @ v) = Inr (length ?ts, [])" by simp
    with sequential_header have "read_header path' p = Inl eof"
      by (cases rule: sequentialE) (use here(3) in simp_all)
    then show ?thesis by (simp add: loadDatabase_def)
  next
    case (later q)
    from header_wr [OF c(1), of path' q] later(1)
    have "loadDatabase c0 path' (Some p) = load_tables (length ?ts) c0 q" by (simp add: loadDatabase_def)
    with load_tables_truncated [OF c(2) later(2) assms(3)] show ?thesis by simp
  qed
qed

theorem load_refuses_truncated_witness:
  "\<exists>p u. saveDatabase True True demo_db ''out.lqdb'' = Inr (p @ u) \<and> length p = 40
    \<and> snd (loadDatabase catalog_new ''out.lqdb'' (Some p)) = Inl (PersistenceError ''unexpected end of file'')"
proof -
  obtain img where f: "saveDatabase True True demo_db ''out.lqdb'' = Inr img"
    unfolding saveDatabase_def storable_bytes [OF storable_demo_db] by simp
  have "rmap (\<lambda>s. 40 < length s) (saveDatabase True True demo_db ''out.lqdb'') = Inr True" by code_simp
  with f have len: "40 < length img" by simp
  have "saveDatabase True True demo_db ''out.lqdb'' = Inr (take 40 img @ drop 40 img)" by (simp add: f)
  from load_refuses_truncated [OF storable_demo_db this, of catalog_new "''out.lqdb''"] this len show ?thesis
    by (intro exI [of _ "take 40 img"] exI [of _ "drop 40 img"]) simp
qed

text \<open>
  A file that does not start with the magic bytes, and one of a newer version, is refused
  with a message of its own, and the catalog is left as it was.
\<close>

lemma load_refuses_foreign_files:
  assumes "length m = 4" "length v = 4"
  shows "if m \<noteq> kMagic
    then loadDatabase c path (Some (m @ v @ r))
      = (c, Inl (PersistenceError (''not a LiteQuery database file (bad magic): '' @ path)))
    else kPersistenceVersion < le_word v \<longrightarrow>
      loadDatabase c path (Some (m @ v @ r))
      = (c, Inl (PersistenceError (''database file version '' @ nat_string (unat (le_word v :: 32 word))
           @ '' is newer than this build supports (1)'')))"
proof -
  have one: "nat_string (unat kPersistenceVersion) = ''1''" by code_simp
  show ?thesis
    using assms by (cases "m = kMagic") (simp_all add: loadDatabase_def read_header_def read_u32_def one)
qed

text \<open>
  Loading is not atomic: the tables before the place where the file breaks off stay registered.
\<close>

lemma load_keeps_earlier_tables:
  "storable_table t \<Longrightarrow> load_tables 2 c (write_table t) = (registerTable c t, Inl eof)"
  using tbl_file.rd_wr [of t "[]"]
  by (simp add: numeral_2_eq_2 read_table_def read_str_def read_size_def read_u64_def read_bytes_def)

end
