(* ===== verification/LQ_Csv.thy ===== *)
theory LQ_Csv
  imports LQ_Table LQ_Decimal
begin

section \<open>Reading and writing CSV\<close>

text \<open>
  Model of \<open>src/storage/csv_reader.cpp\<close> and of the CSV output of \<open>tools/lq_shell.cpp\<close>
  (\<open>csvField\<close>, \<open>printCsv\<close>). The grid parser is one recursion over the characters with the local
  variables of the code as its state. A cell that the inferred type does not parse leaves the
  code's variable uninitialised where the conversion writes nothing (\<open>Undefined\<close>); that can
  only happen when the rows used for inference are limited.
  Lemmas: the parser inverts the writer on every grid; a column gets the type that
  \<open>docs/sql-reference.md\<close> documents, so that its cells convert and reading a rectangular text with
  unlimited inference returns a well-formed table, one row per record, with the values of the record in it.
\<close>

record csv_options =
  delimiter :: char
  hasHeader :: bool
  quote :: char
  inferRows :: nat

definition csv_defaults :: csv_options where
  "csv_defaults = \<lparr>delimiter = CHR '','', hasHeader = True, quote = CHR 0x22, inferRows = 0\<rparr>"

type_synonym grid = "string list list"

subsection \<open>The grid parser\<close>

text \<open>The loop of \<open>parseGrid\<close> over \<open>rows\<close>, \<open>row\<close>, \<open>field\<close>, \<open>inQuotes\<close> and \<open>fieldStarted\<close>.\<close>

fun grid_loop ::
    "csv_options \<Rightarrow> grid \<Rightarrow> string list \<Rightarrow> string \<Rightarrow> bool \<Rightarrow> bool \<Rightarrow> string \<Rightarrow> grid \<times> string list \<times> string \<times> bool"
  where
  "grid_loop opt rows row field inQ st [] = (rows, row, field, st)"
| "grid_loop opt rows row field True st (c # cs) =
     (if c = quote opt then
        (case cs of
           d # ds \<Rightarrow> if d = quote opt then grid_loop opt rows row (field @ [quote opt]) True st ds
                     else grid_loop opt rows row field False st cs
         | [] \<Rightarrow> grid_loop opt rows row field False st cs)
      else grid_loop opt rows row (field @ [c]) True st cs)"
| "grid_loop opt rows row field False st (c # cs) =
     (if c = quote opt then grid_loop opt rows row field True True cs
      else if c = delimiter opt then grid_loop opt rows (row @ [field]) [] False True cs
      else if c = CHR 0x0D then grid_loop opt rows row field False st cs
      else if c = CHR 0x0A then grid_loop opt (rows @ [row @ [field]]) [] [] False False cs
      else grid_loop opt rows row (field @ [c]) False True cs)"

definition skip_bom :: "string \<Rightarrow> string" where
  "skip_bom s = (if take 3 s = [CHR 0xEF, CHR 0xBB, CHR 0xBF] then drop 3 s else s)"

definition drop_trailing :: "grid \<Rightarrow> grid" where
  "drop_trailing rows = rev (dropWhile (\<lambda>r. list_all (\<lambda>f. f = []) r \<and> length r \<le> 1) (rev rows))"

definition parseGrid :: "csv_options \<Rightarrow> string \<Rightarrow> grid" where
  "parseGrid opt s =
     (case grid_loop opt [] [] [] False False (skip_bom s) of (rows, row, field, st) \<Rightarrow>
        drop_trailing (if st \<or> field \<noteq> [] \<or> row \<noteq> [] then rows @ [row @ [field]] else rows))"

subsection \<open>Cells\<close>

definition isBlank :: "string \<Rightarrow> bool" where
  "isBlank s = list_all isspace s"

text \<open>The text between the first and the last character that is no blank or tab.\<close>

definition trimmed :: "string \<Rightarrow> string" where
  "trimmed s = (let b = (\<lambda>c. c = CHR '' '' \<or> c = CHR 0x09) in rev (dropWhile b (rev (dropWhile b s))))"

text \<open>The result of a conversion, and the value it has written to its output, if any.\<close>

definition parsesAsInt :: "string \<Rightarrow> bool \<times> 64 word option" where
  "parsesAsInt s =
     (if trimmed s = [] then (False, None)
      else case from_chars_i64 (trimmed s) of FcOk v r \<Rightarrow> (r = [], Some v) | _ \<Rightarrow> (False, None))"

definition parsesAsDouble :: "string \<Rightarrow> bool \<times> f64 option" where
  "parsesAsDouble s =
     (if trimmed s = [] then (False, None)
      else case stod (trimmed s) of Inr (x, n) \<Rightarrow> (n = length (trimmed s), Some x) | Inl _ \<Rightarrow> (False, None))"

datatype inferred = IInt | IDouble | IText

text \<open>The loop of \<open>inferColumn\<close> over the rows, with \<open>t\<close> and \<open>sawAny\<close>.\<close>

fun infer_loop :: "nat \<Rightarrow> inferred \<Rightarrow> bool \<Rightarrow> grid \<Rightarrow> inferred \<times> bool" where
  "infer_loop c t saw [] = (t, saw)"
| "infer_loop c t saw (r # rs) =
     (if length r \<le> c then infer_loop c t saw rs
      else let cell = r ! c in
        if isBlank cell then infer_loop c t saw rs
        else if t = IInt then
          (if fst (parsesAsInt cell) then infer_loop c t True rs
           else if fst (parsesAsDouble cell) then infer_loop c IDouble True rs
           else (IText, True))
        else if t = IDouble then
          (if fst (parsesAsDouble cell) then infer_loop c t True rs else (IText, True))
        else infer_loop c t True rs)"

definition inferColumn :: "grid \<Rightarrow> nat \<Rightarrow> nat \<Rightarrow> nat \<Rightarrow> inferred" where
  "inferColumn grid c start n =
     (let limit = (if n = 0 then length grid else min (length grid) (start + n));
          (t, saw) = infer_loop c IInt False (drop start (take limit grid))
      in if saw then t else IText)"

definition cellToValue :: "string \<Rightarrow> inferred \<Rightarrow> value res" where
  "cellToValue cell t =
     (if isBlank cell then Inr VNull
      else case t of
        IInt \<Rightarrow> (case snd (parsesAsInt cell) of Some v \<Rightarrow> Inr (VI64 v) | None \<Rightarrow> Inl (Undefined ''uninitialised int64_t''))
      | IDouble \<Rightarrow> (case snd (parsesAsDouble cell) of Some v \<Rightarrow> Inr (VF64 v) | None \<Rightarrow> Inl (Undefined ''uninitialised double''))
      | IText \<Rightarrow> Inr (VStr cell))"

subsection \<open>Building the table\<close>

definition col_name :: "nat \<Rightarrow> string" where
  "col_name c = ''col'' @ nat_string (c + 1)"

definition inferred_type :: "inferred \<Rightarrow> data_type" where
  "inferred_type t = (case t of IInt \<Rightarrow> dt_int64 True | IDouble \<Rightarrow> dt_float64 True | IText \<Rightarrow> dt_varchar (- 1) True)"

definition csv_schema :: "string list \<Rightarrow> inferred list \<Rightarrow> schema" where
  "csv_schema names types =
     map (\<lambda>c. \<lparr>cd_name = (if names ! c = [] then col_name c else names ! c),
               cd_type = inferred_type (types ! c)\<rparr>) [0..<length names]"

text \<open>One cell of a record that may be short; extra cells are ignored.\<close>

definition record_cell :: "inferred \<Rightarrow> nat \<Rightarrow> string list \<Rightarrow> value res" where
  "record_cell t c record = (if c < length record then cellToValue (record ! c) t else Inr VNull)"

definition readCsvString :: "string \<Rightarrow> string \<Rightarrow> csv_options \<Rightarrow> table res" where
  "readCsvString text name opt =
     (let grid = parseGrid opt text in
      if grid = [] then Inl (CsvError (''CSV is empty: '' @ name))
      else let names = (if hasHeader opt then hd grid else map col_name [0..<length (hd grid)]);
               start = (if hasHeader opt then 1 else 0);
               ncol = length names
        in if ncol = 0 then Inl (CsvError (''CSV has no columns: '' @ name))
           else let types = map (\<lambda>c. inferColumn grid c start (inferRows opt)) [0..<ncol]
             in rbind (rmapM (\<lambda>c. rmapM (record_cell (types ! c) c) (drop start grid)) [0..<ncol]) (\<lambda>cols.
                  bulkInsertColumns (table_new name (csv_schema names types)) cols))"

text \<open>\<open>file\<close> is the contents, if the file can be opened.\<close>

definition readCsv :: "string \<Rightarrow> string option \<Rightarrow> string \<Rightarrow> csv_options \<Rightarrow> table res" where
  "readCsv path file name opt =
     (case file of None \<Rightarrow> Inl (CsvError (''cannot open file: '' @ path))
                 | Some text \<Rightarrow> readCsvString text name opt)"

subsection \<open>Writing\<close>

text \<open>\<open>csvField\<close> and the lines of \<open>printCsv\<close> over the texts of the cells.\<close>

definition csvField :: "string \<Rightarrow> string" where
  "csvField s =
     (if list_ex (\<lambda>c. c \<in> {CHR '','', CHR 0x22, CHR 0x0A, CHR 0x0D}) s
      then [CHR 0x22] @ concat (map (\<lambda>c. if c = CHR 0x22 then [c, c] else [c]) s) @ [CHR 0x22]
      else s)"

definition csv_line :: "string list \<Rightarrow> string" where
  "csv_line r = (case r of [] \<Rightarrow> [] | f # fs \<Rightarrow> csvField f @ concat (map (\<lambda>g. CHR '','' # csvField g) fs)) @ [CHR 0x0A]"

definition printCsv :: "grid \<Rightarrow> string" where
  "printCsv rows = concat (map csv_line rows)"


subsection \<open>The parser inverts the writer\<close>

abbreviation special :: "char \<Rightarrow> bool" where
  "special c \<equiv> c \<in> {CHR '','', CHR 0x22, CHR 0x0A, CHR 0x0D}"

lemma csv_defaults_simps [simp]:
  "delimiter csv_defaults = CHR '',''" "quote csv_defaults = CHR 0x22" "inferRows csv_defaults = 0"
  "hasHeader csv_defaults"
  by (simp_all add: csv_defaults_def)

lemma loop_plain:
  "list_all (\<lambda>c. \<not> special c) s \<Longrightarrow>
   grid_loop csv_defaults rows row field False st (s @ cs)
     = grid_loop csv_defaults rows row (field @ s) False (st \<or> s \<noteq> []) cs"
  by (induction s arbitrary: field st) auto

lemma loop_quoted:
  "cs = [] \<or> hd cs \<noteq> CHR 0x22 \<Longrightarrow>
   grid_loop csv_defaults rows row field True st
       (concat (map (\<lambda>c. if c = CHR 0x22 then [c, c] else [c]) s) @ CHR 0x22 # cs)
     = grid_loop csv_defaults rows row (field @ s) False st cs"
proof (induction s arbitrary: field)
  case Nil
  then show ?case by (cases cs) auto
qed auto

lemma csvField_empty: "(csvField s = []) = (s = [])"
  by (auto simp: csvField_def)

lemma loop_field:
  assumes "cs = [] \<or> hd cs \<noteq> CHR 0x22"
  shows "grid_loop csv_defaults rows row [] False st (csvField s @ cs)
    = grid_loop csv_defaults rows row s False (st \<or> s \<noteq> []) cs"
proof (cases "list_ex special s")
  case True
  then have "s \<noteq> []" by auto
  with True loop_quoted [OF assms, of rows row "[]" True s] show ?thesis by (simp add: csvField_def)
next
  case False
  then have "list_all (\<lambda>c. \<not> special c) s" by (simp add: list_ex_iff list_all_iff)
  from loop_plain [OF this, of rows row "[]" st cs] False show ?thesis by (simp add: csvField_def)
qed

lemma loop_fields:
  "grid_loop csv_defaults rows row [] False st
       (csvField f @ concat (map (\<lambda>g. CHR '','' # csvField g) fs) @ CHR 0x0A # cs)
     = grid_loop csv_defaults (rows @ [row @ f # fs]) [] [] False False cs"
proof (induction fs arbitrary: row f st)
  case Nil
  show ?case by (simp add: loop_field)
next
  case (Cons g fs)
  have "grid_loop csv_defaults rows row [] False st
      (csvField f @ concat (map (\<lambda>g. CHR '','' # csvField g) (g # fs)) @ CHR 0x0A # cs)
    = grid_loop csv_defaults rows (row @ [f]) [] False True
       (csvField g @ concat (map (\<lambda>g. CHR '','' # csvField g) fs) @ CHR 0x0A # cs)"
    by (simp add: loop_field)
  also have "\<dots> = grid_loop csv_defaults (rows @ [(row @ [f]) @ g # fs]) [] [] False False cs"
    by (rule Cons.IH)
  finally show ?case by simp
qed

lemma loop_line:
  "r \<noteq> [] \<Longrightarrow> grid_loop csv_defaults rows [] [] False False (csv_line r @ cs)
     = grid_loop csv_defaults (rows @ [r]) [] [] False False cs"
  using loop_fields [of rows "[]" False "hd r" "tl r" cs] by (cases r) (simp_all add: csv_line_def)

lemma loop_lines:
  "\<forall>r \<in> set rs. r \<noteq> [] \<Longrightarrow>
   grid_loop csv_defaults rows [] [] False False (printCsv rs) = (rows @ rs, [], [], False)"
proof (induction rs arbitrary: rows)
  case (Cons r rs)
  then show ?case using loop_line [of r rows "printCsv rs"] by (simp add: printCsv_def)
qed (simp add: printCsv_def)

definition bom :: string where
  "bom = [CHR 0xEF, CHR 0xBB, CHR 0xBF]"

lemma no_bom:
  assumes "take 3 f \<noteq> bom"
  shows "take 3 (printCsv ((f # fs) # rs)) \<noteq> bom"
proof -
  have start: "printCsv ((f # fs) # rs) = csvField f @ (concat (map (\<lambda>g. CHR '','' # csvField g) fs) @ [CHR 0x0A]) @ printCsv rs"
    by (simp add: printCsv_def csv_line_def)
  let ?r = "(concat (map (\<lambda>g. CHR '','' # csvField g) fs) @ [CHR 0x0A]) @ printCsv rs"
  have r: "?r \<noteq> []" "hd ?r \<notin> set bom" by (cases fs; simp add: bom_def)+
  show ?thesis
  proof (cases "list_ex special f")
    case True
    then show ?thesis unfolding start by (simp add: csvField_def bom_def)
  next
    case False
    then have "csvField f = f" by (simp add: csvField_def)
    show ?thesis
    proof
      assume b: "take 3 (printCsv ((f # fs) # rs)) = bom"
      show False
      proof (cases "3 \<le> length f")
        case True
        with b assms \<open>csvField f = f\<close> show False unfolding start by simp
      next
        case False
        have "hd ?r = take 3 (f @ ?r) ! length f"
          using False r(1) by (simp add: nth_append hd_conv_nth)
        also have "\<dots> \<in> set bom"
          using b False \<open>csvField f = f\<close> unfolding start by (simp add: bom_def nth_Cons' del: append_assoc)
        finally show False using r(2) by blast
      qed
    qed
  qed
qed

text \<open>
  C9: parsing the CSV text that the shell prints gives the printed cells back, whatever
  characters are in them, for rows with at least one cell; only a last row with one empty cell
  is lost, and a byte order mark at the very start.
\<close>

theorem csv_roundtrip:
  assumes "\<forall>r \<in> set rows. r \<noteq> []" "rows \<noteq> []" "last rows \<noteq> [[]]" "take 3 (hd (hd rows)) \<noteq> bom"
  shows "parseGrid csv_defaults (printCsv rows) = rows"
proof -
  from assms(1,2) obtain f fs rs where rows: "rows = (f # fs) # rs"
    by (metis list.exhaust list.set_intros(1))
  have "skip_bom (printCsv rows) = printCsv rows"
    using no_bom [of f fs rs] assms(4) by (simp add: rows skip_bom_def bom_def)
  moreover have "drop_trailing rows = rows"
  proof -
    have "last rows \<noteq> []" using assms(1,2) by simp
    with assms(2,3) obtain rs' r where r: "rows = rs' @ [r]" "r \<noteq> []" "r \<noteq> [[]]"
      by (metis append_butlast_last_id)
    then have "\<not> (list_all (\<lambda>f. f = []) r \<and> length r \<le> 1)" by (cases r) auto
    with r(1) show ?thesis by (auto simp: drop_trailing_def)
  qed
  ultimately show ?thesis
    unfolding parseGrid_def using loop_lines [OF assms(1), of "[]"] by simp
qed

theorem csv_roundtrip_witness:
  "parseGrid csv_defaults (printCsv [[''id'', ''say \"hi\"''], [''1'', ''a,b'' @ [CHR 0x0A, CHR 0x0D]], [[], []]])
    = [[''id'', ''say \"hi\"''], [''1'', ''a,b'' @ [CHR 0x0A, CHR 0x0D]], [[], []]]"
  by (rule csv_roundtrip) (simp_all add: bom_def)


subsection \<open>Every integer is a double\<close>

lemma round_mag_i64:
  assumes "0 < n" "n \<le> 2 ^ 63"
  shows "2 ^ 52 \<le> round_mag n 1 \<and> round_mag n 1 < f64_inf_mag"
proof -
  define b where "b = nat_bits n"
  have b: "2 ^ (b - 1) \<le> n" "n < 2 ^ b" "0 < b" using nat_bits_pos [OF assms(1)] by (auto simp: b_def)
  have "(2::nat) ^ (b - 1) \<le> 2 ^ 63" using b(1) assms(2) by (rule le_trans)
  then have "b - 1 \<le> 63" by (rule power_le_imp_le_exp [rotated]) simp
  then have b64: "b \<le> 64" using b(3) by linarith
  have l: "lead_exp n 1 = int b - 1"
    using b(1,3) by (simp add: lead_exp_def b_def [symmetric] Let_def nat_diff_distrib')
  have e: "round_exp n 1 = int b - 53" unfolding round_exp_def l using b(3) by simp
  have dr: "div_rne (n * 2 ^ nat (- (int b - 53))) (1 * 2 ^ nat (int b - 53)) \<le> 2 ^ 53"
  proof (cases "b \<le> 53")
    case True
    then have "n * 2 ^ (53 - b) < 2 ^ b * 2 ^ (53 - b)" using b(2) by simp
    also have "\<dots> = 2 ^ 53" using True by (simp flip: power_add)
    finally show ?thesis using True by (simp add: div_rne_def nat_diff_distrib')
  next
    case False
    then have "n < 2 ^ (53 + (b - 53))" using b(2) by simp
    then have "n < 2 ^ 53 * 2 ^ (b - 53)" by (simp only: power_add)
    then have "n div 2 ^ (b - 53) < 2 ^ 53" by (simp add: less_mult_imp_div_less)
    then show ?thesis using False by (simp add: div_rne_def Let_def nat_diff_distrib')
  qed
  have ne: "nat (int b - 53 + 1074) = b + 1021" by simp
  have "(b + 1021) * 2 ^ 52 + 2 ^ 53 < f64_inf_mag" using b64 by (simp add: f64_inf_mag_def)
  moreover have "2 ^ 52 \<le> (b + 1021) * (2 ^ 52 :: nat)" by simp
  ultimately show ?thesis
    unfolding round_mag_def e Let_def ne using dr by linarith
qed

lemma scale_round_int:
  assumes "m \<le> 2 ^ 63"
  shows "\<not> snd (scale_round neg m 10 0)"
proof (cases "m = 0")
  case True
  then show ?thesis
    by (simp add: scale_round_def f64_round_def f64_is_inf_def f64_inexact_def f64_inf_mag_def)
next
  case False
  with round_mag_i64 [of m] assms show ?thesis
    by (simp add: scale_round_def f64_round_def f64_is_inf_def round_mag_less)
qed

lemma isdigit_not: "isdigit c \<Longrightarrow> \<not> isspace c" "isdigit c \<Longrightarrow> tolower c = c" "isdigit c \<Longrightarrow> c \<noteq> CHR 0x00"
  "isdigit c \<Longrightarrow> c \<notin> {CHR ''i'', CHR ''n'', CHR ''x'', CHR ''-'', CHR ''+''}"
  by (auto simp: chr_simps)

lemma stod_digits:
  assumes "ds \<noteq> []" "list_all isdigit ds" "digits_val ds \<le> 2 ^ 63"
  shows "\<exists>x. stod ((if neg then [CHR ''-''] else []) @ ds) = Inr (x, length ((if neg then [CHR ''-''] else []) @ ds))"
proof -
  from assms(1,2) obtain d es where ds: "ds = d # es" "isdigit d" "list_all isdigit es" by (cases ds) auto
  let ?s = "(if neg then [CHR ''-''] else []) @ ds"
  have all: "\<forall>c \<in> set ds. isdigit c" using assms(2) by (simp add: list_all_iff)
  have c: "cstring ?s = ?s"
    using all isdigit_not(3) by (auto simp: cstring_def takeWhile_eq_all_conv)
  have sp: "dropWhile isspace ?s = ?s" using ds isdigit_not(1) by (auto simp: chr_simps)
  have sg: "strip_sign ?s = (neg, ds)" using ds isdigit_not(4) by (auto simp: strip_sign_def)
  have inf: "\<not> ci_prefix ''infinity'' ds" "\<not> ci_prefix ''inf'' ds" "\<not> ci_prefix ''nan'' ds" "\<not> ci_prefix ''0x'' ds"
    using ds isdigit_not(2,4) [of d] isdigit_not(2,4)
    by (cases es; auto simp: ci_prefix_def take_Cons' split: if_splits)+
  have tw: "takeWhile isdigit ds = ds" "dropWhile isdigit ds = []"
    using all by (auto simp: takeWhile_eq_all_conv dropWhile_eq_Nil_conv)
  obtain x e where xe: "scale_round neg (digits_val ds) 10 0 = (x, e)" "\<not> e"
    using scale_round_int [OF assms(3), of neg] by (cases "scale_round neg (digits_val ds) 10 0") auto
  have "strtod ?s = Some (x, False, [])"
    unfolding strtod_def sp sg Let_def prod.case tw using inf assms(1) xe
    by (simp add: strip_fraction_def strip_exponent_def)
  then show ?thesis unfolding stod_def c by simp
qed

lemma from_chars_all:
  assumes "from_chars_i64 s = FcOk v []"
  obtains neg ds where "s = (if neg then [CHR ''-''] else []) @ ds" "ds \<noteq> []" "list_all isdigit ds"
    "digits_val ds \<le> 2 ^ 63"
proof -
  obtain neg t where n: "strip_minus s = (neg, t)" by (cases "strip_minus s")
  with assms have d: "dropWhile isdigit t = []" "takeWhile isdigit t \<noteq> []"
      "i64_range (if neg then - int (digits_val (takeWhile isdigit t)) else int (digits_val (takeWhile isdigit t)))"
    by (auto simp: from_chars_i64_def Let_def split: if_splits)
  then have t: "takeWhile isdigit t = t" by (metis append_Nil2 takeWhile_dropWhile_id)
  have s: "s = (if neg then [CHR ''-''] else []) @ t"
    using n by (auto simp: strip_minus_def split: list.splits if_splits)
  have "list_all isdigit t" using t by (simp add: takeWhile_eq_all_conv list_all_iff)
  moreover have "digits_val t \<le> 2 ^ 63"
    using d(3) unfolding t i64_range_def by (auto split: if_splits)
  ultimately show thesis using that [of neg t] s d(2) t by simp
qed

lemma int_parses_as_double: "fst (parsesAsInt s) \<Longrightarrow> fst (parsesAsDouble s)"
proof -
  assume "fst (parsesAsInt s)"
  then obtain v where "trimmed s \<noteq> []" "from_chars_i64 (trimmed s) = FcOk v []"
    by (auto simp: parsesAsInt_def split: if_splits from_chars_result.splits)
  moreover from this(2) obtain neg ds where "trimmed s = (if neg then [CHR ''-''] else []) @ ds" "ds \<noteq> []"
      "list_all isdigit ds" "digits_val ds \<le> 2 ^ 63"
    by (rule from_chars_all)
  ultimately show ?thesis using stod_digits [of ds neg] by (auto simp: parsesAsDouble_def)
qed

subsection \<open>Inference is sound\<close>

definition cell_fits :: "inferred \<Rightarrow> string \<Rightarrow> bool" where
  "cell_fits t s = (isBlank s \<or> t = IText \<or> (t = IDouble \<and> fst (parsesAsDouble s)) \<or> (t = IInt \<and> fst (parsesAsInt s)))"

lemma infer_loop_widens:
  "infer_loop c t saw rs = (t', saw') \<Longrightarrow> t' = t \<or> t' = IText \<or> (t = IInt \<and> t' = IDouble)"
  by (induction c t saw rs arbitrary: t' saw' rule: infer_loop.induct)
    (auto simp: Let_def split: if_splits)

lemma cell_fits_widen: "cell_fits IInt s \<Longrightarrow> cell_fits IDouble s"
  using int_parses_as_double by (auto simp: cell_fits_def)

lemma infer_loop_fits:
  "infer_loop c t saw rs = (t', saw') \<Longrightarrow> r \<in> set rs \<Longrightarrow> c < length r \<Longrightarrow> cell_fits t' (r ! c)"
proof (induction c t saw rs arbitrary: t' saw' rule: infer_loop.induct)
  case (2 c t saw r0 rs)
  have widen: "cell_fits u' x" if "cell_fits u x" "u' = u \<or> u' = IText \<or> (u = IInt \<and> u' = IDouble)" for u u' x
    using that cell_fits_widen by (auto simp: cell_fits_def)
  show ?case
  proof (cases "length r0 \<le> c")
    case True
    with "2.prems" show ?thesis by (auto intro: "2.IH"(1))
  next
    case long: False
    show ?thesis
    proof (cases "isBlank (r0 ! c)")
      case True
      with long "2.prems" "2.IH"(2) [OF long refl True] show ?thesis
        by (cases "r = r0") (auto simp: cell_fits_def)
    next
      case blank: False
      consider (num) "t = IInt" "fst (parsesAsInt (r0 ! c))"
        | (dbl) "t = IInt" "\<not> fst (parsesAsInt (r0 ! c))" "fst (parsesAsDouble (r0 ! c))"
        | (dbl2) "t = IDouble" "fst (parsesAsDouble (r0 ! c))"
        | (last) "t' = IText"
        using "2.prems"(1) long blank infer_loop_widens [of c t True rs t' saw']
        by (cases t) (auto simp: Let_def split: if_splits)
      then show ?thesis
      proof cases
        case num
        with "2.prems"(1) long blank have l: "infer_loop c IInt True rs = (t', saw')" by simp
        from infer_loop_widens [OF l] have w: "t' = IInt \<or> t' = IText \<or> (IInt = IInt \<and> t' = IDouble)" .
        have "cell_fits IInt (r0 ! c)" using num by (simp add: cell_fits_def)
        with "2.IH"(3) [OF long refl blank num] l "2.prems"(2,3) num widen [OF _ w] show ?thesis by auto
      next
        case dbl
        with "2.prems"(1) long blank have l: "infer_loop c IDouble True rs = (t', saw')" by simp
        from infer_loop_widens [OF l] have w: "t' = IDouble \<or> t' = IText \<or> (IDouble = IInt \<and> t' = IDouble)" .
        have "cell_fits IDouble (r0 ! c)" using dbl by (simp add: cell_fits_def)
        with "2.IH"(4) [OF long refl blank dbl] l "2.prems"(2,3) widen [OF _ w] show ?thesis by auto
      next
        case dbl2
        with "2.prems"(1) long blank have l: "infer_loop c IDouble True rs = (t', saw')" by simp
        from infer_loop_widens [OF l] have w: "t' = IDouble \<or> t' = IText \<or> (IDouble = IInt \<and> t' = IDouble)" .
        have "cell_fits IDouble (r0 ! c)" using dbl2 by (simp add: cell_fits_def)
        with "2.IH"(5) [OF long refl blank _ _ dbl2(2)] l "2.prems"(2,3) dbl2 widen [OF _ w] show ?thesis by auto
      qed (simp add: cell_fits_def)
    qed
  qed
qed simp

lemma infer_loop_seen [simp]: "infer_loop c t True rs \<noteq> (t', False)"
  by (induction c t True rs rule: infer_loop.induct) (auto simp: Let_def split: if_splits)

lemma infer_loop_saw:
  "infer_loop c t saw rs = (t', saw') \<Longrightarrow> \<not> saw' \<Longrightarrow> r \<in> set rs \<Longrightarrow> c < length r \<Longrightarrow> isBlank (r ! c)"
  by (induction c t saw rs arbitrary: t' saw' rule: infer_loop.induct) (auto simp: Let_def split: if_splits)


lemma inferColumn_fits:
  assumes "r \<in> set (drop start grid)" "c < length r"
  shows "cell_fits (inferColumn grid c start 0) (r ! c)"
proof -
  obtain t saw where t: "infer_loop c IInt False (drop start grid) = (t, saw)"
    by (cases "infer_loop c IInt False (drop start grid)")
  with infer_loop_fits [OF t assms] infer_loop_saw [OF t _ assms] show ?thesis
    by (auto simp: inferColumn_def Let_def cell_fits_def)
qed

text \<open>A cell of the inferred type converts, to a value that a column of that type stores as it is.\<close>

definition cell_value_of :: "inferred \<Rightarrow> string \<Rightarrow> value" where
  "cell_value_of t s =
     (if isBlank s then VNull
      else case t of
        IInt \<Rightarrow> VI64 (the (snd (parsesAsInt s)))
      | IDouble \<Rightarrow> VF64 (the (snd (parsesAsDouble s)))
      | IText \<Rightarrow> VStr s)"

lemma parses_written: "fst (parsesAsInt s) \<Longrightarrow> \<exists>v. snd (parsesAsInt s) = Some v"
    "fst (parsesAsDouble s) \<Longrightarrow> \<exists>x. snd (parsesAsDouble s) = Some x"
  by (auto simp: parsesAsInt_def parsesAsDouble_def split: if_splits from_chars_result.splits sum.splits)

lemma cellToValue_fits: "cell_fits t s \<Longrightarrow> cellToValue s t = Inr (cell_value_of t s)"
  using parses_written [of s] by (cases t) (auto simp: cell_fits_def cellToValue_def cell_value_of_def)

lemma stored_cell_of: "stored (dt_id (inferred_type t)) (cell_value_of t s) = Inr (cell_value_of t s)"
  by (cases t) (auto simp: cell_value_of_def inferred_type_def dt_int64_def dt_float64_def dt_varchar_def
      mk_dt_def stored_def kindOf_def int_cell_def typeIsFloat_def makeIntValue_def)

lemma stored_null: "stored t VNull = Inr VNull"
  by (simp add: stored_def)

definition record_value :: "inferred \<Rightarrow> nat \<Rightarrow> string list \<Rightarrow> value" where
  "record_value t c r = (if c < length r then cell_value_of t (r ! c) else VNull)"

text \<open>Bulk loading new columns.\<close>

lemma bulk_cols_ok:
  "length vss = length ts \<Longrightarrow> \<forall>i < length ts. length (vss ! i) = n
     \<and> (\<forall>v \<in> set (vss ! i). stored (dt_id (ts ! i)) v = Inr v) \<Longrightarrow>
   \<exists>cs. bulk_cols (map column_new ts) vss = Inr cs \<and> map c_type cs = ts \<and> map col_values cs = vss
     \<and> (\<forall>c \<in> set cs. wf_column c \<and> column_size c = n)"
proof (induction ts vss rule: list_induct2')
  case (4 t ts vs vss)
  have h: "length vs = n" "\<forall>v \<in> set vs. stored (dt_id t) v = Inr v"
    using "4.prems"(2) by auto
  have tl: "\<forall>i < length ts. length (vss ! i) = n \<and> (\<forall>v \<in> set (vss ! i). stored (dt_id (ts ! i)) v = Inr v)"
  proof (intro allI impI)
    fix i assume "i < length ts"
    with "4.prems"(2) show "length (vss ! i) = n \<and> (\<forall>v \<in> set (vss ! i). stored (dt_id (ts ! i)) v = Inr v)"
      by (metis Suc_less_eq length_Cons nth_Cons_Suc)
  qed
  have "rmapM (stored (dt_id t)) vs = Inr (map (\<lambda>v. v) vs)" by (rule rmapM_Inr_map) (use h in auto)
  moreover have "c_type (column_new t) = t" by (simp add: column_new_def)
  ultimately obtain c where
    c: "rfold column_append (column_new t) vs = Inr c" "wf_column c" "c_type c = t" "col_values c = vs"
    using col.push_all [of "column_new t" t vs vs] by auto
  then have "column_size c = n" using h(1) by (metis length_col_values)
  with c 4 tl show ?case by auto
qed auto


lemma bulk_table:
  assumes "length vss = length sch" "sch \<noteq> []"
    and "\<And>i. i < length sch \<Longrightarrow> length (vss ! i) = n \<and> (\<forall>v \<in> set (vss ! i). stored (dt_id (cd_type (sch ! i))) v = Inr v)"
  shows "\<exists>t. bulkInsertColumns (table_new name sch) vss = Inr t \<and> wf_table t \<and> t_name t = name \<and> t_schema t = sch
    \<and> table_rows t = map (\<lambda>r. map (\<lambda>vs. vs ! r) vss) [0..<n]"
proof -
  let ?ts = "map cd_type sch"
  from bulk_cols_ok [of vss ?ts n] assms obtain cs where cs: "bulk_cols (map column_new ?ts) vss = Inr cs"
      "map c_type cs = ?ts" "map col_values cs = vss" "\<forall>c \<in> set cs. wf_column c \<and> column_size c = n"
    by auto
  let ?t = "(table_new name sch)\<lparr>t_cols := cs\<rparr>"
  have len: "length cs = length sch" using cs(2) by (metis length_map)
  with assms(2) obtain c cs' where "cs = c # cs'" by (cases cs) auto
  then have rc: "rowCount ?t = n" using cs(4) by (simp add: rowCount_def)
  have "bulkInsertColumns (table_new name sch) vss = Inr ?t"
    using cs(1) assms(1) by (simp add: bulkInsertColumns_def table_new_def o_def)
  moreover have "wf_table ?t" using cs(2,4) rc by (simp add: wf_table_def table_new_def)
  moreover have "table_rows ?t = map (\<lambda>r. map (\<lambda>vs. vs ! r) vss) [0..<n]"
    unfolding table_rows_def rc using cs(3) by auto
  ultimately show ?thesis by (intro exI [of _ ?t]) (simp add: table_new_def)
qed

text \<open>
  What the documentation says of a column: \<open>BIGINT\<close> if every value is an integer, else \<open>DOUBLE\<close> if
  every value is numeric, else \<open>VARCHAR\<close>; blank cells are NULL and do not count. An integer is written
  with digits and a minus sign at most, in 64 bits; a number is what \<open>std::stod\<close> reads to the end.
\<close>

definition integer_value :: "string \<Rightarrow> int option" where
  "integer_value s =
     (let t = trimmed s; minus = (take 1 t = ''-''); ds = (if minus then tl t else t);
          i = (if minus then - int (digits_val ds) else int (digits_val ds))
      in if ds \<noteq> [] \<and> list_all isdigit ds \<and> - (2 ^ 63) \<le> i \<and> i < 2 ^ 63 then Some i else None)"

definition number_value :: "string \<Rightarrow> f64 option" where
  "number_value s =
     (case stod (trimmed s) of Inr (x, used) \<Rightarrow> if trimmed s \<noteq> [] \<and> used = length (trimmed s) then Some x else None
      | Inl _ \<Rightarrow> None)"

definition column_texts :: "nat \<Rightarrow> string list list \<Rightarrow> string list" where
  "column_texts c records = filter (\<lambda>s. \<not> isBlank s) (map (\<lambda>r. r ! c) records)"

definition documented_type :: "string list \<Rightarrow> type_id" where
  "documented_type ss =
     (if ss \<noteq> [] \<and> (\<forall>s \<in> set ss. integer_value s \<noteq> None) then INT64
      else if ss \<noteq> [] \<and> (\<forall>s \<in> set ss. number_value s \<noteq> None) then FLOAT64
      else VARCHAR)"

definition documented_value :: "type_id \<Rightarrow> string \<Rightarrow> value" where
  "documented_value ty s =
     (if isBlank s then VNull
      else if ty = INT64 then VI64 (word_of_int (the (integer_value s)))
      else if ty = FLOAT64 then VF64 (the (number_value s))
      else VStr s)"

definition documented_name :: "csv_options \<Rightarrow> grid \<Rightarrow> nat \<Rightarrow> string" where
  "documented_name opt grid c =
     (if hasHeader opt \<and> hd grid ! c \<noteq> [] then hd grid ! c else ''col'' @ nat_string (c + 1))"

lemma parsesAsInt_value:
  "fst (parsesAsInt s) = (integer_value s \<noteq> None)"
  "integer_value s = Some i \<Longrightarrow> snd (parsesAsInt s) = Some (word_of_int i)"
proof -
  define neg ds where "neg = (take 1 (trimmed s) = ''-'')" and "ds = (if neg then tl (trimmed s) else trimmed s)"
  define v where "v = (if neg then - int (digits_val ds) else int (digits_val ds))"
  have split: "strip_minus (trimmed s) = (neg, ds)"
    by (cases "trimmed s") (auto simp: strip_minus_def neg_def ds_def)
  have val: "integer_value s = (if ds \<noteq> [] \<and> list_all isdigit ds \<and> i64_range v then Some v else None)"
    by (simp add: integer_value_def Let_def i64_range_def v_def ds_def neg_def)
  have chars: "from_chars_i64 (trimmed s) = (if takeWhile isdigit ds = [] then FcInvalid
      else if i64_range (if neg then - int (digits_val (takeWhile isdigit ds)) else int (digits_val (takeWhile isdigit ds)))
        then FcOk (word_of_int (if neg then - int (digits_val (takeWhile isdigit ds)) else int (digits_val (takeWhile isdigit ds))))
               (dropWhile isdigit ds)
        else FcRange (dropWhile isdigit ds))"
    by (simp add: from_chars_i64_def split Let_def)
  have nil: "trimmed s = [] \<Longrightarrow> ds = []" by (simp add: ds_def)
  have "fst (parsesAsInt s) = (integer_value s \<noteq> None) \<and>
      (integer_value s = Some i \<longrightarrow> snd (parsesAsInt s) = Some (word_of_int i))"
  proof (cases "list_all isdigit ds")
    case True
    then have d: "dropWhile isdigit ds = []" "takeWhile isdigit ds = ds"
      by (simp_all add: dropWhile_eq_Nil_conv takeWhile_eq_all_conv list_all_iff)
    then have c: "from_chars_i64 (trimmed s)
        = (if ds = [] then FcInvalid else if i64_range v then FcOk (word_of_int v) [] else FcRange [])"
      unfolding chars d v_def by simp
    show ?thesis using nil True unfolding parsesAsInt_def c val by auto
  next
    case False
    then have d: "dropWhile isdigit ds \<noteq> []" by (simp add: dropWhile_eq_Nil_conv list_all_iff)
    then have "from_chars_i64 (trimmed s) = FcOk w [] \<Longrightarrow> P" for w P unfolding chars by (simp split: if_splits)
    with False show ?thesis unfolding parsesAsInt_def val by (auto split: from_chars_result.splits)
  qed
  then show "fst (parsesAsInt s) = (integer_value s \<noteq> None)"
      "integer_value s = Some i \<Longrightarrow> snd (parsesAsInt s) = Some (word_of_int i)" by blast+
qed

lemma parsesAsDouble_value:
  "fst (parsesAsDouble s) = (number_value s \<noteq> None)"
  "number_value s = Some x \<Longrightarrow> snd (parsesAsDouble s) = Some x"
  by (auto simp: parsesAsDouble_def number_value_def split: sum.splits if_splits)

lemma integer_is_number: "integer_value s \<noteq> None \<Longrightarrow> number_value s \<noteq> None"
  using int_parses_as_double parsesAsInt_value(1) parsesAsDouble_value(1) by blast

text \<open>The loop finds the documented type.\<close>

lemma infer_loop_documented:
  "\<forall>r \<in> set rs. c < length r \<Longrightarrow> infer_loop c t saw rs =
     (if t = IInt \<and> (\<forall>s \<in> set (column_texts c rs). integer_value s \<noteq> None) then IInt
      else if t \<noteq> IText \<and> (\<forall>s \<in> set (column_texts c rs). number_value s \<noteq> None) then IDouble
      else IText, saw \<or> column_texts c rs \<noteq> [])"
proof (induction rs arbitrary: t saw)
  case (Cons r rs)
  then have IH: "infer_loop c u w rs =
     (if u = IInt \<and> (\<forall>s \<in> set (column_texts c rs). integer_value s \<noteq> None) then IInt
      else if u \<noteq> IText \<and> (\<forall>s \<in> set (column_texts c rs). number_value s \<noteq> None) then IDouble
      else IText, w \<or> column_texts c rs \<noteq> [])" for u w by simp
  have r: "\<not> length r \<le> c" using Cons.prems by auto
  have ts: "(\<forall>s \<in> set (column_texts c (r # rs)). P s) = ((isBlank (r ! c) \<or> P (r ! c)) \<and> (\<forall>s \<in> set (column_texts c rs). P s))"
    "(column_texts c (r # rs) \<noteq> []) = (\<not> isBlank (r ! c) \<or> column_texts c rs \<noteq> [])" for P
    by (simp_all add: column_texts_def)
  define I N i n where "I = (\<forall>s \<in> set (column_texts c rs). integer_value s \<noteq> None)"
    and "N = (\<forall>s \<in> set (column_texts c rs). number_value s \<noteq> None)"
    and "i = (integer_value (r ! c) \<noteq> None)" and "n = (number_value (r ! c) \<noteq> None)"
  have "I \<Longrightarrow> N" "i \<Longrightarrow> n" using integer_is_number unfolding I_def N_def i_def n_def by blast+
  with r show ?case
    unfolding infer_loop.simps IH ts Let_def parsesAsInt_value(1) parsesAsDouble_value(1)
      I_def [symmetric] N_def [symmetric] i_def [symmetric] n_def [symmetric]
    by (cases I; cases N; cases i; cases n; cases t; simp)
next
  case Nil
  then show ?case by (cases t) (simp_all add: column_texts_def)
qed

lemma inferColumn_documented:
  assumes "\<forall>r \<in> set (drop start grid). c < length r"
  shows "dt_id (inferred_type (inferColumn grid c start 0)) = documented_type (column_texts c (drop start grid))"
  using infer_loop_documented [OF assms, of IInt False]
  by (simp add: inferColumn_def documented_type_def inferred_type_def dt_int64_def dt_float64_def dt_varchar_def mk_dt_def)

lemma record_value_documented:
  assumes "r \<in> set (drop start grid)" "c < length r"
  shows "record_value (inferColumn grid c start 0) c r
    = documented_value (dt_id (inferred_type (inferColumn grid c start 0))) (r ! c)"
  using inferColumn_fits [OF assms] assms(2) parsesAsInt_value [of "r ! c"] parsesAsDouble_value [of "r ! c"]
  by (cases "inferColumn grid c start 0")
    (auto simp: record_value_def cell_value_of_def documented_value_def cell_fits_def inferred_type_def
      dt_int64_def dt_float64_def dt_varchar_def mk_dt_def)

text \<open>
  C21: with unlimited inference a rectangular text (no record wider or shorter than the first) with at
  least one column is read into a well-formed table: the columns have the names of the header (or their
  numbers) and the documented types, and there is one row per data record, with NULL for its blank cells
  and else the integer, the number or the text of the cell. No conversion reads an uninitialised value.
  Ragged texts are left out: the comment in \<open>csv_reader.h\<close> has them throw, the code loads them.
\<close>

theorem csv_table_holds_records:
  assumes "grid = parseGrid opt text" "grid \<noteq> []" "hd grid \<noteq> []" "inferRows opt = 0"
    and "n = length (hd grid)" "\<And>r. r \<in> set grid \<Longrightarrow> length r = n"
    and "records = (if hasHeader opt then tl grid else grid)"
  shows "\<exists>t. readCsvString text name opt = Inr t \<and> wf_table t \<and> t_name t = name
    \<and> map cd_name (t_schema t) = map (documented_name opt grid) [0..<n]
    \<and> map (dt_id \<circ> cd_type) (t_schema t) = map (\<lambda>c. documented_type (column_texts c records)) [0..<n]
    \<and> table_rows t
      = map (\<lambda>r. map (\<lambda>c. documented_value (documented_type (column_texts c records)) (r ! c)) [0..<n]) records"
proof -
  define names where "names = (if hasHeader opt then hd grid else map col_name [0..<length (hd grid)])"
  define start :: nat where "start = (if hasHeader opt then 1 else 0)"
  define types where "types = map (\<lambda>c. inferColumn grid c start 0) [0..<n]"
  have n: "length names = n" "0 < n" "length types = n" using assms(3,5) by (auto simp: names_def types_def)
  have recs: "drop start grid = records" by (simp add: start_def assms(7) drop_Suc)
  let ?cols = "map (\<lambda>c. map (record_value (types ! c) c) records) [0..<n]"
  let ?sch = "csv_schema names types"
  have width: "length r = n" if "r \<in> set records" for r
    using that assms(6) set_drop_subset [of start grid] unfolding recs by blast
  have cell: "record_cell (types ! c) c r = Inr (record_value (types ! c) c r)" if "c < n" "r \<in> set records" for c r
    using that cellToValue_fits [OF inferColumn_fits [of r start grid c]] unfolding recs
    by (simp add: record_cell_def record_value_def types_def)
  have cols: "rmapM (\<lambda>c. rmapM (record_cell (types ! c) c) records) [0..<n] = Inr ?cols"
    by (intro rmapM_Inr_map) (simp add: cell)
  have sch: "length ?sch = n" "?sch \<noteq> []" "\<And>c. c < n \<Longrightarrow> cd_type (?sch ! c) = inferred_type (types ! c)"
    using n by (auto simp: csv_schema_def)
  have stored: "length (?cols ! i) = length records
      \<and> (\<forall>v \<in> set (?cols ! i). stored (dt_id (cd_type (?sch ! i))) v = Inr v)" if "i < length ?sch" for i
    using that sch by (auto simp: record_value_def stored_cell_of stored_null)
  obtain t where t: "bulkInsertColumns (table_new name ?sch) ?cols = Inr t" "wf_table t" "t_name t = name"
      "t_schema t = ?sch" "table_rows t = map (\<lambda>r. map (\<lambda>vs. vs ! r) ?cols) [0..<length records]"
    using bulk_table [of ?cols ?sch "length records" name, OF _ sch(2) stored] sch(1) by auto
  have "readCsvString text name opt = Inr t"
    unfolding readCsvString_def Let_def assms(1) [symmetric] names_def [symmetric] start_def [symmetric] recs
    using assms(2,4) n cols t(1) unfolding types_def by (simp only: n(1)) simp
  moreover have doc: "dt_id (inferred_type (types ! c)) = documented_type (column_texts c records)" if "c < n" for c
    using that inferColumn_documented [of start grid c] width unfolding recs by (simp add: types_def)
  have "map (dt_id \<circ> cd_type) (t_schema t) = map (\<lambda>c. documented_type (column_texts c records)) [0..<n]"
    by (rule nth_equalityI) (use t(4) sch doc in auto)
  moreover have "map cd_name (t_schema t) = map (documented_name opt grid) [0..<n]"
    by (rule nth_equalityI)
      (use t(4) n(1) assms(5) in \<open>auto simp: csv_schema_def names_def documented_name_def col_name_def\<close>)
  moreover have "record_value (types ! c) c r = documented_value (documented_type (column_texts c records)) (r ! c)"
    if "c < n" "r \<in> set records" for c r
    using record_value_documented [of r start grid c, unfolded recs] doc [of c] that width by (simp add: types_def)
  then have "table_rows t
      = map (\<lambda>r. map (\<lambda>c. documented_value (documented_type (column_texts c records)) (r ! c)) [0..<n]) records"
    by (intro nth_equalityI) (auto simp: t(5))
  ultimately show ?thesis using t(2,3) by blast
qed

theorem csv_table_holds_records_witness:
  "\<exists>t. readCsvString (''id,v,w'' @ [CHR 0x0A] @ ''7,x,-1'' @ [CHR 0x0A] @ '' 8,,'') ''t'' csv_defaults = Inr t
     \<and> map cd_name (t_schema t) = [''id'', ''v'', ''w'']
     \<and> map (dt_id \<circ> cd_type) (t_schema t) = [INT64, VARCHAR, INT64]
     \<and> table_rows t = [[VI64 7, VStr ''x'', VI64 (- 1)], [VI64 8, VNull, VNull]]"
proof -
  let ?text = "''id,v,w'' @ [CHR 0x0A] @ ''7,x,-1'' @ [CHR 0x0A] @ '' 8,,''"
  let ?g = "[[''id'', ''v'', ''w''], [''7'', ''x'', ''-1''], ['' 8'', [], []]]"
  have g: "parseGrid csv_defaults ?text = ?g" by code_simp
  have types: "map (\<lambda>c. documented_type (column_texts c (tl ?g))) [0..<3] = [INT64, VARCHAR, INT64]" by code_simp
  have rows: "map (\<lambda>r. map (\<lambda>c. documented_value (documented_type (column_texts c (tl ?g))) (r ! c)) [0..<3]) (tl ?g)
        = [[VI64 7, VStr ''x'', VI64 (- 1)], [VI64 8, VNull, VNull]]" by code_simp
  have names: "map (documented_name csv_defaults ?g) [0..<3] = [''id'', ''v'', ''w'']" by code_simp
  have "\<exists>t. readCsvString ?text ''t'' csv_defaults = Inr t \<and> wf_table t \<and> t_name t = ''t''
    \<and> map cd_name (t_schema t) = map (documented_name csv_defaults ?g) [0..<3]
    \<and> map (dt_id \<circ> cd_type) (t_schema t) = map (\<lambda>c. documented_type (column_texts c (tl ?g))) [0..<3]
    \<and> table_rows t
      = map (\<lambda>r. map (\<lambda>c. documented_value (documented_type (column_texts c (tl ?g))) (r ! c)) [0..<3]) (tl ?g)"
  proof (rule csv_table_holds_records [OF g [symmetric]])
    show "length r = 3" if "r \<in> set ?g" for r using that by auto
  qed simp_all
  then show ?thesis unfolding types rows names by - (erule exE, (erule conjE)+, rule exI, (rule conjI, assumption)+, assumption)
qed

text \<open>With limited inference a cell that the sample did not show reads an uninitialised variable.\<close>

lemma limited_inference_reads_uninitialised:
  "readCsvString (''n'' @ [CHR 0x0A] @ ''1'' @ [CHR 0x0A] @ ''x'') ''t'' (csv_defaults\<lparr>inferRows := 1\<rparr>)
     = Inl (Undefined ''uninitialised int64_t'')"
  by code_simp

end
