(* ===== verification/LQ_Connection.thy ===== *)
theory LQ_Connection
  imports LQ_Statement LQ_ParseTotal LQ_Persist LQ_Csv
begin

section \<open>Connections\<close>

text \<open>
  Model of the public entry points of \<open>src/api/connection.cpp\<close>: a text is lexed, parsed and
  executed on the catalog of the connection, and every exception on the way becomes an error
  result. \<open>Undefined\<close> and \<open>OutOfFuel\<close> are no exceptions and stay. Files are arguments: the
  contents that a path has, if it can be opened. The elapsed time is not modelled.
\<close>

subsection \<open>Exceptions\<close>

text \<open>
  \<open>what()\<close>. The text for \<open>std::bad_variant_access\<close> is the one of libstdc++; the standard leaves
  it open.
\<close>

fun what :: "error \<Rightarrow> string" where
  "what (RuntimeError s) = s"
| "what BadVariantAccess = ''std::get: wrong index for variant''"
| "what (EvalError s) = s"
| "what (BuildError s) = s"
| "what (PersistenceError s) = s"
| "what (CsvError s) = s"
| "what (ParseError s l c) = s"
| "what (LogicError s) = s"
| "what (OutOfRange s) = s"
| "what (InvalidArgument s) = s"
| "what (Undefined s) = s"
| "what OutOfFuel = []"

definition caught :: "query_result res \<Rightarrow> query_result res" where
  "caught r = (case r of
       Inr x \<Rightarrow> Inr x
     | Inl e \<Rightarrow> if is_exception e then Inr (makeError (what e)) else Inl e)"

subsection \<open>query\<close>

definition lex_failure :: "lex_result \<Rightarrow> query_result" where
  "lex_failure lx = (let e = hd (lr_errors lx) in
     makeError (''Lex error: '' @ le_message e @ '' at '' @ location_string (le_loc e)))"

definition query ::
    "(f64 \<Rightarrow> f64 \<Rightarrow> f64) \<Rightarrow> nat \<Rightarrow> string \<Rightarrow> catalog \<Rightarrow> catalog \<times> query_result res" where
  "query pw fuel sql cat =
     (let lx = tokenize sql in
      if \<not> lex_ok lx then (cat, Inr (lex_failure lx))
      else case parse_tokens (lr_tokens lx) of
          Inl e \<Rightarrow> (cat, caught (Inl e))
        | Inr s \<Rightarrow> (case runStatement pw fuel s cat of (cat', r) \<Rightarrow> (cat', caught r)))"

subsection \<open>importCsv, saveDatabase and loadDatabase\<close>

definition importCsv ::
    "string \<Rightarrow> string option \<Rightarrow> string \<Rightarrow> char \<Rightarrow> bool \<Rightarrow> catalog \<Rightarrow> catalog \<times> query_result res" where
  "importCsv path file tableName delim header cat =
     (if hasTable cat tableName then (cat, Inr (makeError (''table already exists: '' @ tableName)))
      else case readCsv path file tableName (csv_defaults\<lparr>delimiter := delim, hasHeader := header\<rparr>) of
          Inl e \<Rightarrow> (cat, caught (Inl e))
        | Inr t \<Rightarrow> (registerTable cat t, Inr (empty_result\<lparr>rowsAffected := rowCount t\<rparr>)))"

text \<open>\<open>save_db\<close> also returns what the file holds, if it was written.\<close>

definition save_db :: "bool \<Rightarrow> bool \<Rightarrow> string \<Rightarrow> catalog \<Rightarrow> string option \<times> query_result res" where
  "save_db opens written path cat =
     (case saveDatabase opens written cat path of
        Inl e \<Rightarrow> (None, caught (Inl e))
      | Inr bytes \<Rightarrow> (Some bytes, Inr (empty_result\<lparr>rowsAffected := length (tableNames cat)\<rparr>)))"

definition load_db :: "string \<Rightarrow> string option \<Rightarrow> catalog \<Rightarrow> catalog \<times> query_result res" where
  "load_db path file cat =
     (case loadDatabase cat path file of
        (cat', Inl e) \<Rightarrow> (cat', caught (Inl e))
      | (cat', Inr _) \<Rightarrow> (cat', Inr (empty_result\<lparr>rowsAffected := length (tableNames cat')\<rparr>)))"

subsection \<open>explain\<close>

definition trim_newline :: "string \<Rightarrow> string" where
  "trim_newline s = (if s \<noteq> [] \<and> last s = CHR 0x0A then butlast s else s)"

definition explain_failure :: "error \<Rightarrow> string res" where
  "explain_failure e = (if is_exception e then Inr (''EXPLAIN error: '' @ what e) else Inl e)"

definition conn_explain :: "(f64 \<Rightarrow> f64 \<Rightarrow> f64) \<Rightarrow> catalog \<Rightarrow> string \<Rightarrow> string res" where
  "conn_explain pw cat sql =
     (let lx = tokenize sql in
      if \<not> lex_ok lx then Inr (''Lex error: '' @ le_message (hd (lr_errors lx)))
      else case parse_tokens (lr_tokens lx) of
          Inl e \<Rightarrow> explain_failure e
        | Inr s \<Rightarrow> (case s of
              StmtSelect sel \<Rightarrow>
                (case buildSelect pw cat sel of
                   Inl e \<Rightarrow> explain_failure e
                 | Inr root \<Rightarrow> Inr (trim_newline (explain root 0)))
            | _ \<Rightarrow> Inr ''EXPLAIN is only supported for SELECT statements''))"


subsection \<open>Errors are reported\<close>

lemma caught_exception: "is_exception e \<Longrightarrow> caught (Inl e) = Inr (makeError (what e))"
  by (simp add: caught_def)

text \<open>
  C33: a text that is not a statement, because of its characters or of its syntax, is answered
  with an error result, never with an exception or undefined behaviour, and the catalog stays.
\<close>

theorem bad_text_is_reported:
  assumes "\<not> lex_ok (tokenize sql) \<or> (\<forall>s. parse_tokens (lr_tokens (tokenize sql)) \<noteq> Inr s)"
  shows "\<exists>m. query pw fuel sql cat = (cat, Inr (makeError m))"
proof (cases "lex_ok (tokenize sql)")
  case True
  with assms obtain e where e: "parse_tokens (lr_tokens (tokenize sql)) = Inl e"
    by (cases "parse_tokens (lr_tokens (tokenize sql))") auto
  from caught_exception [OF parse_tokens_error [OF wf_tokenize e]] True e show ?thesis
    by (intro exI [of _ "what e"]) (simp add: query_def Let_def)
qed (auto simp: query_def Let_def lex_failure_def intro!: exI)

theorem bad_text_is_reported_witness:
  "\<exists>m. query (\<lambda>x y. x) 9 ''DROP t'' demo_shop = (demo_shop, Inr (makeError m))"
proof (rule bad_text_is_reported)
  have "map tk_kind (lr_tokens (tokenize ''DROP t'')) = [Ddl KW_DROP, IDENT, END_OF_FILE]" by code_simp
  then obtain t u v where "lr_tokens (tokenize ''DROP t'') = [t, u, v]" "tk_kind t = Ddl KW_DROP"
    "tk_kind u = IDENT" by auto
  then have "isl (parse_tokens (lr_tokens (tokenize ''DROP t'')))"
    by (simp add: parse_tokens_def parseStatement_def statementBody_def parseDropTable_def current_def tok_peek_def
        pbind_def expect_def tok_check_def next_token_def tok_advance_def at_end_def parse_error_def Let_def)
  then show "\<not> lex_ok (tokenize ''DROP t'') \<or> (\<forall>s. parse_tokens (lr_tokens (tokenize ''DROP t'')) \<noteq> Inr s)"
    by (auto simp: isl_def)
qed

subsection \<open>Statements from texts\<close>

lemma pbind_Inr: "(pbind p f ts = Inr (y, us)) = (\<exists>x vs. p ts = Inr (x, vs) \<and> f x vs = Inr (y, us))"
  by (cases "p ts") (auto simp: pbind_def)

lemma pret_Inr: "(pret x ts = Inr (y, us)) = (y = x \<and> us = ts)"
  by (auto simp: pret_def)

lemma parsed_columns: "p_columns (parsers_at n) ts = Inr (xs, us) \<Longrightarrow> xs \<noteq> []"
  by (cases n) (auto simp: no_parsers_def pout_def deeper_def columnSpecs_def do_list_def pbind_Inr pret_Inr
      on_match_def pif_def split: if_splits)

lemma parsed_creates_column:
  assumes "parse_tokens ts = Inr st"
  shows "creates_column st"
proof -
  from assms obtain us where us: "statementBody (parsers_at (parse_depth ts)) ts = Inr (st, us)"
    by (auto simp: parse_tokens_def parseStatement_def res_simps pbind_Inr pif_def pret_Inr parse_error_def
        Let_def split: if_splits)
  have e: "parse_error m ts \<noteq> Inr x" for m and x :: "stmt \<times> token list"
    by (simp add: parse_error_def Let_def)
  show ?thesis
    using us e
    by (auto simp: statementBody_def Let_def parseInsert_def parseUpdate_def parseDelete_def parseDropTable_def
        parseCreateTable_def pbind_Inr pret_Inr creates_column_def dest: parsed_columns split: if_splits prod.splits)
qed

text \<open>
  C34: a query that succeeds leaves a well-formed catalog if it found one: every table is kept
  under its own name and has columns of its declared types, all of one length.
\<close>

theorem successful_queries_keep_the_catalog:
  assumes "wf_catalog cat" "query pw fuel sql cat = (cat', Inr r)" "qr_ok r"
  shows "wf_catalog cat'"
proof -
  consider "cat' = cat" | st r' where "parse_tokens (lr_tokens (tokenize sql)) = Inr st"
      "runStatement pw fuel st cat = (cat', r')" "caught r' = Inr r"
    using assms(2) by (auto simp: query_def Let_def split: if_splits sum.splits prod.splits)
  then show ?thesis
  proof cases
    case 2
    from 2(3) assms(3) have "r' = Inr r"
      by (auto simp: caught_def qr_ok_def makeError_def split: sum.splits if_splits)
    with keeps_catalog [OF assms(1) parsed_creates_column [OF 2(1)]] 2(2) show ?thesis by blast
  qed (use assms(1) in simp)
qed

theorem successful_queries_keep_the_catalog_witness:
  "\<exists>cat' r. query (\<lambda>x y. x) 9 ''DROP TABLE t'' demo_shop = (cat', Inr r) \<and> wf_catalog cat' \<and> cat_get cat' ''t'' = None"
proof -
  have "map (\<lambda>t. (tk_kind t, lexeme t)) (lr_tokens (tokenize ''DROP TABLE t''))
      = [(Ddl KW_DROP, ''DROP''), (Ddl KW_TABLE, ''TABLE''), (IDENT, ''t''), (END_OF_FILE, [])]"
    "lex_ok (tokenize ''DROP TABLE t'')" by code_simp+
  then obtain t u v w where ts: "lr_tokens (tokenize ''DROP TABLE t'') = [t, u, v, w]" "tk_kind t = Ddl KW_DROP"
    "tk_kind u = Ddl KW_TABLE" "tk_kind v = IDENT" "lexeme v = ''t''" "tk_kind w = END_OF_FILE" by auto
  let ?st = "StmtDropTable \<lparr>dt_schema = None, dt_name = ''t'', dt_ifExists = False\<rparr>"
  from ts have "parse_tokens (lr_tokens (tokenize ''DROP TABLE t'')) = Inr ?st"
    by (simp add: parse_tokens_def parseStatement_def statementBody_def parseDropTable_def current_def tok_peek_def
        pbind_def expect_def tok_check_def next_token_def tok_advance_def at_end_def qualifiedName_def name_of_def
        on_match_def pif_def pret_def tok_match_def Let_def)
  then have q: "query (\<lambda>x y. x) 9 ''DROP TABLE t'' demo_shop = (cat_remove ''t'' demo_shop, Inr empty_result)"
    using \<open>lex_ok _\<close> demo_shop_facts(2)
    by (simp add: query_def Let_def runDrop_def dropTable_def caught_def)
  have "wf_catalog (cat_remove ''t'' demo_shop)"
    by (rule successful_queries_keep_the_catalog [OF demo_shop_facts(1) q]) (simp add: qr_ok_def empty_result_def)
  moreover have "cat_get (cat_remove ''t'' demo_shop) ''t'' = None"
    using demo_shop_facts(1) by (simp add: wf_catalog_def cat.get_remove)
  ultimately show ?thesis using q by blast
qed

subsection \<open>Everything a client can do\<close>

text \<open>
  One call on the connection, whatever its outcome, with any text and any file. An INSERT that
  throws half-way and a corrupt file can leave columns of different lengths behind; names and
  column types are safe.
\<close>

inductive conn_step :: "(f64 \<Rightarrow> f64 \<Rightarrow> f64) \<Rightarrow> catalog \<Rightarrow> catalog \<Rightarrow> bool" for pw where
  step_query: "query pw fuel sql c = (c', r) \<Longrightarrow> conn_step pw c c'"
| step_import: "importCsv path file n delim header c = (c', r) \<Longrightarrow> conn_step pw c c'"
| step_load: "load_db path file c = (c', r) \<Longrightarrow> conn_step pw c c'"

definition typed_table :: "table \<Rightarrow> bool" where
  "typed_table t = (map c_type (t_cols t) = map cd_type (t_schema t))"

definition typed_catalog :: "catalog \<Rightarrow> bool" where
  "typed_catalog c = (distinct_names c \<and> (\<forall>n t. cat_get c n = Some t \<longrightarrow> t_name t = n \<and> typed_table t))"

lemma typed_put:
  "typed_catalog c \<Longrightarrow> typed_table t \<Longrightarrow> t_name t = n \<Longrightarrow> typed_catalog (cat_put n t c)"
  unfolding typed_catalog_def by (auto simp: cat.get_put cat.inv_put)

lemma typed_remove: "typed_catalog c \<Longrightarrow> typed_catalog (cat_remove n c)"
  unfolding typed_catalog_def by (auto simp: cat.get_remove cat.inv_remove)

lemma typed_new: "typed_table (table_new n s)"
  by (simp add: typed_table_def table_new_def)

lemma append_type: "column_append c v = Inr c' \<Longrightarrow> c_type c' = c_type c"
  by (auto simp: column_append_def column_pushNull_def column_push_valid_def res_simps split: if_splits kind.splits)

lemma insert_cols_types: "insert_cols cs vs = (cs', r) \<Longrightarrow> map c_type cs' = map c_type cs"
  by (induction cs vs arbitrary: cs' r rule: insert_cols.induct)
    (auto split: sum.splits prod.splits dest: append_type)

lemma insertRow_typed:
  "insertRow t r = (t', out) \<Longrightarrow> typed_table t \<Longrightarrow> typed_table t' \<and> t_schema t' = t_schema t \<and> t_name t' = t_name t"
  by (auto simp: insertRow_def typed_table_def split: if_splits prod.splits dest: insert_cols_types)

lemma insert_rows_typed:
  "insert_rows t ms = (t', out) \<Longrightarrow> typed_table t \<Longrightarrow> typed_table t' \<and> t_schema t' = t_schema t \<and> t_name t' = t_name t"
proof (induction t ms arbitrary: t' out rule: insert_rows.induct)
  case (2 t m ms)
  show ?case
  proof (cases m)
    case (Inr row)
    obtain u o1 where u: "insertRow t row = (u, o1)" by force
    note s = insertRow_typed [OF u "2.prems"(2)]
    show ?thesis
    proof (cases o1)
      case (Inr x)
      with "2.IH" [OF \<open>m = Inr row\<close> u [symmetric] Inr, of t' out] s "2.prems" u \<open>m = Inr row\<close>
      show ?thesis by simp
    qed (use s u "2.prems" \<open>m = Inr row\<close> in auto)
  qed (use "2.prems" in auto)
qed simp

lemma insert_values_typed:
  "insert_values pw ps n t rows = (t', out) \<Longrightarrow> typed_table t \<Longrightarrow> typed_table t' \<and> t_schema t' = t_schema t \<and> t_name t' = t_name t"
proof (induction rows arbitrary: t n)
  case (Cons es rows)
  obtain u o1 where u: "insert_rows t [fill_row (null_of (t_schema t)) (targets (t_schema t) ps)
      (map (evaluate pw [] []) es)] = (u, o1)" by force
  note s = insert_rows_typed [OF u Cons.prems(2)]
  from Cons.prems(1) u consider "t' = t" | "t' = u" | "insert_values pw ps (Suc n) u rows = (t', out)"
    unfolding insert_values.simps Let_def by (auto simp del: insert_rows.simps split: if_splits sum.splits)
  then show ?case using Cons.IH [of _ u] Cons.prems(2) s by cases auto
qed simp

lemma insert_select_typed:
  "insert_select ps t src = (t', out) \<Longrightarrow> typed_table t \<Longrightarrow> typed_table t' \<and> t_schema t' = t_schema t \<and> t_name t' = t_name t"
  unfolding insert_select_def Let_def
  by (auto dest: insert_rows_typed split: if_splits prod.splits sum.splits)

lemma rebuilt_typed:
  assumes "rebuiltTable n s rows = Inr t"
  shows "typed_table t \<and> t_name t = n"
proof -
  have "rfold insertRow_res t rows = Inr t' \<Longrightarrow> typed_table t \<Longrightarrow> typed_table t' \<and> t_name t' = t_name t" for t t'
  proof (induction rows arbitrary: t)
    case (Cons r rows)
    from Cons.prems(1) obtain u where u: "insertRow_res t r = Inr u" "rfold insertRow_res u rows = Inr t'"
      by (auto simp: res_simps)
    from u(1) obtain o1 where "insertRow t r = (u, o1)"
      by (auto simp: insertRow_res_def split: prod.splits sum.splits)
    with Cons.IH [OF u(2)] insertRow_typed [OF _ Cons.prems(2)] show ?case by force
  qed simp
  from this [of "table_new n s" t] assms typed_new [of n s] show ?thesis by (simp add: rebuiltTable_def)
qed

lemma bulk_types: "bulk_cols cs vss = Inr cs' \<Longrightarrow> map c_type cs' = map c_type cs"
proof (induction cs vss arbitrary: cs' rule: bulk_cols.induct)
  case (3 c cs vs vss)
  have "rfold column_append c vs = Inr d \<Longrightarrow> c_type d = c_type c" for c d
    by (induction vs arbitrary: c) (auto simp: res_simps dest: append_type)
  with 3 show ?case by (auto simp: res_simps)
qed auto

lemma csv_typed:
  assumes "readCsv path file name opt = Inr t"
  shows "typed_table t \<and> t_name t = name"
  using assms typed_new [of name]
  by (auto simp: readCsv_def readCsvString_def Let_def res_simps bulkInsertColumns_def typed_table_def
      table_new_def dest!: bulk_types split: option.splits if_splits)

lemma read_column_type: "read_column n c s = Inr (c', r) \<Longrightarrow> c_type c' = c_type c"
  by (cases "c_kind c") (auto simp: read_column_def res_simps column_restoreInt64_def column_restoreDouble_def
      column_restoreString_def)

lemma read_columns_types: "read_columns n cs s = Inr (cs', r) \<Longrightarrow> map c_type cs' = map c_type cs"
  by (induction n cs s arbitrary: cs' r rule: read_columns.induct)
    (fastforce simp: res_simps dest: read_column_type)+

lemma read_table_typed: "read_table s = Inr (t, r) \<Longrightarrow> typed_table t"
  using typed_new
  by (fastforce simp: read_table_def res_simps Let_def typed_table_def table_new_def dest: read_columns_types)

lemma load_typed:
  "load_tables n c s = (c', out) \<Longrightarrow> typed_catalog c \<Longrightarrow> typed_catalog c'"
proof (induction n arbitrary: c s)
  case (Suc n)
  show ?case
  proof (cases "read_table s")
    case (Inr tr)
    obtain t r where "tr = (t, r)" by force
    with Inr Suc show ?thesis
      by (auto simp: registerTable_def intro: typed_put dest: read_table_typed)
  qed (use Suc.prems in auto)
qed simp

lemma typed_get: "typed_catalog c \<Longrightarrow> cat_get c n = Some t \<Longrightarrow> typed_table t \<and> t_name t = n"
  by (simp add: typed_catalog_def)

lemma statement_typed:
  assumes "runStatement pw fuel st c = (c', out)" "typed_catalog c"
  shows "typed_catalog c'"
proof (cases st)
  case (StmtCreateTable ct)
  with assms show ?thesis
    by (auto simp: runCreate_def registerSchema_def intro!: typed_put typed_new)
next
  case (StmtDropTable dt)
  with assms show ?thesis by (auto simp: runDrop_def dropTable_def intro: typed_remove)
next
  case (StmtInsert ins)
  show ?thesis
  proof (cases "cat_get c (ins_table ins)")
    case None
    with assms StmtInsert show ?thesis by (simp add: runInsert_def getTable_def)
  next
    case (Some t)
    from assms(1) StmtInsert Some consider "c' = c"
      | ps src t' where "insert_select ps t src = (t', out)" "c' = cat_put (ins_table ins) t' c"
      | ps rows t' where "insert_values pw ps 0 t rows = (t', out)" "c' = cat_put (ins_table ins) t' c"
      by (auto simp: runInsert_def getTable_def writeTable_def split: sum.splits insert_source.splits prod.splits)
    then show ?thesis
      by cases (use assms(2) typed_get [OF assms(2) Some] in
        \<open>auto intro!: typed_put dest: insert_select_typed insert_values_typed\<close>)
  qed
next
  case (StmtUpdate u)
  with assms show ?thesis
    by (auto simp: runUpdate_def Let_def registerTable_def res_simps intro!: typed_put
        dest!: rebuilt_typed split: sum.splits prod.splits)
next
  case (StmtDelete d)
  with assms show ?thesis
    by (auto simp: runDelete_def Let_def registerTable_def res_simps intro!: typed_put
        dest!: rebuilt_typed split: sum.splits prod.splits)
qed (use assms in auto)

lemma step_typed: "conn_step pw c c' \<Longrightarrow> typed_catalog c \<Longrightarrow> typed_catalog c'"
proof (induction rule: conn_step.induct)
  case (step_query fuel sql c c' r)
  then show ?case
    by (auto simp: query_def Let_def intro: statement_typed split: if_splits sum.splits prod.splits)
next
  case (step_import path fl n delim header c c' r)
  then show ?case
    by (auto simp: importCsv_def registerTable_def intro!: typed_put dest!: csv_typed split: if_splits sum.splits)
next
  case (step_load path fl c c' r)
  then show ?case
    by (auto simp: load_db_def loadDatabase_def intro: load_typed split: option.splits sum.splits prod.splits)
qed

text \<open>
  C35: whatever texts are executed and whatever files are imported or loaded, in any order and with
  any outcome, the catalog holds every table under one name, its own, and every column has the
  type that the schema of its table declares.
\<close>

theorem reachable_catalogs_are_typed:
  "(conn_step pw)\<^sup>*\<^sup>* catalog_new c \<Longrightarrow> typed_catalog c"
proof (induction rule: rtranclp_induct)
  case base
  show ?case by (simp add: typed_catalog_def catalog_new_def cat_get_def distinct_names_def)
qed (rule step_typed)

theorem reachable_catalogs_are_typed_witness:
  "typed_catalog (fst (importCsv ''a.csv'' (Some ''x,y'') ''t'' CHR '','' True
     (fst (query (\<lambda>x y. x) 9 ''DROP TABLE'' catalog_new))))"
proof (rule reachable_catalogs_are_typed)
  let ?pw = "\<lambda>x y :: f64. x" and ?c = "fst (query (\<lambda>x y. x) 9 ''DROP TABLE'' catalog_new)"
  have "conn_step ?pw catalog_new ?c"
    by (rule conn_step.step_query [where r = "snd (query ?pw 9 ''DROP TABLE'' catalog_new)"]) simp
  moreover have "conn_step ?pw ?c (fst (importCsv ''a.csv'' (Some ''x,y'') ''t'' CHR '','' True ?c))"
    by (rule conn_step.step_import [where r = "snd (importCsv ''a.csv'' (Some ''x,y'') ''t'' CHR '','' True ?c)"]) simp
  ultimately show "(conn_step ?pw)\<^sup>*\<^sup>* catalog_new (fst (importCsv ''a.csv'' (Some ''x,y'') ''t'' CHR '','' True ?c))"
    by (rule rtranclp.rtrancl_into_rtrancl [OF r_into_rtranclp])
qed

subsection \<open>An INSERT that throws tears its table\<close>

text \<open>
  The second value of the row cannot be stored: the first column is one longer afterwards, so
  that the table has a row whose second value does not exist, and reading it is undefined.
\<close>

definition torn_table :: table where
  "torn_table = table_new ''t'' (addColumn (addColumn [] ''a'' (dt_int32 True)) ''b'' (dt_int32 True))"

definition torn_insert :: insert_stmt where
  "torn_insert = \<lparr>ins_table = ''t'', ins_schema = None, ins_columns = [],
     ins_source = InsertValues [[Literal (VI64 1), Literal (VStr ''x'')]]\<rparr>"

lemma throwing_insert_tears_the_table:
  "case runInsert (\<lambda>x y. x) 9 torn_insert (cat_put ''t'' torn_table catalog_new) of (c, out) \<Rightarrow>
     out = Inl (RuntimeError ''Value::toInt64: not an integer type'')
     \<and> (case cat_get c ''t'' of None \<Rightarrow> False | Some t \<Rightarrow>
          rowCount t = 1 \<and> table_getRow t 0 = Inl (Undefined ''vector index''))"
  by code_simp

end
