(* ===== verification/LQ_CApi.thy ===== *)
theory LQ_CApi
  imports LQ_Connection
begin

section \<open>The C API\<close>

text \<open>
  Model of \<open>src/api/c_api.cpp\<close> and \<open>litequery.h\<close>. A handle that may be NULL is an option; a
  database handle is the catalog of its connection. An out parameter is an argument that says
  whether the pointer is given and an optional value that says what was written. A result handle
  is a small state machine: a cursor over the rows of a finished query and a text buffer.
  Allocation succeeds. Lemmas: the states that a client can reach, and the loop over a result.
\<close>

datatype lq_status = LQ_OK | LQ_ERROR | LQ_MISUSE | LQ_RANGE
datatype lq_type = LQ_TYPE_NULL | LQ_TYPE_BOOL | LQ_TYPE_INT | LQ_TYPE_DOUBLE | LQ_TYPE_TEXT

record lq_result =
  res_result :: query_result
  cursor :: int
  textScratch :: string

definition lq_version :: string where
  "lq_version = ''0.2.0''"

definition lq_open :: catalog where
  "lq_open = catalog_new"

subsection \<open>Execution\<close>

definition result_new :: "query_result \<Rightarrow> lq_result" where
  "result_new r = \<lparr>res_result = r, cursor = - 1, textScratch = []\<rparr>"

text \<open>\<open>LQ_GUARD_STATUS\<close>: an exception becomes \<open>LQ_ERROR\<close> and nothing is written.\<close>

definition guarded :: "('a \<Rightarrow> lq_status \<times> 'b option) \<Rightarrow> 'a res \<Rightarrow> (lq_status \<times> 'b option) res" where
  "guarded f r = (case r of
       Inr x \<Rightarrow> Inr (f x)
     | Inl e \<Rightarrow> if is_exception e then Inr (LQ_ERROR, None) else Inl e)"

definition lq_query ::
    "(f64 \<Rightarrow> f64 \<Rightarrow> f64) \<Rightarrow> nat \<Rightarrow> catalog option \<Rightarrow> string option \<Rightarrow> catalog option \<times> lq_result res" where
  "lq_query pw fuel db sql =
     (case (db, sql) of
        (Some cat, Some s) \<Rightarrow> (case query pw fuel s cat of
            (cat', Inr r) \<Rightarrow> (Some cat', Inr (result_new r))
          | (cat', Inl e) \<Rightarrow> (Some cat',
              if is_exception e then Inr (result_new (makeError (what e))) else Inl e))
      | _ \<Rightarrow> (db, Inr (result_new (makeError ''null db or sql''))))"

text \<open>What a call reports: the status, with the number or else the message that it writes.\<close>

type_synonym report = "lq_status \<times> (nat + string) option"

definition reported :: "bool \<Rightarrow> bool \<Rightarrow> query_result \<Rightarrow> report" where
  "reported want_count want_error r =
     (if \<not> qr_ok r then (LQ_ERROR, if want_error then Some (Inr (qr_message r)) else None)
      else (LQ_OK, if want_count then Some (Inl (rowsAffected r)) else None))"

definition lq_exec ::
    "(f64 \<Rightarrow> f64 \<Rightarrow> f64) \<Rightarrow> nat \<Rightarrow> catalog option \<Rightarrow> string option \<Rightarrow> bool \<Rightarrow> bool
       \<Rightarrow> catalog option \<times> report res" where
  "lq_exec pw fuel db sql affected out_error =
     (case (db, sql) of
        (Some cat, Some s) \<Rightarrow> (case query pw fuel s cat of (cat', r) \<Rightarrow>
            (Some cat', guarded (reported affected out_error) r))
      | _ \<Rightarrow> (db, Inr (LQ_MISUSE, None)))"

definition lq_import_csv ::
    "catalog option \<Rightarrow> (string \<times> string option) option \<Rightarrow> string option \<Rightarrow> char \<Rightarrow> int \<Rightarrow> bool \<Rightarrow> bool
       \<Rightarrow> catalog option \<times> report res" where
  "lq_import_csv db path table_name delim has_header rows out_error =
     (case (db, path, table_name) of
        (Some cat, Some (p, contents), Some n) \<Rightarrow>
          (case importCsv p contents n (if delim \<noteq> CHR 0x00 then delim else CHR '','') (has_header \<noteq> 0) cat of
             (cat', r) \<Rightarrow> (Some cat', guarded (reported rows out_error) r))
      | _ \<Rightarrow> (db, Inr (LQ_MISUSE, None)))"

text \<open>\<open>lq_save\<close> with the bytes of the file, if it was written.\<close>

definition lq_save ::
    "bool \<Rightarrow> bool \<Rightarrow> catalog option \<Rightarrow> string option \<Rightarrow> bool \<Rightarrow> string option \<times> report res" where
  "lq_save opens written db path out_error =
     (case (db, path) of
        (Some cat, Some p) \<Rightarrow> (case save_db opens written p cat of (bytes, r) \<Rightarrow>
            (bytes, guarded (reported False out_error) r))
      | _ \<Rightarrow> (None, Inr (LQ_MISUSE, None)))"

definition lq_load ::
    "catalog option \<Rightarrow> (string \<times> string option) option \<Rightarrow> bool \<Rightarrow> catalog option \<times> report res" where
  "lq_load db path out_error =
     (case (db, path) of
        (Some cat, Some (p, contents)) \<Rightarrow> (case load_db p contents cat of (cat', r) \<Rightarrow>
            (Some cat', guarded (reported False out_error) r))
      | _ \<Rightarrow> (db, Inr (LQ_MISUSE, None)))"

subsection \<open>Inspection\<close>

definition lq_result_ok :: "lq_result option \<Rightarrow> bool" where
  "lq_result_ok res = (case res of None \<Rightarrow> False | Some h \<Rightarrow> qr_ok (res_result h))"

definition lq_result_error :: "lq_result option \<Rightarrow> string" where
  "lq_result_error res = (case res of None \<Rightarrow> ''null result'' | Some h \<Rightarrow> qr_message (res_result h))"

definition lq_result_column_count :: "lq_result option \<Rightarrow> nat" where
  "lq_result_column_count res = (case res of None \<Rightarrow> 0 | Some h \<Rightarrow> length (qr_schema (res_result h)))"

definition lq_result_row_count :: "lq_result option \<Rightarrow> nat" where
  "lq_result_row_count res = (case res of None \<Rightarrow> 0 | Some h \<Rightarrow> length (qr_rows (res_result h)))"

definition lq_result_rows_affected :: "lq_result option \<Rightarrow> nat" where
  "lq_result_rows_affected res = (case res of None \<Rightarrow> 0 | Some h \<Rightarrow> rowsAffected (res_result h))"

definition lq_result_column_name :: "lq_result option \<Rightarrow> nat \<Rightarrow> string" where
  "lq_result_column_name res col = (case res of None \<Rightarrow> [] | Some h \<Rightarrow>
     if length (qr_schema (res_result h)) \<le> col then [] else cd_name (qr_schema (res_result h) ! col))"

subsection \<open>Iteration and values\<close>

definition hasCurrentRow :: "lq_result \<Rightarrow> bool" where
  "hasCurrentRow h = (0 \<le> cursor h \<and> nat (cursor h) < length (qr_rows (res_result h)))"

definition current_row :: "lq_result \<Rightarrow> row" where
  "current_row h = qr_rows (res_result h) ! nat (cursor h)"

definition currentValue :: "lq_result \<Rightarrow> nat \<Rightarrow> value option" where
  "currentValue h col =
     (if \<not> hasCurrentRow h then None
      else if length (current_row h) \<le> col then None else Some (current_row h ! col))"

definition lq_result_next :: "lq_result \<Rightarrow> bool \<times> lq_result" where
  "lq_result_next h =
     (let n = int (length (qr_rows (res_result h))) in
      if \<not> qr_ok (res_result h) then (False, h)
      else if n \<le> cursor h + 1 then (False, h\<lparr>cursor := n\<rparr>)
      else (True, h\<lparr>cursor := cursor h + 1\<rparr>))"

definition lq_result_reset :: "lq_result \<Rightarrow> lq_result" where
  "lq_result_reset h = h\<lparr>cursor := - 1\<rparr>"

definition lq_result_column_type :: "lq_result \<Rightarrow> nat \<Rightarrow> lq_type" where
  "lq_result_column_type h col = (case currentValue h col of
       None \<Rightarrow> LQ_TYPE_NULL
     | Some v \<Rightarrow> if isNull v then LQ_TYPE_NULL else (case typeId v of
           BOOLEAN \<Rightarrow> LQ_TYPE_BOOL
         | INT8 \<Rightarrow> LQ_TYPE_INT | INT16 \<Rightarrow> LQ_TYPE_INT | INT32 \<Rightarrow> LQ_TYPE_INT | INT64 \<Rightarrow> LQ_TYPE_INT
         | FLOAT32 \<Rightarrow> LQ_TYPE_DOUBLE | FLOAT64 \<Rightarrow> LQ_TYPE_DOUBLE
         | _ \<Rightarrow> LQ_TYPE_TEXT))"

definition lq_result_is_null :: "lq_result \<Rightarrow> nat \<Rightarrow> bool" where
  "lq_result_is_null h col = (case currentValue h col of None \<Rightarrow> True | Some v \<Rightarrow> isNull v)"

text \<open>The frame that the typed getters share around the conversion of a value.\<close>

definition getter ::
    "(value \<Rightarrow> 'a res) \<Rightarrow> lq_result \<Rightarrow> nat \<Rightarrow> bool \<Rightarrow> (lq_status \<times> 'a option) res" where
  "getter conv h col out =
     (if \<not> out then Inr (LQ_MISUSE, None)
      else if \<not> hasCurrentRow h then Inr (LQ_ERROR, None)
      else case currentValue h col of
          None \<Rightarrow> Inr (LQ_RANGE, None)
        | Some v \<Rightarrow> guarded (\<lambda>x. (LQ_OK, Some x)) (conv v))"

definition lq_result_get_int :: "lq_result \<Rightarrow> nat \<Rightarrow> bool \<Rightarrow> (lq_status \<times> 64 word option) res" where
  "lq_result_get_int = getter (\<lambda>v.
     if isNull v then Inr 0
     else if typeIsInteger (typeId v) then toInt64 v else rbind (toDouble v) f64_to_i64)"

definition lq_result_get_double :: "lq_result \<Rightarrow> nat \<Rightarrow> bool \<Rightarrow> (lq_status \<times> f64 option) res" where
  "lq_result_get_double = getter (\<lambda>v. if isNull v then Inr (f64_zero False) else toDouble v)"

definition lq_result_get_bool :: "lq_result \<Rightarrow> nat \<Rightarrow> bool \<Rightarrow> (lq_status \<times> bool option) res" where
  "lq_result_get_bool = getter (\<lambda>v.
     if isNull v then Inr False
     else if typeId v = BOOLEAN then getBool v else rmap f64_nonzero (toDouble v))"

definition lq_result_get_text :: "lq_result \<Rightarrow> nat \<Rightarrow> string \<times> lq_result" where
  "lq_result_get_text h col = (case currentValue h col of
       None \<Rightarrow> ([], h)
     | Some v \<Rightarrow> if isNull v then ([], h)
         else let s = (case if typeId v = VARCHAR then getString v else Inr (value_string v) of
                         Inr s \<Rightarrow> s | Inl e \<Rightarrow> [])
              in (s, h\<lparr>textScratch := s\<rparr>))"

subsection \<open>The states of a result\<close>

text \<open>What a client may do with a result handle.\<close>

inductive result_step :: "lq_result \<Rightarrow> lq_result \<Rightarrow> bool" where
  step_next: "lq_result_next h = (b, h') \<Longrightarrow> result_step h h'"
| step_reset: "result_step h (lq_result_reset h)"
| step_text: "lq_result_get_text h col = (s, h') \<Longrightarrow> result_step h h'"

definition wf_result :: "query_result \<Rightarrow> lq_result \<Rightarrow> bool" where
  "wf_result r h = (res_result h = r \<and> - 1 \<le> cursor h \<and> cursor h \<le> int (length (qr_rows r)))"

inductive_cases result_stepE: "result_step h h'"

lemma result_step_wf: "result_step h h' \<Longrightarrow> wf_result r h \<Longrightarrow> wf_result r h'"
  by (elim result_stepE)
    (auto simp: wf_result_def lq_result_next_def lq_result_reset_def lq_result_get_text_def Let_def
      split: if_splits option.splits)

text \<open>
  C36: however a client moves through a result, the cursor stays between the position before the
  first row and the one behind the last, and the rows never change; so an accessor is served
  exactly while the cursor is on a row, and with a column that the row has.
\<close>

theorem cursor_stays_in_range:
  assumes "result_step\<^sup>*\<^sup>* (result_new r) h"
  shows "res_result h = r \<and> - 1 \<le> cursor h \<and> cursor h \<le> int (length (qr_rows r))
    \<and> (currentValue h col = None) = (cursor h = - 1 \<or> cursor h = int (length (qr_rows r))
        \<or> length (qr_rows r ! nat (cursor h)) \<le> col)"
proof -
  from assms have "wf_result r h"
    by (induction rule: rtranclp_induct) (auto simp: result_new_def wf_result_def dest: result_step_wf [of _ _ r])
  then show ?thesis
    by (auto simp: wf_result_def currentValue_def hasCurrentRow_def current_row_def)
qed

theorem cursor_stays_in_range_witness:
  "let r = empty_result\<lparr>qr_rows := [[VI64 7]]\<rparr>; h = snd (lq_result_next (result_new r))
   in res_result h = r \<and> - 1 \<le> cursor h \<and> cursor h \<le> 1 \<and> currentValue h 0 = Some (VI64 7)"
proof -
  let ?r = "empty_result\<lparr>qr_rows := [[VI64 7]]\<rparr>"
  let ?h = "snd (lq_result_next (result_new ?r))"
  have "result_step\<^sup>*\<^sup>* (result_new ?r) ?h"
    by (rule r_into_rtranclp, rule step_next [where b = "fst (lq_result_next (result_new ?r))"]) simp
  from cursor_stays_in_range [OF this, of 0] have
    "res_result ?h = ?r" "- 1 \<le> cursor ?h" "cursor ?h \<le> 1" "currentValue ?h 0 \<noteq> None"
    by (auto simp: lq_result_next_def result_new_def empty_result_def qr_ok_def)
  moreover have "currentValue ?h 0 = Some (VI64 7)" by code_simp
  ultimately show ?thesis by simp
qed

text \<open>The loop \<open>while (lq_result_next(res)) ...\<close> of a client, with the rows that its body sees.\<close>

fun client_loop :: "nat \<Rightarrow> lq_result \<Rightarrow> row list \<times> lq_result option" where
  "client_loop 0 h = ([], None)"
| "client_loop (Suc n) h =
     (case lq_result_next h of
        (False, h') \<Rightarrow> ([], Some h')
      | (True, h') \<Rightarrow> (case client_loop n h' of (rows, out) \<Rightarrow> (current_row h' # rows, out)))"

lemma client_loop_from:
  assumes "wf_result r h" "qr_ok r" "length (qr_rows r) - nat (cursor h + 1) < n"
  shows "client_loop n h = (drop (nat (cursor h + 1)) (qr_rows r), Some (h\<lparr>cursor := int (length (qr_rows r))\<rparr>))"
  using assms
proof (induction n arbitrary: h)
  case 0
  then show ?case by simp
next
  case (Suc n)
  show ?case
  proof (cases "int (length (qr_rows r)) \<le> cursor h + 1")
    case True
    with Suc.prems show ?thesis by (simp add: lq_result_next_def wf_result_def Let_def)
  next
    case False
    let ?h = "h\<lparr>cursor := cursor h + 1\<rparr>"
    from False Suc.prems have next1: "lq_result_next h = (True, ?h)" and wf: "wf_result r ?h"
      by (simp_all add: lq_result_next_def wf_result_def Let_def)
    have at: "nat (cursor ?h + 1) = Suc (nat (cursor h + 1))" "nat (cursor h + 1) < length (qr_rows r)"
      using Suc.prems False by (auto simp: wf_result_def)
    have "client_loop n ?h = (drop (nat (cursor ?h + 1)) (qr_rows r), Some (?h\<lparr>cursor := int (length (qr_rows r))\<rparr>))"
      using wf Suc.prems at by (intro Suc.IH) simp_all
    moreover have "current_row ?h = qr_rows r ! nat (cursor h + 1)"
      using wf by (simp add: current_row_def wf_result_def)
    ultimately show ?thesis
      using next1 at by (simp add: Cons_nth_drop_Suc)
  qed
qed

text \<open>
  C37: the loop over the result of a successful query ends, and its body sees every row once, in
  their order; from then on there is no current row until the cursor is reset.
\<close>

theorem client_loop_visits_every_row:
  assumes "qr_ok r" "result_step\<^sup>*\<^sup>* (result_new r) h" "length (qr_rows r) < n"
  shows "\<exists>h'. client_loop n (lq_result_reset h) = (qr_rows r, Some h') \<and> \<not> hasCurrentRow h'"
proof -
  from assms(2) have "wf_result r h"
    by (induction rule: rtranclp_induct) (auto simp: result_new_def wf_result_def dest: result_step_wf [of _ _ r])
  then have "wf_result r (lq_result_reset h)" by (simp add: wf_result_def lq_result_reset_def)
  from client_loop_from [OF this assms(1), of n] assms(3) show ?thesis
    using \<open>wf_result r h\<close> by (simp add: lq_result_reset_def hasCurrentRow_def wf_result_def)
qed

theorem client_loop_visits_every_row_witness:
  "\<exists>h'. client_loop 3 (lq_result_reset (result_new (empty_result\<lparr>qr_rows := [[VNull], [VI64 7]]\<rparr>)))
      = ([[VNull], [VI64 7]], Some h') \<and> \<not> hasCurrentRow h'"
  using client_loop_visits_every_row [of "empty_result\<lparr>qr_rows := [[VNull], [VI64 7]]\<rparr>"
      "result_new (empty_result\<lparr>qr_rows := [[VNull], [VI64 7]]\<rparr>)" 3]
  by (simp add: qr_ok_def empty_result_def)

subsection \<open>Statuses\<close>

lemma query_no_exception: "query pw fuel s c = (c', Inl e) \<Longrightarrow> \<not> is_exception e"
  by (auto simp: query_def Let_def caught_def split: if_splits sum.splits prod.splits)

text \<open>
  C38: \<open>lq_exec\<close> does to the database what \<open>lq_query\<close> does and reports what the accessors of its
  result say: the status, the rows affected or the message, each written only where asked for; a
  missing handle or text is misuse and touches nothing, and no exception crosses the boundary.
\<close>

theorem exec_reports_the_query:
  "case lq_query pw fuel db sql of
     (db', Inl e) \<Rightarrow> lq_exec pw fuel db sql a w = (db', Inl e) \<and> \<not> is_exception e
   | (db', Inr h) \<Rightarrow> lq_exec pw fuel db sql a w = (db', Inr (
       if db = None \<or> sql = None then (LQ_MISUSE, None)
       else if lq_result_ok (Some h) then (LQ_OK, if a then Some (Inl (lq_result_rows_affected (Some h))) else None)
       else (LQ_ERROR, if w then Some (Inr (lq_result_error (Some h))) else None)))"
proof (cases "db = None \<or> sql = None")
  case True
  then show ?thesis by (auto simp: lq_query_def lq_exec_def split: option.splits)
next
  case False
  then obtain c s where "db = Some c" "sql = Some s" by auto
  moreover obtain c' r where "query pw fuel s c = (c', r)" by force
  ultimately show ?thesis
    using query_no_exception [of pw fuel s c c']
    by (cases r) (auto simp: lq_query_def lq_exec_def guarded_def reported_def lq_result_ok_def
        lq_result_rows_affected_def lq_result_error_def result_new_def)
qed

text \<open>The type of a value says which getter serves it; NULL is served as zero.\<close>

lemma getters_match_types:
  assumes "hasCurrentRow h" "col < length (current_row h)"
  shows "lq_result_column_type h col = LQ_TYPE_INT \<Longrightarrow> \<exists>x. lq_result_get_int h col True = Inr (LQ_OK, Some x)"
    and "lq_result_column_type h col = LQ_TYPE_DOUBLE \<Longrightarrow> \<exists>x. lq_result_get_double h col True = Inr (LQ_OK, Some x)"
    and "lq_result_column_type h col = LQ_TYPE_BOOL \<Longrightarrow> \<exists>b. lq_result_get_bool h col True = Inr (LQ_OK, Some b)"
    and "lq_result_column_type h col = LQ_TYPE_TEXT \<Longrightarrow> lq_result_get_int h col True = Inr (LQ_ERROR, None)"
    and "lq_result_column_type h col = LQ_TYPE_NULL \<Longrightarrow> lq_result_get_int h col True = Inr (LQ_OK, Some 0)"
  using assms
  by (cases "current_row h ! col"; simp add: lq_result_column_type_def lq_result_get_int_def
      lq_result_get_double_def lq_result_get_bool_def getter_def currentValue_def guarded_def is_exception_def)+

end
