(* ===== verification/LQ_Shell.thy ===== *)
theory LQ_Shell
  imports LQ_Connection
begin

section \<open>The shell\<close>

text \<open>
  Model of \<open>src/tools/lq_shell.cpp\<close>. The state is the connection's catalog, the settings, the
  buffer of the statement being typed, and what was written to \<open>cout\<close> and \<open>cerr\<close>; it also holds
  the contents of the files that exist. What the environment decides is a record of parameters:
  how an \<open>ostream\<close> prints a double, the elapsed microseconds of a query, whether a file can
  be opened for writing and is written, and what is left in it (\<open>env_left\<close>) when it could be opened,
  which truncates it, but not written. A file that reads files is followed to a given depth.
  Lemmas: a JSON string is read back by a strict reader as the text it came from, and what \<open>runBuffer\<close> makes of a
  text: the statements are the text cut behind every semicolon.
\<close>

record env =
  env_pw :: "f64 \<Rightarrow> f64 \<Rightarrow> f64"
  env_fuel :: nat
  env_double :: "f64 \<Rightarrow> string"
  env_micros :: "string \<Rightarrow> nat"
  env_opens :: "string \<Rightarrow> bool"
  env_written :: "string \<Rightarrow> bool"
  env_left :: "string \<Rightarrow> string"

datatype mode = Table | Csv | Json | List

record shell =
  sh_cat :: catalog
  sh_files :: "string \<Rightarrow> string option"
  sh_style :: bool
  sh_mode :: mode
  sh_timing :: bool
  sh_interactive :: bool
  sh_pending :: string
  sh_out :: string
  sh_err :: string

definition put :: "string \<Rightarrow> shell \<Rightarrow> shell" where
  "put s sh = sh\<lparr>sh_out := sh_out sh @ s\<rparr>"

definition warn :: "string \<Rightarrow> shell \<Rightarrow> shell" where
  "warn s sh = sh\<lparr>sh_err := sh_err sh @ s\<rparr>"

subsection \<open>Style\<close>

definition esc :: "bool \<Rightarrow> string \<Rightarrow> string" where
  "esc on code = (if on then CHR 0x1B # code else [])"

definition dim :: "bool \<Rightarrow> string" where "dim on = esc on ''[2m''"
definition bold :: "bool \<Rightarrow> string" where "bold on = esc on ''[1m''"
definition accent :: "bool \<Rightarrow> string" where "accent on = esc on ''[33m''"
definition red :: "bool \<Rightarrow> string" where "red on = esc on ''[31m''"
definition green :: "bool \<Rightarrow> string" where "green on = esc on ''[32m''"
definition style_reset :: "bool \<Rightarrow> string" where "style_reset on = esc on ''[0m''"

subsection \<open>Cells\<close>

definition cell :: "(f64 \<Rightarrow> string) \<Rightarrow> value \<Rightarrow> string res" where
  "cell fmt v =
     (if isNull v then Inr ''NULL''
      else if typeId v = VARCHAR then getString v
      else if typeId v = BOOLEAN then rmap (\<lambda>b. if b then ''true'' else ''false'') (getBool v)
      else if typeIsInteger (typeId v) then rmap (\<lambda>i. int_string (sint i)) (toInt64 v)
      else if typeIsFloat (typeId v) then rmap fmt (toDouble v)
      else Inr (value_string v))"

definition backslash :: char where "backslash = CHR 0x5C"

definition json_char :: "char \<Rightarrow> string" where
  "json_char c =
     (if c = dquote then [backslash, dquote]
      else if c = backslash then [backslash, backslash]
      else if c = CHR 0x0A then [backslash, CHR ''n'']
      else if c = CHR 0x09 then [backslash, CHR ''t'']
      else if c = CHR 0x0D then [backslash, CHR ''r'']
      else [c])"

definition jsonEscape :: "string \<Rightarrow> string" where
  "jsonEscape s = concat (map json_char s)"

subsection \<open>Result sets\<close>

text \<open>The first \<open>n\<close> values of a row.\<close>

definition row_cells :: "nat \<Rightarrow> (value \<Rightarrow> 'a res) \<Rightarrow> row \<Rightarrow> 'a list res" where
  "row_cells n f row = rmapM (\<lambda>c. rbind (vec_at row c) f) [0..<n]"

definition table_rule :: "bool \<Rightarrow> nat list \<Rightarrow> string \<Rightarrow> string \<Rightarrow> string \<Rightarrow> string" where
  "table_rule on w l m rt =
     dim on @ l
     @ joined m (map (\<lambda>k. concat (replicate (k + 2) [CHR 0xE2, CHR 0x94, CHR 0x80])) w) @ (if w = [] then [] else rt)
     @ style_reset on @ newline"

definition bar :: string where "bar = [CHR 0xE2, CHR 0x94, CHR 0x82]"

definition table_row :: "bool \<Rightarrow> nat list \<Rightarrow> string list \<Rightarrow> bool \<Rightarrow> string" where
  "table_row on w cells head =
     dim on @ bar @ style_reset on
     @ concat (map2 (\<lambda>k c. '' '' @ (if head then bold on @ accent on else []) @ c
         @ (if head then style_reset on else []) @ replicate (k - length c) CHR '' ''
         @ '' '' @ dim on @ bar @ style_reset on) w cells)
     @ newline"

definition printTable :: "bool \<Rightarrow> (f64 \<Rightarrow> string) \<Rightarrow> query_result \<Rightarrow> string res" where
  "printTable on fmt r =
     (let headers = map cd_name (qr_schema r); nc = length headers in
      rmap (\<lambda>body.
        let w = map (\<lambda>c. fold max (map (\<lambda>b. length (b ! c)) body) (length (headers ! c))) [0..<nc];
            box = (\<lambda>x. [CHR 0xE2, CHR 0x94, x])
        in table_rule on w (box CHR 0x8C) (box CHR 0xAC) (box CHR 0x90)
           @ table_row on w headers True
           @ table_rule on w (box CHR 0x9C) (box CHR 0xBC) (box CHR 0xA4)
           @ concat (map (\<lambda>b. table_row on w b False) body)
           @ table_rule on w (box CHR 0x94) (box CHR 0xB4) (box CHR 0x98))
        (rmapM (row_cells nc (cell fmt)) (qr_rows r)))"

definition shell_csv :: "(f64 \<Rightarrow> string) \<Rightarrow> query_result \<Rightarrow> string res" where
  "shell_csv fmt r =
     (let headers = map cd_name (qr_schema r) in
      rmap (\<lambda>body. printCsv (headers # body)) (rmapM (row_cells (length headers) (cell fmt)) (qr_rows r)))"

definition json_value :: "(f64 \<Rightarrow> string) \<Rightarrow> value \<Rightarrow> string res" where
  "json_value fmt v =
     (if isNull v then Inr ''null''
      else if typeId v = VARCHAR then rmap (\<lambda>s. [dquote] @ jsonEscape s @ [dquote]) (getString v)
      else if typeId v = BOOLEAN then rmap (\<lambda>b. if b then ''true'' else ''false'') (getBool v)
      else cell fmt v)"

definition json_row :: "string list \<Rightarrow> string list \<Rightarrow> string" where
  "json_row headers vs =
     ''{'' @ joined '', '' (map2 (\<lambda>h v. [dquote] @ jsonEscape h @ [dquote] @ '': '' @ v) headers vs) @ ''}''"

definition printJson :: "(f64 \<Rightarrow> string) \<Rightarrow> query_result \<Rightarrow> string res" where
  "printJson fmt r =
     (let headers = map cd_name (qr_schema r) in
      rmap (\<lambda>body.
        ''['' @ (if body = [] then '']'' else newline @ '' '' @ joined ('','' @ newline @ '' '') (map (json_row headers) body)
          @ newline @ '']'') @ newline)
        (rmapM (row_cells (length headers) (json_value fmt)) (qr_rows r)))"

definition printList :: "(f64 \<Rightarrow> string) \<Rightarrow> query_result \<Rightarrow> string res" where
  "printList fmt r =
     rmap (\<lambda>body. concat (map (\<lambda>b. joined ''|'' b @ newline) body))
       (rmapM (row_cells (length (qr_schema r)) (cell fmt)) (qr_rows r))"

definition plural :: "nat \<Rightarrow> string" where
  "plural n = nat_string n @ '' row'' @ (if n = 1 then [] else ''s'')"

definition middle_dot :: string where "middle_dot = [CHR 0xC2, CHR 0xB7]"
definition micro :: string where "micro = [CHR 0xC2, CHR 0xB5]"

definition error_line :: "bool \<Rightarrow> string \<Rightarrow> string" where
  "error_line on msg = red on @ ''Error: '' @ style_reset on @ msg @ newline"

definition printResult :: "env \<Rightarrow> nat \<Rightarrow> query_result \<Rightarrow> shell \<Rightarrow> shell res" where
  "printResult E us r sh =
     (let on = sh_style sh in
      if qr_error r then Inr (warn (error_line on (qr_message r)) sh)
      else if qr_schema r = [] then
        Inr (if sh_interactive sh then
               put (green on @ ''OK'' @ style_reset on
                 @ (if rowsAffected r \<noteq> 0
                    then dim on @ ''  ('' @ plural (rowsAffected r) @ '' affected)'' @ style_reset on else [])
                 @ newline) sh
             else sh)
      else rmap (\<lambda>s.
          put (s @ (if sh_interactive sh \<and> sh_timing sh
                    then dim on @ plural (length (qr_rows r)) @ ''  '' @ middle_dot @ ''  '' @ nat_string us @ '' ''
                      @ micro @ ''s'' @ style_reset on @ newline
                    else [])) sh)
        (case sh_mode sh of
           Table \<Rightarrow> printTable on (env_double E) r
         | Csv \<Rightarrow> shell_csv (env_double E) r
         | Json \<Rightarrow> printJson (env_double E) r
         | List \<Rightarrow> printList (env_double E) r))"

subsection \<open>Execution\<close>

definition is_space4 :: "char \<Rightarrow> bool" where
  "is_space4 c = (c = CHR '' '' \<or> c = CHR 0x09 \<or> c = CHR 0x0D \<or> c = CHR 0x0A)"

definition trim :: "string \<Rightarrow> string" where
  "trim s = rev (dropWhile is_space4 (rev (dropWhile is_space4 s)))"

definition runSql :: "env \<Rightarrow> string \<Rightarrow> shell \<Rightarrow> shell res" where
  "runSql E sql sh =
     (case query (env_pw E) (env_fuel E) sql (sh_cat sh) of
        (cat', r) \<Rightarrow> rbind r (\<lambda>q. printResult E (env_micros E sql) q (sh\<lparr>sh_cat := cat'\<rparr>)))"

text \<open>The loop of \<open>runBuffer\<close>, with the statement so far.\<close>

fun buffer_loop :: "env \<Rightarrow> string \<Rightarrow> string \<Rightarrow> shell \<Rightarrow> shell res" where
  "buffer_loop E stmt [] sh = (let tail = trim stmt in if tail \<noteq> [] then runSql E tail sh else Inr sh)"
| "buffer_loop E stmt (c # buf) sh =
     (let stmt' = stmt @ [c] in
      if c = CHR '';'' then
        (let trimmed = trim stmt' in
         rbind (if trimmed \<noteq> [] \<and> trimmed \<noteq> '';'' then runSql E trimmed sh else Inr sh)
           (\<lambda>sh'. buffer_loop E [] buf sh'))
      else buffer_loop E stmt' buf sh)"

definition runBuffer :: "env \<Rightarrow> string \<Rightarrow> shell \<Rightarrow> shell res" where
  "runBuffer E buf sh = buffer_loop E [] buf sh"

text \<open>\<open>feedLine\<close> over the dot-command that it may run; False asks the caller to stop.\<close>

definition feedLine ::
    "(string \<Rightarrow> shell \<Rightarrow> (shell \<times> bool) res) \<Rightarrow> env \<Rightarrow> string \<Rightarrow> shell \<Rightarrow> (shell \<times> bool) res" where
  "feedLine dot E line sh =
     (let t = trim line in
      if sh_pending sh = [] \<and> t \<noteq> [] \<and> hd t = CHR ''.'' then dot t sh
      else let sh1 = sh\<lparr>sh_pending := sh_pending sh @ line @ newline\<rparr> in
        if CHR '';'' \<in> set line
        then rmap (\<lambda>sh2. (sh2\<lparr>sh_pending := []\<rparr>, True)) (runBuffer E (sh_pending sh1) sh1)
        else Inr (sh1, True))"

definition flushPending :: "env \<Rightarrow> shell \<Rightarrow> shell res" where
  "flushPending E sh =
     rmap (\<lambda>sh'. sh'\<lparr>sh_pending := []\<rparr>)
       (if trim (sh_pending sh) \<noteq> [] then runBuffer E (sh_pending sh) sh else Inr sh)"

fun feed_lines ::
    "(string \<Rightarrow> shell \<Rightarrow> (shell \<times> bool) res) \<Rightarrow> env \<Rightarrow> string list \<Rightarrow> shell \<Rightarrow> shell res" where
  "feed_lines dot E [] sh = Inr sh"
| "feed_lines dot E (l # ls) sh =
     rbind (feedLine dot E l sh) (\<lambda>(sh', go). if go then feed_lines dot E ls sh' else Inr sh')"

text \<open>\<open>std::getline\<close> until it fails.\<close>

fun getlines :: "string \<Rightarrow> string \<Rightarrow> string list" where
  "getlines l [] = (if l = [] then [] else [l])"
| "getlines l (c # s) = (if c = CHR 0x0A then l # getlines [] s else getlines (l @ [c]) s)"

subsection \<open>Dot-commands\<close>

text \<open>\<open>is >> word\<close>: the next word and what is left.\<close>

definition next_word :: "string \<Rightarrow> string \<times> string" where
  "next_word s = (let t = dropWhile isspace s in
     (takeWhile (\<lambda>c. \<not> isspace c) t, dropWhile (\<lambda>c. \<not> isspace c) t))"

definition help_text :: "string list" where
  "help_text =
    [''.help                 show this help'',
     ''.tables               list tables'',
     ''.schema [table]       show CREATE-like column list'',
     ''.import FILE TABLE     load a CSV file into a new table'',
     ''.import -t FILE TABLE  same, but tab-separated (TSV)'',
     ''.save FILE            save the database to a file'',
     ''.open FILE            load a database from a file'',
     ''.mode MODE            output mode: table | csv | json | list'',
     ''.timing on|off        toggle the timing footer'',
     ''.read FILE            execute SQL from a file'',
     ''.quit                 exit'']"

definition text_lines :: "string list \<Rightarrow> string" where
  "text_lines ls = concat (map (\<lambda>l. l @ newline) ls)"

definition file_outcome :: "query_result \<Rightarrow> string \<Rightarrow> shell \<Rightarrow> shell" where
  "file_outcome r unit sh =
     (let on = sh_style sh in
      if qr_error r then warn (error_line on (qr_message r)) sh
      else put (green on @ ''OK'' @ style_reset on @ dim on @ ''  ('' @ nat_string (rowsAffected r) @ unit @ '')''
             @ style_reset on @ newline) sh)"

definition cmd_save :: "env \<Rightarrow> string \<Rightarrow> shell \<Rightarrow> shell res" where
  "cmd_save E path sh =
     (case save_db (env_opens E path) (env_written E path) path (sh_cat sh) of
        (bytes, r) \<Rightarrow> rmap (\<lambda>q. file_outcome q '' tables''
          (case bytes of
             Some bs \<Rightarrow> sh\<lparr>sh_files := (sh_files sh)(path \<mapsto> bs)\<rparr>
           | None \<Rightarrow> if env_opens E path then sh\<lparr>sh_files := (sh_files sh)(path \<mapsto> env_left E path)\<rparr> else sh)) r)"

definition cmd_open :: "string \<Rightarrow> shell \<Rightarrow> shell res" where
  "cmd_open path sh =
     (case load_db path (sh_files sh path) (sh_cat sh) of
        (cat', r) \<Rightarrow> rmap (\<lambda>q. file_outcome q '' tables'' (sh\<lparr>sh_cat := cat'\<rparr>)) r)"

definition cmd_import :: "string \<Rightarrow> shell \<Rightarrow> shell res" where
  "cmd_import args sh =
     (let (a1, r1) = next_word args; (a2, r2) = next_word r1;
          (path, table, delim) = (if a1 = ''-t'' then (a2, fst (next_word r2), CHR 0x09) else (a1, a2, CHR '',''))
      in if path = [] \<or> table = [] then Inr (warn (text_lines [''usage: .import [-t] FILE TABLE'']) sh)
         else case importCsv path (sh_files sh path) table delim True (sh_cat sh) of
            (cat', r) \<Rightarrow> rmap (\<lambda>q. file_outcome q ('' rows into '' @ table) (sh\<lparr>sh_cat := cat'\<rparr>)) r)"

definition cmd_tables :: "shell \<Rightarrow> shell" where
  "cmd_tables sh =
     (let names = sort (tableNames (sh_cat sh)); on = sh_style sh in
      put (if names = [] then dim on @ ''(no tables)'' @ style_reset on @ newline else text_lines names) sh)"

definition schema_lines :: "bool \<Rightarrow> string \<Rightarrow> schema \<Rightarrow> string" where
  "schema_lines on n s =
     accent on @ ''CREATE TABLE '' @ n @ style_reset on @ '' ('' @ newline
     @ joined ('','' @ newline) (map (\<lambda>c. ''  '' @ cd_name c @ '' '' @ data_type_string (cd_type c)) s)
     @ (if s = [] then [] else newline) @ '');'' @ newline"

definition cmd_schema :: "string \<Rightarrow> shell \<Rightarrow> shell res" where
  "cmd_schema tbl sh =
     rfold (\<lambda>sh' n. if tbl \<noteq> [] \<and> n \<noteq> tbl then Inr sh'
                   else rmap (\<lambda>s. put (schema_lines (sh_style sh) n s) sh') (getSchema (sh_cat sh) n))
       sh (sort (tableNames (sh_cat sh)))"

definition cmd_mode :: "string \<Rightarrow> shell \<Rightarrow> shell" where
  "cmd_mode m sh =
     (if m = ''table'' then sh\<lparr>sh_mode := Table\<rparr>
      else if m = ''csv'' then sh\<lparr>sh_mode := Csv\<rparr>
      else if m = ''json'' then sh\<lparr>sh_mode := Json\<rparr>
      else if m = ''list'' then sh\<lparr>sh_mode := List\<rparr>
      else warn (text_lines [''unknown mode: '' @ m @ '' (table|csv|json|list)'']) sh)"

definition dotCommand ::
    "(string \<Rightarrow> shell \<Rightarrow> shell res) \<Rightarrow> env \<Rightarrow> string \<Rightarrow> shell \<Rightarrow> (shell \<times> bool) res" where
  "dotCommand read E line sh =
     (let (cmd, r) = next_word line; arg = fst (next_word r);
          on = (\<lambda>res :: shell res. rmap (\<lambda>sh'. (sh', True)) res)
      in if cmd \<in> {''.quit'', ''.exit'', ''.q''} then Inr (sh, False)
         else if cmd = ''.help'' then on (Inr (put (text_lines help_text) sh))
         else if cmd = ''.save'' \<or> cmd = ''.open'' then
           (if arg = [] then on (Inr (warn (text_lines [''usage: '' @ cmd @ '' FILE'']) sh))
            else if cmd = ''.save'' then on (cmd_save E arg sh) else on (cmd_open arg sh))
         else if cmd = ''.import'' then on (cmd_import r sh)
         else if cmd = ''.tables'' then on (Inr (cmd_tables sh))
         else if cmd = ''.schema'' then on (cmd_schema arg sh)
         else if cmd = ''.mode'' then on (Inr (cmd_mode arg sh))
         else if cmd = ''.timing'' then on (Inr (sh\<lparr>sh_timing := (arg \<noteq> ''off'')\<rparr>))
         else if cmd = ''.read'' then on (read arg sh)
         else on (Inr (warn (text_lines [''unknown command: '' @ cmd @ ''  (try .help)'']) sh)))"

text \<open>\<open>runFile\<close>, through at most \<open>d\<close> nested files.\<close>

primrec runFile :: "env \<Rightarrow> nat \<Rightarrow> string \<Rightarrow> shell \<Rightarrow> shell res" where
  "runFile E 0 path sh = Inl OutOfFuel"
| "runFile E (Suc d) path sh =
     (case sh_files sh path of
        None \<Rightarrow> Inr (warn (''cannot open file: '' @ path @ newline) sh)
      | Some s \<Rightarrow> rbind (feed_lines (dotCommand (runFile E d) E) E (getlines [] s) sh) (flushPending E))"

subsection \<open>The REPL and main\<close>

definition prompt :: "shell \<Rightarrow> shell" where
  "prompt sh =
     (let on = sh_style sh in
      if sh_interactive sh
      then put (accent on @ (if sh_pending sh = [] then ''lq> '' else '' ..> '') @ style_reset on) sh else sh)"

fun repl_loop :: "env \<Rightarrow> nat \<Rightarrow> string list \<Rightarrow> shell \<Rightarrow> shell res" where
  "repl_loop E d [] sh = Inr (put newline (prompt sh))"
| "repl_loop E d (l # ls) sh =
     rbind (feedLine (dotCommand (runFile E d) E) E l (prompt sh)) (\<lambda>(sh', go).
       if go then repl_loop E d ls sh' else Inr sh')"

definition banner :: "bool \<Rightarrow> string" where
  "banner on = accent on @ bold on @ ''LiteQuery'' @ style_reset on @ '' '' @ dim on @ ''v0.2.0  '' @ middle_dot
     @ ''  type .help for commands, .quit to exit'' @ style_reset on @ newline"

definition repl :: "env \<Rightarrow> nat \<Rightarrow> string list \<Rightarrow> shell \<Rightarrow> shell res" where
  "repl E d input sh =
     rbind (repl_loop E d input (if sh_interactive sh then put (banner (sh_style sh)) sh else sh)) (flushPending E)"

definition usage_text :: "string list" where
  "usage_text =
    [''Usage: lq [options] [file.sql]'',
     ''  (no args)     start the interactive shell'',
     ''  file.sql      run a SQL file, then exit'',
     ''  -c '' @ [dquote] @ ''SQL'' @ [dquote] @ ''      run one statement, then exit'',
     ''  -h, --help    show this help'',
     ''Piped stdin (echo '' @ quoted ''SELECT 1'' @ '' | lq) is run non-interactively.'']"

definition shell_new :: "(string \<Rightarrow> string option) \<Rightarrow> shell" where
  "shell_new files = \<lparr>sh_cat = catalog_new, sh_files = files, sh_style = False, sh_mode = Table, sh_timing = True,
     sh_interactive = True, sh_pending = [], sh_out = [], sh_err = []\<rparr>"

definition shell_main ::
    "env \<Rightarrow> nat \<Rightarrow> bool \<Rightarrow> bool \<Rightarrow> string list \<Rightarrow> string list \<Rightarrow> (string \<Rightarrow> string option) \<Rightarrow> shell res" where
  "shell_main E d tty no_color args input files =
     (let sh = (shell_new files)\<lparr>sh_style := (tty \<and> \<not> no_color), sh_interactive := tty\<rparr> in
      case args of
        [] \<Rightarrow> repl E d input sh
      | a # args2 \<Rightarrow>
          if a = ''-c'' \<and> args2 \<noteq> [] then runBuffer E (hd args2) (sh\<lparr>sh_interactive := False\<rparr>)
          else if a = ''-h'' \<or> a = ''--help'' then Inr (put (text_lines usage_text) sh)
          else runFile E d a (sh\<lparr>sh_interactive := False\<rparr>))"

subsection \<open>JSON strings\<close>

text \<open>
  The string of RFC 8259 behind its opening quote, up to the closing one: an unescaped character is
  any but the quote, the backslash and the control characters U+0000 to U+001F; the escapes are
  \<open>json_escapes\<close>; a four-digit escape, which the shell does not write, is not read. Characters are
  bytes here, those of a UTF-8 sequence one by one. None is a text that is no JSON string.
\<close>

definition json_escapes :: "(char \<times> char) list" where
  "json_escapes =
     [(dquote, dquote), (backslash, backslash), (CHR ''/'', CHR ''/''), (CHR ''b'', CHR 0x08), (CHR ''f'', CHR 0x0C),
      (CHR ''n'', CHR 0x0A), (CHR ''r'', CHR 0x0D), (CHR ''t'', CHR 0x09)]"

definition json_unescaped :: "char \<Rightarrow> bool" where
  "json_unescaped c = (c \<noteq> dquote \<and> c \<noteq> backslash \<and> 0x20 \<le> (of_char c :: nat))"

fun json_scan :: "string \<Rightarrow> (string \<times> string) option" where
  "json_scan [] = None"
| "json_scan (c # u) =
     (if c = dquote then Some ([], u)
      else if c = backslash then
        (case u of [] \<Rightarrow> None
         | e # v \<Rightarrow> (case map_of json_escapes e of None \<Rightarrow> None
                    | Some d \<Rightarrow> map_option (\<lambda>(s, r). (d # s, r)) (json_scan v)))
      else if json_unescaped c then map_option (\<lambda>(s, r). (c # s, r)) (json_scan u)
      else None)"

text \<open>The texts that the shell can write: \<open>jsonEscape\<close> leaves the other control characters as they are.\<close>

definition json_writable :: "char \<Rightarrow> bool" where
  "json_writable c = (0x20 \<le> (of_char c :: nat) \<or> c \<in> {CHR 0x0A, CHR 0x0D, CHR 0x09})"

lemma json_scan_char:
  "json_writable c \<Longrightarrow> json_scan (json_char c @ u) = map_option (\<lambda>(s, r). (c # s, r)) (json_scan u)"
  by (auto simp: json_char_def json_writable_def json_unescaped_def json_escapes_def dquote_def backslash_def)

text \<open>
  C39: a text without control characters other than line feed, carriage return and tab is written
  so that a strict reader of JSON strings takes it for one, finds its end at the closing quote, and
  gives the text back; what follows the string is left alone.
\<close>

theorem json_string_roundtrip:
  assumes "list_all json_writable s"
  shows "json_scan (jsonEscape s @ dquote # r) = Some (s, r)"
  using assms
proof (induction s)
  case Nil
  show ?case by (simp add: jsonEscape_def)
next
  case (Cons c s)
  then have "json_scan (json_char c @ jsonEscape s @ dquote # r) = Some (c # s, r)"
    by (subst json_scan_char) simp_all
  then show ?case by (simp add: jsonEscape_def)
qed

theorem json_string_roundtrip_witness:
  "json_scan (jsonEscape (''say '' @ [dquote, CHR 0x0A, CHR 0x09, backslash]) @ dquote # '', 1'')
    = Some (''say '' @ [dquote, CHR 0x0A, CHR 0x09, backslash], '', 1'')"
proof -
  have "list_all json_writable (''say '' @ [dquote, CHR 0x0A, CHR 0x09, backslash])" by code_simp
  then show ?thesis by (rule json_string_roundtrip)
qed

text \<open>Another control character is written as it is, which the strict reader refuses.\<close>

lemma json_control_character_refused: "json_scan (jsonEscape [CHR 0x01] @ dquote # r) = None"
  by (simp add: jsonEscape_def json_char_def json_unescaped_def dquote_def backslash_def)

subsection \<open>Files and buffers\<close>

text \<open>A line that \<open>feedLine\<close> takes for SQL and that does not go on behind a semicolon.\<close>

definition plain_line :: "string \<Rightarrow> bool" where
  "plain_line l = ((trim l \<noteq> [] \<longrightarrow> hd (trim l) \<noteq> CHR ''.'')
     \<and> (CHR '';'' \<in> set l \<longrightarrow> list_all is_space4 (rev (takeWhile (\<lambda>c. c \<noteq> CHR '';'') (rev l)))))"

lemma trim_blanks: "list_all is_space4 w \<Longrightarrow> trim (w @ s) = trim s"
  by (induction w) (simp_all add: trim_def)

lemma trim_blank: "list_all is_space4 w \<Longrightarrow> trim w = []"
  using trim_blanks [of w "[]"] by (simp add: trim_def)

lemma buffer_loop_blanks:
  "list_all is_space4 w \<Longrightarrow> buffer_loop E (w @ stmt) buf sh = buffer_loop E stmt buf sh"
proof (induction E stmt buf sh rule: buffer_loop.induct)
  case (1 E stmt sh)
  then show ?case by (simp add: trim_blanks)
next
  case (2 E stmt c buf sh)
  then show ?case by (cases "c = CHR '';''") (simp_all add: trim_blanks Let_def)
qed

lemma buffer_loop_stretch:
  "CHR '';'' \<notin> set a \<Longrightarrow> buffer_loop E stmt (a @ b) sh = buffer_loop E (stmt @ a) b sh"
  by (induction a arbitrary: stmt) auto

text \<open>A text up to a semicolon and blanks can be run by itself, before what follows.\<close>

lemma buffer_loop_append:
  assumes "list_all is_space4 w"
  shows "buffer_loop E stmt (a @ CHR '';'' # w @ b) sh
    = rbind (buffer_loop E stmt (a @ CHR '';'' # w) sh) (\<lambda>sh'. buffer_loop E [] b sh')"
proof (induction E stmt a sh rule: buffer_loop.induct)
  case (1 E stmt sh)
  have w: "CHR '';'' \<notin> set w" using assms by (auto simp: list_all_iff is_space4_def)
  have "buffer_loop E [] (w @ b) = buffer_loop E [] b" "buffer_loop E [] w = Inr"
    unfolding fun_eq_iff using buffer_loop_stretch [OF w, of E "[]" b] buffer_loop_stretch [OF w, of E "[]" "[]"]
      buffer_loop_blanks [OF assms, of E "[]" b] trim_blank [OF assms]
    by simp_all
  then show ?case by (simp add: Let_def rbind_assoc)
next
  case (2 E stmt c buf sh)
  then show ?case by (cases "c = CHR '';''") (simp_all add: Let_def rbind_assoc cong: rbind_cong)
qed

lemma trim_trailing: "list_all is_space4 w \<Longrightarrow> trim (s @ w) = trim s"
proof -
  assume w: "list_all is_space4 w"
  have "dropWhile is_space4 (rev w @ t) = dropWhile is_space4 t" for t
    using w by (induction w arbitrary: t rule: rev_induct) simp_all
  then show ?thesis
    using w by (cases "list_all is_space4 s")
      (simp_all add: trim_def dropWhile_append list_all_iff dropWhile_eq_Nil_conv [THEN iffD2])
qed

lemma buffer_loop_trailing:
  assumes "list_all is_space4 w"
  shows "buffer_loop E stmt (s @ w) sh = buffer_loop E stmt s sh"
proof (induction E stmt s sh rule: buffer_loop.induct)
  case (1 E stmt sh)
  have "CHR '';'' \<notin> set w" using assms by (auto simp: list_all_iff is_space4_def)
  from buffer_loop_stretch [OF this, of E stmt "[]" sh] show ?case by (simp add: trim_trailing [OF assms])
next
  case (2 E stmt c buf sh)
  then show ?case by (cases "c = CHR '';''") (simp_all add: Let_def cong: rbind_cong)
qed

lemma rmap_rmap: "rmap f (rmap g m) = rmap (\<lambda>x. f (g x)) m"
  by (cases m) simp_all

lemma rmap_rbind: "rmap f (rbind m g) = rbind m (\<lambda>x. rmap f (g x))"
  by (cases m) simp_all

lemma rbind_rmap: "rbind (rmap f m) g = rbind m (\<lambda>x. g (f x))"
  by (cases m) simp_all

text \<open>What is pending does not matter to a statement that is run.\<close>

lemma printResult_pending:
  "printResult E us r (sh\<lparr>sh_pending := p\<rparr>) = rmap (\<lambda>s. s\<lparr>sh_pending := p\<rparr>) (printResult E us r sh)"
  by (cases sh; cases "sh_mode sh") (simp_all add: printResult_def Let_def rmap_rmap put_def warn_def)

lemma runSql_pending:
  "runSql E q (sh\<lparr>sh_pending := p\<rparr>) = rmap (\<lambda>s. s\<lparr>sh_pending := p\<rparr>) (runSql E q sh)"
proof -
  obtain c r where q: "query (env_pw E) (env_fuel E) q (sh_cat sh) = (c, r)" by force
  show ?thesis
  proof (cases r)
    case (Inr b)
    have "sh\<lparr>sh_pending := p, sh_cat := c\<rparr> = sh\<lparr>sh_cat := c, sh_pending := p\<rparr>" by (cases sh) simp
    then have "printResult E (env_micros E q) b (sh\<lparr>sh_pending := p, sh_cat := c\<rparr>)
        = rmap (\<lambda>s. s\<lparr>sh_pending := p\<rparr>) (printResult E (env_micros E q) b (sh\<lparr>sh_cat := c\<rparr>))"
      by (metis printResult_pending)
    with q Inr show ?thesis by (simp add: runSql_def)
  qed (use q in \<open>simp add: runSql_def\<close>)
qed

lemma buffer_loop_pending:
  "buffer_loop E stmt buf (sh\<lparr>sh_pending := p\<rparr>) = rmap (\<lambda>s. s\<lparr>sh_pending := p\<rparr>) (buffer_loop E stmt buf sh)"
proof (induction E stmt buf sh rule: buffer_loop.induct)
  case (1 E stmt sh)
  then show ?case by (simp add: Let_def runSql_pending)
next
  case (2 E stmt c buf sh)
  show ?case
  proof (cases "c = CHR '';''")
    case True
    define t where "t = trim (stmt @ [c])"
    have step: "buffer_loop E stmt (c # buf) x
        = rbind (if t \<noteq> [] \<and> t \<noteq> '';'' then runSql E t x else Inr x) (buffer_loop E [] buf)" for x
      by (simp add: Let_def t_def True)
    note IH = "2.IH"(1) [OF refl True t_def]
    show ?thesis
    proof (cases "t \<noteq> [] \<and> t \<noteq> '';''")
      case t: True
      with IH show ?thesis unfolding step by (cases "runSql E t sh") (simp_all add: runSql_pending)
    next
      case f: False
      with IH [of sh] show ?thesis unfolding step if_not_P [OF f] by auto
    qed
  qed (use "2.IH"(2) in simp)
qed

lemma feed_lines_buffer:
  assumes "\<forall>l \<in> set ls. plain_line l" "CHR '';'' \<notin> set (sh_pending sh)"
  shows "rbind (feed_lines dot E ls sh) (flushPending E)
    = rmap (\<lambda>s. s\<lparr>sh_pending := []\<rparr>) (buffer_loop E [] (sh_pending sh @ text_lines ls) sh)"
  using assms
proof (induction ls arbitrary: sh)
  case Nil
  then show ?case
    using buffer_loop_stretch [OF Nil(2), of E "[]" "[]" sh]
    by (simp add: flushPending_def runBuffer_def text_lines_def Let_def)
next
  case (Cons l ls)
  let ?p = "sh_pending sh @ l @ newline"
  have plain: "plain_line l" using Cons.prems by simp
  then have dot: "\<not> (sh_pending sh = [] \<and> trim l \<noteq> [] \<and> hd (trim l) = CHR ''.'')" by (auto simp: plain_line_def)
  show ?case
  proof (cases "CHR '';'' \<in> set l")
    case False
    let ?sh = "sh\<lparr>sh_pending := ?p\<rparr>"
    have "rbind (feed_lines dot E ls ?sh) (flushPending E)
        = rmap (\<lambda>s. s\<lparr>sh_pending := []\<rparr>) (buffer_loop E [] (sh_pending ?sh @ text_lines ls) ?sh)"
      using Cons.prems False by (intro Cons.IH) (simp_all add: newline_def)
    moreover have "feedLine dot E l sh = Inr (?sh, True)"
      using dot False by (auto simp: feedLine_def Let_def)
    ultimately show ?thesis
      by (simp add: buffer_loop_pending rmap_rmap text_lines_def)
  next
    case True
    define w where "w = rev (takeWhile (\<lambda>c. c \<noteq> CHR '';'') (rev l))"
    have "\<exists>a. l = a @ CHR '';'' # w"
    proof -
      have "rev l = takeWhile (\<lambda>c. c \<noteq> CHR '';'') (rev l) @ dropWhile (\<lambda>c. c \<noteq> CHR '';'') (rev l)" by simp
      moreover obtain x xs where x: "dropWhile (\<lambda>c. c \<noteq> CHR '';'') (rev l) = x # xs" "x = CHR '';''"
        using True hd_dropWhile [of "\<lambda>c. c \<noteq> CHR '';''" "rev l"]
        by (cases "dropWhile (\<lambda>c. c \<noteq> CHR '';'') (rev l)") (auto simp: dropWhile_eq_Nil_conv)
      ultimately have "rev l = rev w @ CHR '';'' # xs" by (simp add: w_def)
      then have "l = rev xs @ CHR '';'' # w" by (metis append.assoc append_Cons append_Nil rev.simps(2) rev_append rev_rev_ident)
      then show ?thesis by blast
    qed
    then obtain a where a: "l = a @ CHR '';'' # w" by blast
    have w: "list_all is_space4 (w @ newline)"
      using plain True by (simp add: plain_line_def w_def newline_def is_space4_def)
    let ?run = "buffer_loop E [] ?p sh"
    have whole: "buffer_loop E [] (sh_pending sh @ text_lines (l # ls)) sh
        = rbind ?run (\<lambda>sh'. buffer_loop E [] (text_lines ls) sh')"
      using buffer_loop_append [OF w, of E "[]" "sh_pending sh @ a" "text_lines ls" sh]
      by (simp add: a text_lines_def)
    have step: "feedLine dot E l sh = rmap (\<lambda>s. (s\<lparr>sh_pending := []\<rparr>, True)) ?run"
      using dot True by (auto simp: feedLine_def Let_def runBuffer_def buffer_loop_pending rmap_rmap)
    have IH: "rbind (feed_lines dot E ls (s\<lparr>sh_pending := []\<rparr>)) (flushPending E)
        = rmap (\<lambda>s. s\<lparr>sh_pending := []\<rparr>) (buffer_loop E [] (text_lines ls) s)" for s
      using Cons.IH [of "s\<lparr>sh_pending := []\<rparr>"] Cons.prems by (simp add: buffer_loop_pending rmap_rmap)
    show ?thesis
      unfolding whole rmap_rbind feed_lines.simps step rbind_rmap rbind_assoc
      by (simp add: rbind_rmap rbind_assoc IH)
  qed
qed

lemma getlines_text: "\<exists>w. list_all is_space4 w \<and> text_lines (getlines l s) = l @ s @ w"
proof (induction l s rule: getlines.induct)
  case (1 l)
  then show ?case by (cases "l = []") (auto simp: text_lines_def newline_def is_space4_def intro: exI [of _ "[]"])
next
  case (2 l c s)
  then show ?case by (cases "c = CHR 0x0A") (auto simp: text_lines_def newline_def)
qed

text \<open>
  C40: a file whose lines are SQL, with no statement starting behind a semicolon on the same line,
  does what its text does as one buffer: statements may span lines, and where they are cut does
  not matter.
\<close>

theorem file_runs_as_one_buffer:
  assumes "sh_files sh path = Some s" "\<forall>l \<in> set (getlines [] s). plain_line l" "sh_pending sh = []"
  shows "runFile E (Suc d) path sh = rmap (\<lambda>s. s\<lparr>sh_pending := []\<rparr>) (runBuffer E s sh)"
proof -
  from getlines_text [of "[]" s] obtain w where w: "list_all is_space4 w" "text_lines (getlines [] s) = s @ w"
    by auto
  from feed_lines_buffer [OF assms(2), of sh "dotCommand (runFile E d) E" E] w assms(1,3)
  show ?thesis by (simp add: runBuffer_def buffer_loop_trailing)
qed

theorem file_runs_as_one_buffer_witness:
  "\<forall>E. runFile E 1 ''f.sql'' ((shell_new Map.empty)\<lparr>sh_files := [''f.sql'' \<mapsto> ''DROP'' @ newline @ ''TABLE t;'']\<rparr>)
    = rmap (\<lambda>s. s\<lparr>sh_pending := []\<rparr>) (runBuffer E (''DROP'' @ newline @ ''TABLE t;'')
        ((shell_new Map.empty)\<lparr>sh_files := [''f.sql'' \<mapsto> ''DROP'' @ newline @ ''TABLE t;'']\<rparr>))"
proof -
  have "\<forall>l \<in> set (getlines [] (''DROP'' @ newline @ ''TABLE t;'')). plain_line l" by code_simp
  from file_runs_as_one_buffer [of "(shell_new Map.empty)\<lparr>sh_files := [''f.sql'' \<mapsto> ''DROP'' @ newline @ ''TABLE t;'']\<rparr>"
      "''f.sql''", OF _ this, of _ 0] show ?thesis by (simp add: shell_new_def)
qed

text \<open>
  A statement that starts behind a semicolon and goes on in the next line is cut off at the end
  of its first line and run as it is.
\<close>

lemma tail_is_run_early:
  "feedLine dot E ''DROP TABLE a; DROP'' (shell_new files)
    = rmap (\<lambda>s. (s\<lparr>sh_pending := []\<rparr>, True))
        (rbind (runSql E ''DROP TABLE a;'' (shell_new files)) (runSql E ''DROP''))"
proof -
  have t: "trim ''DROP TABLE a; DROP'' = ''DROP TABLE a; DROP''" "trim ''DROP TABLE a;'' = ''DROP TABLE a;''"
    "trim ('' DROP'' @ newline) = ''DROP''" by code_simp+
  have "buffer_loop E [] ('' DROP'' @ newline) = runSql E ''DROP''"
    by (rule ext) (use t in \<open>simp add: Let_def newline_def\<close>)
  then have tail: "buffer_loop E [] ('' DROP'' @ [CHR 0x0A]) = runSql E ''DROP''" by (simp only: newline_def)
  have p: "sh_pending (shell_new files) = []" by (simp add: shell_new_def)
  show ?thesis
    using t p by (simp add: feedLine_def Let_def runBuffer_def newline_def buffer_loop_pending rmap_rmap
        del: buffer_loop.simps) (simp add: Let_def tail [simplified])
qed

end
