(* ===== verification/LQ_FastEq.thy ===== *)
theory LQ_FastEq
  imports LQ_Statement
begin

section \<open>The loops of both aggregate paths\<close>

text \<open>
  The row loop of \<open>fast_aggregate.cpp\<close> beside that of \<open>HashAggregate\<close>. A column is described by the
  values of its cells (\<open>all_cells\<close>); \<open>agg_alike\<close> and \<open>key_alike\<close> are executable conditions on a select
  item and a GROUP BY key under which both loops compute the same. The accumulators are
  related step by step (\<open>cells_match\<close>), and the groups of either loop are described by the
  same functions of the selected rows: the keys in the order of their first row, and every
  aggregate folded over the rows of its group.
\<close>

subsection \<open>Columns and items\<close>

text \<open>The number that the fast path reads from a cell that is not NULL.\<close>

definition num_cell :: "column \<Rightarrow> nat \<Rightarrow> f64" where
  "num_cell c i = (if c_kind c = KDouble then c_f64 c ! i else f64_of_int (sint (c_i64 c ! i)))"

text \<open>A property of every cell that is not NULL.\<close>

definition all_cells :: "column \<Rightarrow> (nat \<Rightarrow> bool) \<Rightarrow> bool" where
  "all_cells c Q = list_all (\<lambda>i. isNull (cell_value c i) \<or> Q i) [0..<column_size c]"

definition sums_alike :: "column \<Rightarrow> bool" where
  "sums_alike c = all_cells c (\<lambda>i. toDouble (cell_value c i) = Inr (num_cell c i))"

definition no_nans :: "column \<Rightarrow> bool" where
  "no_nans c = (c_kind c = KDouble \<and> all_cells c (\<lambda>i. \<not> f64_is_nan (c_f64 c ! i)))"

definition named_col :: "table \<Rightarrow> string \<Rightarrow> column" where
  "named_col t c = t_cols t ! nat (indexOf (t_schema t) c)"

definition has_col :: "table \<Rightarrow> string \<Rightarrow> bool" where
  "has_col t c = (c \<noteq> ''*'' \<and> 0 \<le> indexOf (t_schema t) c)"

fun agg_alike :: "table \<Rightarrow> expr \<Rightarrow> bool" where
  "agg_alike t (FunctionCall f args dist star loc) =
     (if star then f \<in> {''COUNT'', ''SUM'', ''AVG''}
      else \<not> dist \<and> (case args of
          [ColumnRef None None c] \<Rightarrow>
            has_col t c \<and> c_kind (named_col t c) \<noteq> KString
            \<and> (f = ''COUNT'' \<or> (f \<in> {''SUM'', ''AVG''} \<and> sums_alike (named_col t c))
               \<or> (f \<in> {''MIN'', ''MAX''} \<and> no_nans (named_col t c)))
        | _ \<Rightarrow> False))"
| "agg_alike t _ = False"

lemma all_cellsI:
  assumes "\<And>i. i < column_size c \<Longrightarrow> \<not> isNull (cell_value c i) \<Longrightarrow> Q i"
  shows "all_cells c Q"
  unfolding all_cells_def list_all_iff
proof
  fix i assume "i \<in> set [0..<column_size c]"
  with assms [of i] show "isNull (cell_value c i) \<or> Q i" by auto
qed

lemma all_cellsD: "all_cells c Q \<Longrightarrow> i < column_size c \<Longrightarrow> \<not> isNull (cell_value c i) \<Longrightarrow> Q i"
  by (auto simp: all_cells_def list_all_iff)

text \<open>What both paths see of a named column.\<close>

lemma named_col:
  assumes "wf_table t" "has_col t c"
  shows "wf_column (named_col t c)" "column_size (named_col t c) = rowCount t"
    and "columnAt t (nat (indexOf (t_schema t) c)) = Inr (named_col t c)"
    and "i < rowCount t \<Longrightarrow> evaluate pw (t_schema t) (table_rows t ! i) (ColumnRef None None c)
      = Inr (cell_value (named_col t c) i)"
proof -
  have j: "nat (indexOf (t_schema t) c) < length (t_cols t)"
    using assms indexOf_bounds by (auto simp: has_col_def wf_table_width)
  then have col: "named_col t c \<in> set (t_cols t)" by (simp add: named_col_def)
  with assms(1) show "wf_column (named_col t c)" and size: "column_size (named_col t c) = rowCount t"
    by (auto simp: wf_table_def)
  from j show "columnAt t (nat (indexOf (t_schema t) c)) = Inr (named_col t c)"
    by (simp add: columnAt_def named_col_def)
  show "evaluate pw (t_schema t) (table_rows t ! i) (ColumnRef None None c) = Inr (cell_value (named_col t c) i)"
    if "i < rowCount t"
    using that j assms(2) size
    by (simp add: eval_simps eval_column_def find_column_def has_col_def table_rows_def named_col_def
        col_values_def)
qed

lemma cell_valid:
  assumes "wf_column c" "i < column_size c"
  shows "bitmap_isValid (c_valid c) i = Inr (\<not> isNull (cell_value c i))"
  using assms
  by (auto simp: wf_column_def column_size_def bitmap_isValid_wf cell_value_def split: kind.split)

lemma num_at_cell:
  "wf_column c \<Longrightarrow> i < column_size c \<Longrightarrow> c_kind c \<noteq> KString \<Longrightarrow> num_at c i = Inr (num_cell c i)"
  by (cases "c_kind c") (auto simp: wf_column_def num_at_def num_cell_def)

lemma sums_alike_types:
  assumes "wf_column c" "dt_id (c_type c) \<in> {INT64, FLOAT64}"
  shows "sums_alike c"
  using assms by (auto simp: sums_alike_def all_cells_def list_all_iff cell_value_def num_cell_def
      makeIntValue_def wf_column_def kindOf_def)


subsection \<open>One aggregate\<close>

definition call_of :: "expr \<Rightarrow> agg_call" where
  "call_of e = (case e of
      FunctionCall f args dist star loc \<Rightarrow>
        \<lparr>ac_name = f, ac_args = args, ac_distinct = dist, ac_star = star, ac_loc = loc\<rparr>
    | _ \<Rightarrow> undefined)"

definition spec_of :: "table \<Rightarrow> select_item \<Rightarrow> agg_spec" where
  "spec_of t it = (let fc = call_of (fst it) in
     make_spec (ac_name fc) (ac_star fc) (snd it) (the (fn_of (ac_name fc)))
       (if ac_star fc then 0
        else case ac_args fc of [ColumnRef s q c] \<Rightarrow> nat (indexOf (t_schema t) c) | _ \<Rightarrow> 0))"

text \<open>The two accumulators hold the same aggregate.\<close>

definition cells_match :: "agg_fn \<Rightarrow> agg_state \<Rightarrow> agg_cell \<Rightarrow> bool" where
  "cells_match fn st c =
     (counts c = st_count st
      \<and> (fn \<in> {FnSum, FnAvg} \<longrightarrow> numAcc c = st_sum st)
      \<and> (fn = FnMin \<longrightarrow> minmax c = (if st_count st = 0 then VNull else VF64 (st_mn st))
           \<and> (st_count st = 0 \<longrightarrow> st_mn st = f64_inf False))
      \<and> (fn = FnMax \<longrightarrow> minmax c = (if st_count st = 0 then VNull else VF64 (st_mx st))
           \<and> (st_count st = 0 \<longrightarrow> st_mx st = f64_inf True)))"

lemma agg_alikeE:
  assumes "agg_alike t e"
  obtains (star) f args dist loc where "e = FunctionCall f args dist True loc" "f \<in> {''COUNT'', ''SUM'', ''AVG''}"
  | (col) f c loc where "e = FunctionCall f [ColumnRef None None c] False False loc" "has_col t c"
      "c_kind (named_col t c) \<noteq> KString"
      "f = ''COUNT'' \<or> (f \<in> {''SUM'', ''AVG''} \<and> sums_alike (named_col t c))
         \<or> (f \<in> {''MIN'', ''MAX''} \<and> no_nans (named_col t c))"
proof (cases "(t, e)" rule: agg_alike.cases)
  case (1 t' f args dist star' loc)
  show ?thesis
  proof (cases star')
    case True
    with 1 assms star show ?thesis by auto
  next
    case False
    with 1 assms obtain a as where "args = a # as" by (cases args) auto
    moreover from this False 1 assms have "as = []" by (cases as) (auto split: expr.splits option.splits)
    ultimately obtain c where "args = [ColumnRef None None c]"
      using False 1 assms by (auto split: expr.splits option.splits)
    with 1 assms False col show ?thesis by auto
  qed
qed (use assms in auto)

lemma step_alike:
  assumes "wf_table t" "agg_alike t e" "i < rowCount t" "the (fn_of (ac_name (call_of e))) = fn"
    and "cells_match fn st c"
  shows "\<exists>st' c'. fast_step t i (spec_of t (e, al)) st = Inr st'
    \<and> agg_step pw (t_schema t) (make_agg (call_of e, n)) c (table_rows t ! i) = Inr c' \<and> cells_match fn st' c'"
  using assms(2)
proof (cases rule: agg_alikeE)
  case star
  then have "fn \<in> {FnCount, FnSum, FnAvg}" using assms(4) by (auto simp: call_of_def fn_of_def)
  moreover have "fast_step t i (spec_of t (e, al)) st = Inr (st\<lparr>st_count := Suc (st_count st)\<rparr>)"
    using star(1) by (simp add: fast_step_def spec_of_def call_of_def make_spec_def Let_def)
  moreover have "agg_step pw (t_schema t) (make_agg (call_of e, n)) c (table_rows t ! i)
      = Inr (c\<lparr>counts := Suc (counts c)\<rparr>)"
    using star(1) by (simp add: agg_step_def call_of_def make_agg_def)
  ultimately show ?thesis using assms(5) by (auto simp: cells_match_def)
next
  case (col f cn loc)
  note nc = named_col [OF assms(1) col(2)]
  let ?v = "cell_value (named_col t cn) i"
  have cell: "cell_value (named_col t cn) i = VF64 (num_cell (named_col t cn) i)"
    if "\<not> isNull ?v" "c_kind (named_col t cn) = KDouble"
    using that by (auto simp: cell_value_def num_cell_def split: if_splits)
  show ?thesis
  proof (cases "isNull ?v")
    case True
    then show ?thesis
      using assms(3,5) nc col
      by (auto simp: fast_step_def agg_step_def spec_of_def call_of_def make_spec_def make_agg_def cell_valid)
  next
    case False
    have fast: "fast_step t i (spec_of t (e, al)) st
        = Inr (fast_accumulate fn (num_cell (named_col t cn) i) st)"
      using assms(3,4) nc col False
      by (simp add: fast_step_def spec_of_def call_of_def make_spec_def cell_valid num_at_cell)
    have gen: "agg_step pw (t_schema t) (make_agg (call_of e, n)) c (table_rows t ! i)
        = agg_accumulate (make_agg (call_of e, n)) ?v c"
      using assms(3) nc col False by (simp add: agg_step_def call_of_def make_agg_def agg_input_def)
    have name: "agg_func (make_agg (call_of e, n)) = f" using col by (simp add: make_agg_def call_of_def)
    from col(4) consider (count) "f = ''COUNT''" | (sum) "f \<in> {''SUM'', ''AVG''}" "sums_alike (named_col t cn)"
      | (mm) "f \<in> {''MIN'', ''MAX''}" "no_nans (named_col t cn)" by blast
    then show ?thesis
    proof cases
      case count
      with col(1) assms(4) have "fn = FnCount" by (simp add: call_of_def fn_of_def)
      with count assms(5) show ?thesis
        unfolding fast gen by (simp add: agg_accumulate_def name fast_accumulate_def cells_match_def)
    next
      case sum
      then have "fn = FnSum \<or> fn = FnAvg" using col(1) assms(4) by (auto simp: call_of_def fn_of_def)
      moreover have "toDouble ?v = Inr (num_cell (named_col t cn) i)"
        using sum(2) nc(1,2) assms(3) False by (auto simp: sums_alike_def dest: all_cellsD)
      moreover have "agg_func (make_agg (call_of e, n)) = ''SUM'' \<or> agg_func (make_agg (call_of e, n)) = ''AVG''"
        using sum(1) name by simp
      ultimately show ?thesis
        using assms(5) unfolding fast gen
        by (elim disjE) (simp_all add: agg_accumulate_def fast_accumulate_def cells_match_def Let_def)
    next
      case mm
      then have k: "c_kind (named_col t cn) = KDouble" "\<not> f64_is_nan (num_cell (named_col t cn) i)"
        using nc(1,2) assms(3) False by (auto simp: no_nans_def num_cell_def dest: all_cellsD)
      note v = cell [OF False k(1)]
      from mm(1) show ?thesis
      proof (elim insertE)
        assume f: "f = ''MIN''"
        then have "fn = FnMin" using col(1) assms(4) by (simp add: call_of_def fn_of_def)
        note unf = agg_accumulate_def name fast_accumulate_def cells_match_def Let_def f \<open>fn = FnMin\<close>
        show ?thesis
        proof (cases "f64_lt (num_cell (named_col t cn) i) (f64_inf False)")
          case True
          then show ?thesis
            using assms(5) unfolding fast gen v by (cases "st_count st = 0") (simp_all add: unf)
        next
          case False
          have n: "num_cell (named_col t cn) i = f64_inf False" by (rule f64_below_inf [OF k(2) False])
          show ?thesis
            using assms(5) unfolding fast gen v n by (cases "st_count st = 0") (auto simp: unf)
        qed
      next
        assume f: "f = ''MAX''"
        then have "fn = FnMax" using col(1) assms(4) by (simp add: call_of_def fn_of_def)
        note unf = agg_accumulate_def name fast_accumulate_def cells_match_def Let_def f \<open>fn = FnMax\<close>
        show ?thesis
        proof (cases "f64_lt (f64_inf True) (num_cell (named_col t cn) i)")
          case True
          then show ?thesis
            using assms(5) unfolding fast gen v by (cases "st_count st = 0") (simp_all add: unf)
        next
          case False
          have n: "num_cell (named_col t cn) i = f64_inf True" by (rule f64_above_inf [OF k(2) False])
          show ?thesis
            using assms(5) unfolding fast gen v n by (cases "st_count st = 0") (auto simp: unf)
        qed
      qed simp
    qed
  qed
qed

text \<open>The accumulators of one aggregate after the rows of a list.\<close>

definition fast_fold :: "table \<Rightarrow> agg_spec \<Rightarrow> nat list \<Rightarrow> agg_state res" where
  "fast_fold t a is = rfold (\<lambda>st i. fast_step t i a st) agg_state_new is"

definition cell_fold :: "(f64 \<Rightarrow> f64 \<Rightarrow> f64) \<Rightarrow> schema \<Rightarrow> agg \<Rightarrow> row list \<Rightarrow> agg_cell res" where
  "cell_fold pw sch a rs = rfold (agg_step pw sch a) new_cell rs"

lemma cells_match_new: "cells_match fn agg_state_new new_cell"
  by (simp add: cells_match_def agg_state_new_def new_cell_def)

lemma folds_alike:
  assumes "wf_table t" "agg_alike t e" "the (fn_of (ac_name (call_of e))) = fn" "set is \<subseteq> {..<rowCount t}"
  shows "\<exists>st c. fast_fold t (spec_of t (e, al)) is = Inr st
    \<and> cell_fold pw (t_schema t) (make_agg (call_of e, n)) (map (\<lambda>i. table_rows t ! i) is) = Inr c
    \<and> cells_match fn st c"
  using assms(4)
proof (induction "is" rule: rev_induct)
  case Nil
  then show ?case by (simp add: fast_fold_def cell_fold_def cells_match_new)
next
  case (snoc i "is")
  then obtain st c where "fast_fold t (spec_of t (e, al)) is = Inr st"
      "cell_fold pw (t_schema t) (make_agg (call_of e, n)) (map (\<lambda>i. table_rows t ! i) is) = Inr c" "cells_match fn st c"
    by auto
  moreover from step_alike [OF assms(1,2) _ assms(3) this(3)] snoc.prems obtain st' c' where
      "fast_step t i (spec_of t (e, al)) st = Inr st'"
      "agg_step pw (t_schema t) (make_agg (call_of e, n)) c (table_rows t ! i) = Inr c'" "cells_match fn st' c'"
    by fastforce
  ultimately show ?case by (simp add: fast_fold_def cell_fold_def rfold_snoc)
qed

text \<open>The value of an aggregate over the rows with the numbers \<open>is\<close>.\<close>

definition agg_over :: "table \<Rightarrow> expr \<Rightarrow> nat list \<Rightarrow> value" where
  "agg_over t e is = fast_value (spec_of t (e, None)) (projr (fast_fold t (spec_of t (e, None)) is))"

lemma spec_of_renamed: "spec_of t (e, al) = (spec_of t (e, None))\<lparr>sp_outName := sp_outName (spec_of t (e, al))\<rparr>"
  by (simp add: spec_of_def make_spec_def Let_def)

lemma spec_of_fn [simp]: "sp_fn (spec_of t (e, al)) = the (fn_of (ac_name (call_of e)))"
  by (simp add: spec_of_def make_spec_def Let_def)

lemma spec_of_alias:
  "fast_fold t (spec_of t (e, al)) is = fast_fold t (spec_of t (e, None)) is"
  "fast_value (spec_of t (e, al)) st = fast_value (spec_of t (e, None)) st"
proof -
  have "fast_step t i (a\<lparr>sp_outName := m\<rparr>) st = fast_step t i a st" for i a m st
    by (simp add: fast_step_def cong: if_cong)
  then show "fast_fold t (spec_of t (e, al)) is = fast_fold t (spec_of t (e, None)) is"
    by (subst spec_of_renamed) (simp only: fast_fold_def)
  show "fast_value (spec_of t (e, al)) st = fast_value (spec_of t (e, None)) st"
    by (simp add: fast_value_def)
qed

lemma agg_values_alike:
  assumes "wf_table t" "agg_alike t e" "set is \<subseteq> {..<rowCount t}"
  shows "\<exists>st. fast_fold t (spec_of t (e, al)) is = Inr st \<and> fast_value (spec_of t (e, al)) st = agg_over t e is"
    and "\<exists>c. cell_fold pw (t_schema t) (make_agg (call_of e, n)) (map (\<lambda>i. table_rows t ! i) is) = Inr c
      \<and> agg_value (make_agg (call_of e, n)) c = agg_over t e is"
proof -
  from folds_alike [OF assms(1,2) refl assms(3), of None pw n] obtain st c where
    f: "fast_fold t (spec_of t (e, None)) is = Inr st"
      "cell_fold pw (t_schema t) (make_agg (call_of e, n)) (map (\<lambda>i. table_rows t ! i) is) = Inr c"
      "cells_match (the (fn_of (ac_name (call_of e)))) st c"
    by blast
  then show "\<exists>st. fast_fold t (spec_of t (e, al)) is = Inr st \<and> fast_value (spec_of t (e, al)) st = agg_over t e is"
    by (simp add: agg_over_def spec_of_alias [of _ _ al])
  have v: "agg_over t e is = fast_value (spec_of t (e, None)) st" by (simp add: agg_over_def f(1))
  have "ac_name (call_of e) \<in> {''COUNT'', ''SUM'', ''AVG'', ''MIN'', ''MAX''}"
    by (rule agg_alikeE [OF assms(2)]) (auto simp: call_of_def)
  with f(3) have "agg_value (make_agg (call_of e, n)) c = agg_over t e is"
    unfolding v by (elim insertE) (simp_all add: agg_value_def make_agg_def fast_value_def fn_of_def cells_match_def)
  with f(2) show "\<exists>c. cell_fold pw (t_schema t) (make_agg (call_of e, n)) (map (\<lambda>i. table_rows t ! i) is) = Inr c
      \<and> agg_value (make_agg (call_of e, n)) c = agg_over t e is" by blast
qed

subsection \<open>The groups of the operator tree\<close>

lemma cells_fold_all:
  "\<forall>a \<in> set aggs. \<exists>c. cell_fold pw sch a rs = Inr c \<Longrightarrow>
   rfold (cells_step pw sch aggs) (map (\<lambda>_. new_cell) aggs) rs
     = Inr (map (\<lambda>a. projr (cell_fold pw sch a rs)) aggs)"
proof (induction rs rule: rev_induct)
  case Nil
  then show ?case by (simp add: cell_fold_def)
next
  case (snoc r rs)
  then have step: "\<exists>c c'. cell_fold pw sch a rs = Inr c \<and> agg_step pw sch a c r = Inr c'
      \<and> cell_fold pw sch a (rs @ [r]) = Inr c'" if "a \<in> set aggs" for a
    using that by (auto simp: cell_fold_def rfold_snoc res_simps)
  then have "rfold (cells_step pw sch aggs) (map (\<lambda>_. new_cell) aggs) rs
     = Inr (map (\<lambda>a. projr (cell_fold pw sch a rs)) aggs)"
    using snoc.IH by blast
  moreover have "cells_step pw sch aggs (map (\<lambda>a. projr (cell_fold pw sch a rs)) aggs) r
      = Inr (map (\<lambda>a. projr (cell_fold pw sch a (rs @ [r]))) aggs)"
  proof -
    have "cells_step pw sch aggs (map (\<lambda>a. projr (cell_fold pw sch a rs)) aggs) r
        = rmapM (\<lambda>a. agg_step pw sch a (projr (cell_fold pw sch a rs)) r) aggs"
      by (simp add: cells_step_def zip_map2 rmapM_map case_prod_unfold zip_same_conv_map)
    also have "\<dots> = Inr (map (\<lambda>a. projr (cell_fold pw sch a (rs @ [r]))) aggs)"
      by (rule rmapM_Inr_map) (use step in fastforce)
    finally show ?thesis .
  qed
  ultimately show ?case by (simp add: rfold_snoc)
qed

lemma agg_absorb_total:
  assumes ok: "groups_ok pw sch keys aggs rs gs" and kv: "group_values pw sch keys r = Inr kv"
    and cells: "\<And>a. a \<in> set aggs \<Longrightarrow>
      \<exists>c. cell_fold pw sch a (filter (\<lambda>x. row_group pw sch keys x = rowKey kv) rs @ [r]) = Inr c"
  shows "\<exists>gs'. agg_absorb pw sch keys aggs gs r = Inr gs'"
proof -
  let ?rs = "filter (\<lambda>x. row_group pw sch keys x = rowKey kv) rs"
  define cs where "cs = (case fst gs (rowKey kv) of Some st \<Rightarrow> acc_cells st | None \<Rightarrow> map (\<lambda>_. new_cell) aggs)"
  have "rfold (cells_step pw sch aggs) (map (\<lambda>_. new_cell) aggs) ?rs = Inr cs"
  proof (cases "fst gs (rowKey kv)")
    case None
    with ok have "rowKey kv \<notin> row_group pw sch keys ` set rs" by (auto simp: groups_ok_def Let_def)
    then have "?rs = []" unfolding filter_empty_conv by (metis imageI)
    then show ?thesis using None by (simp add: cs_def)
  next
    case (Some st)
    with ok show ?thesis by (auto simp: groups_ok_def Let_def cs_def)
  qed
  with cells_fold_all [of aggs pw sch "?rs @ [r]"] cells
  have "\<exists>cs'. cells_step pw sch aggs cs r = Inr cs'" by (auto simp: rfold_snoc)
  then obtain cs' where "cells_step pw sch aggs cs r = Inr cs'" ..
  then show ?thesis
    by (cases "fst gs (rowKey kv)") (simp_all add: agg_absorb_def kv Let_def cs_def newAcc_def)
qed

lemma first_occurrences_map:
  "inj_on h (set xs) \<Longrightarrow> first_occurrences (map h xs) = map h (first_occurrences xs)"
proof (induction xs rule: rev_induct)
  case (snoc x xs)
  then show ?case by (auto simp: inj_on_def)
qed simp

text \<open>
  What a \<open>HashAggregate\<close> yields for the rows \<open>rs\<close>, when \<open>kv\<close> gives the key values of a row, their keys
  are unambiguous and every aggregate is defined.
\<close>

definition grouped_rows ::
    "(row \<Rightarrow> row) \<Rightarrow> (agg \<Rightarrow> row list \<Rightarrow> value) \<Rightarrow> bool \<Rightarrow> agg list \<Rightarrow> row list \<Rightarrow> row list" where
  "grouped_rows kv val whole aggs rs =
     map (\<lambda>v. v @ map (\<lambda>a. val a (filter (\<lambda>r. kv r = v) rs)) aggs)
       (if whole \<and> rs = [] then [[]] else first_occurrences (map kv rs))"

lemma aggregate_rows:
  assumes kv: "\<And>r. r \<in> set rs \<Longrightarrow> group_values pw sch keys r = Inr (kv r)"
    and inj: "\<And>r r'. r \<in> set rs \<Longrightarrow> r' \<in> set rs \<Longrightarrow> rowKey (kv r) = rowKey (kv r') \<Longrightarrow> kv r = kv r'"
    and cells: "\<And>a sub. a \<in> set aggs \<Longrightarrow> set sub \<subseteq> set rs \<Longrightarrow>
      \<exists>c. cell_fold pw sch a sub = Inr c \<and> agg_value a c = val a sub"
  shows "\<exists>gs. rfold (agg_absorb pw sch keys aggs) (Map.empty, []) rs = Inr gs
    \<and> agg_rows aggs (agg_finish keys aggs gs) = Inr (grouped_rows kv val (keys = []) aggs rs)"
proof -
  let ?g = "row_group pw sch keys"
  have g: "?g r = rowKey (kv r)" if "r \<in> set rs" for r
    using kv [OF that] by (simp add: row_group_def)
  have "\<exists>gs. rfold (agg_absorb pw sch keys aggs) (Map.empty, []) sub = Inr gs \<and> groups_ok pw sch keys aggs sub gs"
    if "set sub \<subseteq> set rs" for sub
    using that
  proof (induction sub rule: rev_induct)
    case Nil
    then show ?case by (simp add: groups_ok_empty)
  next
    case (snoc r sub)
    then obtain gs where gs: "rfold (agg_absorb pw sch keys aggs) (Map.empty, []) sub = Inr gs"
        "groups_ok pw sch keys aggs sub gs" by auto
    have "\<exists>c. cell_fold pw sch a (filter (\<lambda>x. ?g x = rowKey (kv r)) sub @ [r]) = Inr c" if "a \<in> set aggs" for a
    proof -
      have "set (filter (\<lambda>x. ?g x = rowKey (kv r)) sub @ [r]) \<subseteq> set rs" using snoc.prems by auto
      with cells [OF that] show ?thesis by blast
    qed
    moreover have "r \<in> set rs" using snoc.prems by simp
    ultimately obtain gs' where gs': "agg_absorb pw sch keys aggs gs r = Inr gs'"
      using agg_absorb_total [OF gs(2) kv [of r]] by blast
    from gs(1) gs' agg_absorb_ok [OF gs(2) gs'] show ?case by (simp add: rfold_snoc)
  qed
  from this [OF subset_refl] obtain gs where gs: "rfold (agg_absorb pw sch keys aggs) (Map.empty, []) rs = Inr gs"
      and ok: "groups_ok pw sch keys aggs rs gs" by blast
  note ok' = ok [unfolded groups_ok_def Let_def]
  have inj_on: "inj_on rowKey (set (map kv rs))" using inj by (auto simp: inj_on_def)
  have "snd gs = first_occurrences (map rowKey (map kv rs))"
    using ok' g by (simp add: comp_def cong: map_cong)
  then have order: "snd gs = map rowKey (first_occurrences (map kv rs))"
    by (simp only: first_occurrences_map [OF inj_on])
  have st: "\<exists>st. fst gs (rowKey v) = Some st
      \<and> group_row aggs st = v @ map (\<lambda>a. val a (filter (\<lambda>r. kv r = v) rs)) aggs"
    if "v \<in> set (map kv rs)" for v
  proof -
    from that obtain r where r: "r \<in> set rs" "v = kv r" by auto
    with ok' g obtain st where st: "fst gs (rowKey v) = Some st" by (metis (no_types, lifting) domD imageI)
    with ok' obtain r' where r': "r' \<in> set rs" "?g r' = rowKey v" "group_values pw sch keys r' = Inr (keyValues st)"
      by blast
    with g inj r kv have key: "keyValues st = v" by (metis sum.inject(2))
    have eq: "filter (\<lambda>x. ?g x = rowKey v) rs = filter (\<lambda>x. kv x = v) rs"
      using g inj r by (intro filter_cong) auto
    have sub: "set (filter (\<lambda>x. kv x = v) rs) \<subseteq> set rs" by auto
    have "\<forall>a \<in> set aggs. \<exists>c. cell_fold pw sch a (filter (\<lambda>x. kv x = v) rs) = Inr c"
      using cells [OF _ sub] by blast
    then have "acc_cells st = map (\<lambda>a. projr (cell_fold pw sch a (filter (\<lambda>x. kv x = v) rs))) aggs"
      using ok' st eq cells_fold_all [of aggs pw sch "filter (\<lambda>x. kv x = v) rs"] by fastforce
    moreover have "agg_value a (projr (cell_fold pw sch a (filter (\<lambda>x. kv x = v) rs))) = val a (filter (\<lambda>x. kv x = v) rs)"
      if "a \<in> set aggs" for a
      using cells [OF that sub] by auto
    ultimately have "group_row aggs st = v @ map (\<lambda>a. val a (filter (\<lambda>r. kv r = v) rs)) aggs"
      by (simp add: group_row_def key zip_same_conv_map zip_map2)
    with st show ?thesis by blast
  qed
  show ?thesis
  proof (intro exI conjI)
    show "rfold (agg_absorb pw sch keys aggs) (Map.empty, []) rs = Inr gs" by (rule gs)
    show "agg_rows aggs (agg_finish keys aggs gs) = Inr (grouped_rows kv val (keys = []) aggs rs)"
    proof (cases "keys = [] \<and> rs = []")
      case True
      then have "\<forall>a \<in> set aggs. agg_value a new_cell = val a []"
        using cells [of _ "[]"] by (auto simp: cell_fold_def)
      with True gs show ?thesis
        by (auto simp: agg_finish_def agg_rows_def grouped_rows_def newAcc_def group_row_def zip_same_conv_map zip_map2)
    next
      case False
      have "snd gs = [] \<longleftrightarrow> rs = []"
        using ok' by (metis first_occurrences_simps(1,2) list.map_disc_iff set_empty)
      with False have fin: "agg_finish keys aggs gs = gs" by (auto simp: agg_finish_def)
      have "agg_rows aggs gs = rmapM (\<lambda>v. case fst gs (rowKey v) of
          None \<Rightarrow> Inl (OutOfRange ''unordered_map::at'') | Some st \<Rightarrow> Inr (group_row aggs st))
          (first_occurrences (map kv rs))"
        by (simp add: agg_rows_def order rmapM_map)
      also have "\<dots> = Inr (map (\<lambda>v. v @ map (\<lambda>a. val a (filter (\<lambda>r. kv r = v) rs)) aggs) (first_occurrences (map kv rs)))"
      proof (rule rmapM_Inr_map)
        fix v assume "v \<in> set (first_occurrences (map kv rs))"
        then have "v \<in> set (map kv rs)" by (simp only: first_occurrences_simps)
        from st [OF this] show "(case fst gs (rowKey v) of None \<Rightarrow> Inl (OutOfRange ''unordered_map::at'')
            | Some st \<Rightarrow> Inr (group_row aggs st)) = Inr (v @ map (\<lambda>a. val a (filter (\<lambda>r. kv r = v) rs)) aggs)"
          by auto
      qed
      finally show ?thesis using False by (simp add: fin grouped_rows_def)
    qed
  qed
qed

subsection \<open>The groups of the fast path\<close>

definition agg_prefix :: string where
  "agg_prefix = ''__agg''"

text \<open>A column of text or integers whose keys are unambiguous and whose name is no slot name.\<close>

definition key_alike :: "table \<Rightarrow> string \<Rightarrow> bool" where
  "key_alike t c =
     (has_col t c \<and> \<not> prefix agg_prefix (map tolower (cstring c))
      \<and> (let col = named_col t c in
           all_cells col (\<lambda>i. key_safe (cell_value col i))
           \<and> (c_kind col = KString
              \<or> (c_kind col = KInt64 \<and> all_cells col (\<lambda>i. toInt64 (cell_value col i) = Inr (c_i64 col ! i))))))"

definition key_values :: "table \<Rightarrow> string option \<Rightarrow> nat \<Rightarrow> row" where
  "key_values t g i = (case g of None \<Rightarrow> [] | Some c \<Rightarrow> [cell_value (named_col t c) i])"

definition group_string :: "row \<Rightarrow> string" where
  "group_string kv = (case kv of
       [] \<Rightarrow> []
     | v # _ \<Rightarrow> if isNull v then [] else case v of VStr s \<Rightarrow> CHR ''S'' # s | _ \<Rightarrow> CHR ''I'' # int_string (sint (projr (toInt64 v))))"

lemma group_string_int: "toInt64 v = Inr x \<Longrightarrow> group_string (v # vs) = CHR ''I'' # int_string (sint x)"
  by (cases v) (auto simp: group_string_def)

lemma fast_key_cell:
  assumes "wf_column c" "i < column_size c"
    and "c_kind c = KString
      \<or> (c_kind c = KInt64 \<and> all_cells c (\<lambda>i. toInt64 (cell_value c i) = Inr (c_i64 c ! i)))"
  shows "fast_key c i = Inr (group_string [cell_value c i], cell_value c i)"
proof (cases "isNull (cell_value c i)")
  case True
  then show ?thesis using assms by (simp add: fast_key_def cell_valid group_string_def isNull_def)
next
  case False
  then have bit: "bitmap_bits (c_valid c) ! i" by (auto simp: cell_value_def split: if_splits)
  have at: "column_valueAt c i = Inr (cell_value c i)"
    using assms(1,2) by (simp add: column_valueAt_wf col_values_def)
  show ?thesis
  proof (cases "c_kind c = KString")
    case True
    then have "cell_value c i = VStr (c_str c ! i)" using bit by (simp add: cell_value_def)
    then show ?thesis
      using assms True False by (simp add: fast_key_def cell_valid group_string_def wf_column_def)
  next
    case int: False
    then have k: "c_kind c = KInt64" "toInt64 (cell_value c i) = Inr (c_i64 c ! i)"
      using assms False by (auto dest: all_cellsD)
    note group_string_int [OF this(2), of "[]"]
    then show ?thesis
      using assms(1,2) k(1) False at by (simp add: fast_key_def cell_valid wf_column_def)
  qed
qed

lemma group_string_inject:
  assumes "wf_column c" "i < column_size c" "j < column_size c"
    and k: "c_kind c = KString
      \<or> (c_kind c = KInt64 \<and> all_cells c (\<lambda>i. toInt64 (cell_value c i) = Inr (c_i64 c ! i)))"
    and eq: "group_string [cell_value c i] = group_string [cell_value c j]"
  shows "cell_value c i = cell_value c j"
proof (cases "isNull (cell_value c i) \<or> isNull (cell_value c j)")
  case True
  with eq show ?thesis
    by (cases "cell_value c i"; cases "cell_value c j") (auto simp: group_string_def)
next
  case False
  have cell: "cell_value c l = (case c_kind c of
        KInt64 \<Rightarrow> makeIntValue (dt_id (c_type c)) (c_i64 c ! l)
      | KDouble \<Rightarrow> VF64 (c_f64 c ! l) | KString \<Rightarrow> VStr (c_str c ! l))" if "\<not> isNull (cell_value c l)" for l
    using that by (auto simp: cell_value_def split: if_splits)
  show ?thesis
  proof (cases "c_kind c = KString")
    case True
    with eq False cell [of i] cell [of j] show ?thesis by (simp add: group_string_def)
  next
    case int: False
    with k have kind: "c_kind c = KInt64" by simp
    have "group_string [cell_value c l] = CHR ''I'' # int_string (sint (c_i64 c ! l))"
      if "\<not> isNull (cell_value c l)" "l < column_size c" for l
      by (rule group_string_int) (use k int that in \<open>auto dest: all_cellsD\<close>)
    with eq False assms(2,3) have "int_string (sint (c_i64 c ! i)) = int_string (sint (c_i64 c ! j))" by simp
    then have "c_i64 c ! i = c_i64 c ! j" by (simp add: signed_word_eqI)
    with False cell [of i] cell [of j] kind show ?thesis by simp
  qed
qed

definition keys_alike :: "table \<Rightarrow> string option \<Rightarrow> bool" where
  "keys_alike t g = (case g of None \<Rightarrow> True | Some c \<Rightarrow> key_alike t c)"

definition group_of :: "table \<Rightarrow> string option \<Rightarrow> (nat \<times> string) option" where
  "group_of t g = map_option (\<lambda>c. (nat (indexOf (t_schema t) c), c)) g"

lemma group_string_values:
  assumes "wf_table t" "keys_alike t g" "i < rowCount t" "j < rowCount t"
    "group_string (key_values t g i) = group_string (key_values t g j)"
  shows "key_values t g i = key_values t g j"
proof (cases g)
  case (Some c)
  with assms(2) have c: "key_alike t c" "has_col t c" by (auto simp: keys_alike_def key_alike_def)
  with group_string_inject [of "named_col t c" i j] named_col [OF assms(1) c(2)] assms(3,4,5) show ?thesis
    by (auto simp: Some key_values_def key_alike_def Let_def)
qed (simp add: key_values_def)

text \<open>The group of the key \<open>v\<close> after the rows \<open>is\<close>, and all groups.\<close>

definition fast_group_at :: "table \<Rightarrow> string option \<Rightarrow> select_item list \<Rightarrow> nat list \<Rightarrow> row \<Rightarrow> fast_group" where
  "fast_group_at t g items is v =
     \<lparr>fg_aggs = map (\<lambda>it. projr (fast_fold t (spec_of t it) (filter (\<lambda>i. key_values t g i = v) is))) items,
      fg_key = (if v = [] then VNull else hd v)\<rparr>"

definition groups_at ::
    "table \<Rightarrow> string option \<Rightarrow> select_item list \<Rightarrow> nat list \<Rightarrow> row list \<Rightarrow> fast_groups \<Rightarrow> bool" where
  "groups_at t g items is ks gs =
     (fst gs = map (fast_group_at t g items is) ks
      \<and> (g \<noteq> None \<longrightarrow> (\<forall>j < length ks. snd gs (group_string (ks ! j)) = Some j)
           \<and> dom (snd gs) = group_string ` set ks))"

abbreviation keys_of :: "table \<Rightarrow> string option \<Rightarrow> nat list \<Rightarrow> row list" where
  "keys_of t g is \<equiv> first_occurrences (map (key_values t g) is)"

lemma fresh_group:
  assumes "v \<notin> key_values t g ` set is"
  shows "fast_group_new (length items) (if v = [] then VNull else hd v) = fast_group_at t g items is v"
proof -
  from assms have "filter (\<lambda>i. key_values t g i = v) is = []" by (auto simp: filter_empty_conv)
  then show ?thesis
    by (simp add: fast_group_new_def fast_group_at_def fast_fold_def map_replicate_const)
qed

lemma groupSlot_at:
  assumes wf: "wf_table t" "keys_alike t g" and i: "i < rowCount t" "set is \<subseteq> {..<rowCount t}"
    and gs: "groups_at t g items is (keys_of t g is) gs"
  shows "\<exists>gs' j. groupSlot t (group_of t g) (length items) gs i = Inr (gs', j)
    \<and> groups_at t g items is (keys_of t g (is @ [i])) gs'
    \<and> j < length (keys_of t g (is @ [i])) \<and> keys_of t g (is @ [i]) ! j = key_values t g i"
proof (cases g)
  case None
  have one: "keys_of t None xs = (if xs = [] then [] else [[]])" for xs
    by (induction xs rule: rev_induct) (auto simp: key_values_def image_constant_conv)
  have new: "keys_of t None (is @ [i]) = [[]]" using one [of "is @ [i]"] by simp
  have v: "key_values t None i = []" by (simp add: key_values_def)
  have slot: "groupSlot t (group_of t None) (length items) gs i
      = Inr (if fst gs = [] then ([fast_group_new (length items) VNull], snd gs) else gs, 0)"
    by (simp add: groupSlot_def group_of_def)
  show ?thesis
  proof (cases "is = []")
    case True
    with gs one fresh_group [of "[]" t None "[]" items] show ?thesis
      unfolding None new v slot by (simp add: groups_at_def)
  next
    case False
    with gs one have "fst gs = [fast_group_at t None items is []]" by (simp add: None groups_at_def)
    then show ?thesis unfolding None new v slot by (simp add: groups_at_def)
  qed
next
  case (Some c)
  with wf(2) have c: "key_alike t c" "has_col t c" by (auto simp: keys_alike_def key_alike_def)
  note nc = named_col [OF wf(1) c(2)]
  let ?v = "key_values t g i" and ?ks = "keys_of t g is"
  have key: "fast_key (named_col t c) i = Inr (group_string ?v, hd ?v)" "?v \<noteq> []"
    using fast_key_cell [OF nc(1), of i] c i(1) nc(2) by (auto simp: Some key_values_def key_alike_def Let_def)
  have same: "(u = ?v) = (group_string u = group_string ?v)" if "u \<in> set ?ks" for u
    using that group_string_values [OF wf _ i(1)] i(2) by (auto simp: subset_iff)
  from gs have fst_gs: "fst gs = map (fast_group_at t g items is) ?ks"
    and idx: "\<forall>j < length ?ks. snd gs (group_string (?ks ! j)) = Some j" "dom (snd gs) = group_string ` set ?ks"
    by (auto simp: groups_at_def Some)
  have slot: "groupSlot t (group_of t g) (length items) gs i = (case snd gs (group_string ?v) of
      Some j \<Rightarrow> Inr (gs, j)
    | None \<Rightarrow> Inr ((fst gs @ [fast_group_new (length items) (hd ?v)],
        (snd gs)(group_string ?v \<mapsto> length (fst gs))), length (fst gs)))"
    using key(1) nc(3) by (simp add: groupSlot_def group_of_def Some split: option.split)
  show ?thesis
  proof (cases "?v \<in> set ?ks")
    case True
    then obtain j where j: "j < length ?ks" "?ks ! j = ?v" by (metis in_set_conv_nth)
    with idx(1) have "snd gs (group_string ?v) = Some j" by metis
    moreover have "keys_of t g (is @ [i]) = ?ks" using True by simp
    ultimately show ?thesis using gs j slot by auto
  next
    case False
    have "group_string ?v \<notin> group_string ` set ?ks"
    proof
      assume "group_string ?v \<in> group_string ` set ?ks"
      then obtain u where "group_string ?v = group_string u" "u \<in> set ?ks" by (rule imageE)
      with same [of u] False show False by simp
    qed
    then have "group_string ?v \<notin> dom (snd gs)" unfolding idx(2) .
    then have none: "snd gs (group_string ?v) = None" by auto
    have ks: "keys_of t g (is @ [i]) = ?ks @ [?v]" using False by simp
    have fresh: "fast_group_new (length items) (hd ?v) = fast_group_at t g items is ?v"
      using fresh_group [of ?v t g "is" items] key(2) False by simp
    have other: "group_string (?ks ! j) \<noteq> group_string ?v" if "j < length ?ks" for j
      using same [OF nth_mem [OF that]] False nth_mem [OF that] by metis
    have "groups_at t g items is (?ks @ [?v]) (fst gs @ [fast_group_new (length items) (hd ?v)],
        (snd gs)(group_string ?v \<mapsto> length (fst gs)))"
      using fst_gs idx other
      by (auto simp: groups_at_def fresh nth_append less_Suc_eq simp del: first_occurrences_simps)
    then show ?thesis
      unfolding ks by (intro exI conjI) (auto simp: slot none fst_gs)
  qed
qed

definition fast_plan_of :: "table \<Rightarrow> string option \<Rightarrow> select_item list \<Rightarrow> pred_atom list \<Rightarrow> fast_plan" where
  "fast_plan_of t g items ps = \<lparr>fp_table = t, fp_group = group_of t g, fp_key = (g \<noteq> None),
     fp_aggs = map (spec_of t) items, fp_preds = ps\<rparr>"

lemma fast_step_fold:
  assumes "wf_table t" "agg_alike t (fst it)" "set (is @ [i]) \<subseteq> {..<rowCount t}"
  shows "fast_step t i (spec_of t it) (projr (fast_fold t (spec_of t it) is))
    = Inr (projr (fast_fold t (spec_of t it) (is @ [i])))"
proof -
  obtain e al where it: "it = (e, al)" by (cases it)
  with assms(2) have e: "agg_alike t e" by simp
  from agg_values_alike(1) [OF assms(1) e assms(3), of al] show ?thesis
    by (auto simp: it fast_fold_def rfold_snoc res_simps)
qed

lemma fast_row_at:
  assumes wf: "wf_table t" "keys_alike t g" and items: "\<And>it. it \<in> set items \<Longrightarrow> agg_alike t (fst it)"
    and i: "i < rowCount t" "set is \<subseteq> {..<rowCount t}" and ok: "rowPasses t ps i = Inr True"
    and gs: "groups_at t g items is (keys_of t g is) gs"
  shows "\<exists>gs'. fast_row (fast_plan_of t g items ps) gs i = Inr gs'
    \<and> groups_at t g items (is @ [i]) (keys_of t g (is @ [i])) gs'"
proof -
  let ?v = "key_values t g i" and ?ks = "keys_of t g (is @ [i])"
  from groupSlot_at [OF wf i gs] obtain gs1 j where s1:
      "groupSlot t (group_of t g) (length items) gs i = Inr (gs1, j)" "groups_at t g items is ?ks gs1"
      "j < length ?ks" "?ks ! j = ?v"
    by blast
  have at_j: "fst gs1 ! j = fast_group_at t g items is ?v"
    using s1(2,3,4) by (simp add: groups_at_def del: first_occurrences_simps)
  have new: "fast_group_at t g items (is @ [i]) ?v
      = (fast_group_at t g items is ?v)\<lparr>fg_aggs := map (\<lambda>it. projr (fast_fold t (spec_of t it)
          (filter (\<lambda>i. key_values t g i = ?v) is @ [i]))) items\<rparr>"
    by (simp add: fast_group_at_def)
  have "rmapM (\<lambda>(a, st). fast_step t i a st)
        (zip (map (spec_of t) items) (fg_aggs (fast_group_at t g items is ?v)))
      = rmapM (\<lambda>it. fast_step t i (spec_of t it)
          (projr (fast_fold t (spec_of t it) (filter (\<lambda>i. key_values t g i = ?v) is)))) items"
    by (simp add: fast_group_at_def zip_map1 zip_map2 zip_same_conv_map rmapM_map case_prod_unfold)
  also have "\<dots> = Inr (map (\<lambda>it. projr (fast_fold t (spec_of t it) (filter (\<lambda>i. key_values t g i = ?v) is @ [i]))) items)"
    by (rule rmapM_Inr_map, rule fast_step_fold [OF wf(1) items]) (use i in auto)
  finally have row: "fast_row (fast_plan_of t g items ps) gs i
      = Inr ((fst gs1)[j := fast_group_at t g items (is @ [i]) ?v], snd gs1)"
    by (simp add: fast_row_def fast_plan_of_def ok s1(1) at_j new)
  have "(map (fast_group_at t g items is) ?ks)[j := fast_group_at t g items (is @ [i]) ?v]
      = map (fast_group_at t g items (is @ [i])) ?ks"
  proof (rule nth_equalityI)
    fix m assume m: "m < length ((map (fast_group_at t g items is) ?ks)[j := fast_group_at t g items (is @ [i]) ?v])"
    have "?ks ! m \<noteq> ?v" if "m \<noteq> j"
      using that s1(3,4) m nth_eq_iff_index_eq [of ?ks m j] first_occurrences_simps(3)
      by (auto simp del: first_occurrences_simps(4))
    then show "(map (fast_group_at t g items is) ?ks)[j := fast_group_at t g items (is @ [i]) ?v] ! m
        = map (fast_group_at t g items (is @ [i])) ?ks ! m"
      using m s1(4) by (cases "m = j") (auto simp: fast_group_at_def simp del: first_occurrences_simps)
  qed (simp del: first_occurrences_simps)
  with s1(2) row show ?thesis
    by (auto simp: groups_at_def simp del: first_occurrences_simps)
qed

lemma fast_groups_loop:
  assumes "wf_table t" "keys_alike t g" "\<And>it. it \<in> set items \<Longrightarrow> agg_alike t (fst it)"
    and "\<And>i. i < rowCount t \<Longrightarrow> rowPasses t ps i = Inr (P i)"
  shows "fast_groups_of (fast_plan_of t g items ps)
    = Inr (map (fast_group_at t g items (filter P [0..<rowCount t]))
        (if g = None \<and> filter P [0..<rowCount t] = [] then [[]] else keys_of t g (filter P [0..<rowCount t])))"
proof -
  have "\<exists>gs. rfold (fast_row (fast_plan_of t g items ps)) ([], Map.empty) [0..<n] = Inr gs
      \<and> groups_at t g items (filter P [0..<n]) (keys_of t g (filter P [0..<n])) gs" if "n \<le> rowCount t" for n
    using that
  proof (induction n)
    case 0
    then show ?case by (simp add: groups_at_def)
  next
    case (Suc n)
    then obtain gs where gs: "rfold (fast_row (fast_plan_of t g items ps)) ([], Map.empty) [0..<n] = Inr gs"
        "groups_at t g items (filter P [0..<n]) (keys_of t g (filter P [0..<n])) gs"
      by auto
    have pass: "rowPasses t ps n = Inr (P n)" using assms(4) Suc.prems by simp
    show ?case
    proof (cases "P n")
      case True
      have "set (filter P [0..<n]) \<subseteq> {..<rowCount t}" using Suc.prems by auto
      from fast_row_at [OF assms(1-3) _ this _ gs(2), of n ps] True pass Suc.prems gs(1) show ?thesis
        by (auto simp: rfold_snoc)
    next
      case False
      have "fast_row (fast_plan_of t g items ps) gs n = Inr gs"
        using pass False by (simp add: fast_row_def fast_plan_of_def)
      with gs False show ?thesis by (simp add: rfold_snoc)
    qed
  qed
  from this [of "rowCount t"] obtain gs where
    gs: "rfold (fast_row (fast_plan_of t g items ps)) ([], Map.empty) [0..<rowCount t] = Inr gs"
      "groups_at t g items (filter P [0..<rowCount t]) (keys_of t g (filter P [0..<rowCount t])) gs"
    by auto
  let ?is = "filter P [0..<rowCount t]"
  have none: "keys_of t g ?is = [] \<longleftrightarrow> ?is = []"
    by (metis first_occurrences_simps(1,2) list.map_disc_iff set_empty)
  have table: "fp_table (fast_plan_of t g items ps) = t" "fp_group (fast_plan_of t g items ps) = None \<longleftrightarrow> g = None"
    "length (fp_aggs (fast_plan_of t g items ps)) = length items"
    by (simp_all add: fast_plan_of_def group_of_def)
  show ?thesis
  proof (cases "g = None \<and> ?is = []")
    case True
    with gs none have "fst gs = []" by (simp add: groups_at_def)
    moreover have "fast_group_new (length items) VNull = fast_group_at t g items ?is []"
      using fresh_group [of "[]" t g ?is items] True by simp
    ultimately show ?thesis using True unfolding fast_groups_of_def table gs(1) by simp
  next
    case False
    with gs(2) none have "\<not> (g = None \<and> fst gs = [])" by (auto simp: groups_at_def)
    then show ?thesis using False gs(2) unfolding fast_groups_of_def table gs(1) by (auto simp: groups_at_def)
  qed
qed

end
