(* ===== verification/LQ_FastAgree.thy ===== *)
theory LQ_FastAgree
  imports LQ_FastEq
begin

section \<open>When the fast path agrees with the operator tree\<close>

text \<open>
  \<open>runSelect\<close> answers an aggregate query on the fast path of \<open>fast_aggregate.cpp\<close> whenever the query
  has the right shape, and its comment asks that both paths agree. \<open>query_alike\<close> states when they
  do, as a condition that can be evaluated: COUNT, SUM, AVG over numbers that convert exactly, MIN
  and MAX over a DOUBLE column without NaN, a key column of text or integers, and comparisons
  of columns with constants where integers stay within \<open>2 ^ 53\<close> (\<open>exact_int\<close>). The lemmas follow the
  planner of \<open>connection.cpp\<close>: the slots of the aggregates, the names of the columns that stand for
  them, the projection above the aggregation.
\<close>

subsection \<open>Conditions\<close>

definition small_int :: "value \<Rightarrow> bool" where
  "small_int v = (case toInt64 v of Inl _ \<Rightarrow> True | Inr x \<Rightarrow> exact_int (sint x))"

text \<open>
  A column and a constant that both paths compare alike: text with text, or numbers without NaN,
  where two integers are exact as \<open>double\<close>.
\<close>

definition compares_alike :: "column \<Rightarrow> value \<Rightarrow> bool" where
  "compares_alike c v =
     (if typeId v = VARCHAR then c_kind c = KString
      else isNumeric v \<and> c_kind c \<noteq> KString \<and> (case toDouble v of Inl _ \<Rightarrow> False | Inr d \<Rightarrow> \<not> f64_is_nan d)
        \<and> all_cells c (\<lambda>i. isNumeric (cell_value c i) \<and> toDouble (cell_value c i) = Inr (num_cell c i)
            \<and> \<not> f64_is_nan (num_cell c i)
            \<and> (bothIntegers (cell_value c i) v \<longrightarrow> small_int (cell_value c i) \<and> small_int v)))"

fun cond_alike :: "table \<Rightarrow> expr \<Rightarrow> bool" where
  "cond_alike t (BinaryExpr op a b) =
     (if op = AND then cond_alike t a \<and> cond_alike t b
      else toCmp op \<noteq> None
        \<and> (case (a, b) of
             (ColumnRef None None c, Literal v) \<Rightarrow> has_col t c \<and> compares_alike (named_col t c) v
           | (Literal v, ColumnRef None None c) \<Rightarrow> has_col t c \<and> compares_alike (named_col t c) v
           | _ \<Rightarrow> False))"
| "cond_alike t _ = False"

lemma toDouble_integer: "typeIsInteger (typeId v) \<Longrightarrow> toInt64 v = Inr x \<Longrightarrow> toDouble v = Inr (f64_of_int (sint x))"
  by (cases v) (auto simp: sint_up_scast is_up)

lemma compare_numbers:
  assumes "isNumeric u" "isNumeric v" "toDouble u = Inr x" "toDouble v = Inr y"
    and "bothIntegers u v \<longrightarrow> small_int u \<and> small_int v"
  shows "compareValues u v = Inr (three_way (f64_lt x y) (f64_lt y x))"
proof -
  have nn: "\<not> isNull u" "\<not> isNull v" using assms(3,4) by (auto simp: isNull_def)
  show ?thesis
  proof (cases "bothIntegers u v")
    case True
    then obtain a b where i: "toInt64 u = Inr a" "toInt64 v = Inr b"
      using toInt64_integer [of u] toInt64_integer [of v] by (auto simp: bothIntegers_def)
    with True assms toDouble_integer [of u a] toDouble_integer [of v b]
    have "x = f64_of_int (sint a)" "y = f64_of_int (sint b)" "exact_int (sint a)" "exact_int (sint b)"
      by (auto simp: bothIntegers_def small_int_def)
    with True i nn assms(1,2) show ?thesis by (simp add: compareValues_def f64_of_int_lt_iff)
  next
    case False
    with nn assms show ?thesis by (simp add: compareValues_def)
  qed
qed

lemma three_way_result:
  assumes "toCmp op = Some cmp" "eq a b = (\<not> lt a b \<and> \<not> lt b a)" "\<not> (lt a b \<and> lt b a)"
  shows "compare_result op (three_way (lt a b) (lt b a)) = VBool (applyCmp eq lt cmp a b)"
    and "compare_result op (three_way (lt b a) (lt a b)) = VBool (applyCmp eq lt (flip cmp) a b)"
  using assms by (cases op; auto simp: compare_result_def three_way_def)+

lemma rowPasses_append:
  "rowPasses t (ps @ qs) i = rbind (rowPasses t ps i) (\<lambda>ok. if ok then rowPasses t qs i else Inr False)"
  by (induction ps) (auto simp: rbind_assoc intro!: rbind_plain_cong)

lemma compare_cell:
  assumes wf: "wf_column c" "i < column_size c" and nn: "\<not> isNull (cell_value c i)"
    and alike: "compares_alike c v" "typeId v \<noteq> VARCHAR"
  obtains d where "toDouble v = Inr d" "isNumeric v" "num_at c i = Inr (num_cell c i)"
    "\<not> f64_is_nan d" "\<not> f64_is_nan (num_cell c i)"
    "compareValues (cell_value c i) v = Inr (three_way (f64_lt (num_cell c i) d) (f64_lt d (num_cell c i)))"
proof -
  from alike obtain d where d: "toDouble v = Inr d" "isNumeric v" "\<not> f64_is_nan d" "c_kind c \<noteq> KString"
    by (auto simp: compares_alike_def split: sum.splits)
  have "isNumeric (cell_value c i) \<and> toDouble (cell_value c i) = Inr (num_cell c i)
      \<and> \<not> f64_is_nan (num_cell c i)
      \<and> (bothIntegers (cell_value c i) v \<longrightarrow> small_int (cell_value c i) \<and> small_int v)"
    by (rule all_cellsD [OF _ wf(2) nn]) (use alike in \<open>simp add: compares_alike_def\<close>)
  with d compare_numbers [of "cell_value c i" v] num_at_cell [OF wf d(4)] show ?thesis
    by (intro that) auto
qed

lemma f64_eq_lt: "\<not> f64_is_nan x \<Longrightarrow> \<not> f64_is_nan y \<Longrightarrow> f64_eq x y = (\<not> f64_lt x y \<and> \<not> f64_lt y x)"
  by (auto simp: f64_eq_def f64_lt_def)

text \<open>One comparison of a column with a constant, on either side.\<close>

lemma make_atom_alike:
  assumes wf: "wf_table t" "has_col t c" and alike: "compares_alike (named_col t c) v" and op: "toCmp op = Some cmp"
  shows "\<exists>p. make_atom t cmp c v = Inr (Some p)
      \<and> (\<forall>i < rowCount t. \<exists>tr. rowPasses t [p] i = Inr (tr = 1) \<and>
           truth pw (t_schema t) (table_rows t ! i) (BinaryExpr op (ColumnRef None None c) (Literal v)) = Inr tr)"
    and "\<exists>p. make_atom t (flip cmp) c v = Inr (Some p)
      \<and> (\<forall>i < rowCount t. \<exists>tr. rowPasses t [p] i = Inr (tr = 1) \<and>
           truth pw (t_schema t) (table_rows t ! i) (BinaryExpr op (Literal v) (ColumnRef None None c)) = Inr tr)"
proof -
  note nc = named_col [OF wf]
  let ?col = "named_col t c"
  have nlogic: "op \<noteq> AND" "op \<noteq> OR" "op \<in> {EQ, NEQ, LT, LTE, GT, GTE}" "op \<notin> {ADD, SUB, MUL, DIV, MOD, POW}"
    using op by (cases op; simp)+
  have ev: "truth pw (t_schema t) (table_rows t ! i) (BinaryExpr op (ColumnRef None None c) (Literal v))
        = rbind (rmap (compare_result op) (compareValues (cell_value ?col i) v)) truthiness"
      "truth pw (t_schema t) (table_rows t ! i) (BinaryExpr op (Literal v) (ColumnRef None None c))
        = rbind (rmap (compare_result op) (compareValues v (cell_value ?col i))) truthiness"
    if "i < rowCount t" for i
    using that nlogic nc(4) by (simp_all add: truth_def eval_simps(1,4) eval_binary_def)
  have valid: "bitmap_isValid (c_valid ?col) i = Inr (\<not> isNull (cell_value ?col i))" if "i < rowCount t" for i
    using that nc by (simp add: cell_valid)
  have null: "isNull (cell_value ?col i) \<Longrightarrow> compareValues (cell_value ?col i) v = Inr 2
      \<and> compareValues v (cell_value ?col i) = Inr 2" for i
    by (simp add: isNull_def)
  have c2: "compare_result op 2 = VNull" by (simp add: compare_result_def)
  have idx: "\<not> indexOf (t_schema t) c < 0" using wf(2) by (simp add: has_col_def)
  define atom where "atom = (\<lambda>k. if typeId v = VARCHAR
      then \<lparr>atom_col = nat (indexOf (t_schema t) c), atom_op = k, numConst = f64_zero False,
            isNumericAtom = False, strConst = projr (getString v)\<rparr>
      else \<lparr>atom_col = nat (indexOf (t_schema t) c), atom_op = k, numConst = projr (toDouble v),
            isNumericAtom = True, strConst = []\<rparr>)"
  have atom: "make_atom t k c v = Inr (Some (atom k))" for k
  proof (cases "typeId v = VARCHAR")
    case True
    then obtain s where "v = VStr s" using typeId_cases(2) by blast
    then show ?thesis using idx by (simp add: make_atom_def atom_def)
  next
    case False
    with alike obtain d where "toDouble v = Inr d" "isNumeric v"
      by (auto simp: compares_alike_def split: sum.splits)
    moreover from this have "\<not> isNull v" by (auto simp: isNull_def)
    ultimately show ?thesis
      using False idx by (simp add: make_atom_def atom_def isNumeric_def)
  qed
  have pass: "rowPasses t [atom k] i = Inr (\<not> isNull (cell_value ?col i) \<and> b)"
      if "i < rowCount t" and "\<not> isNull (cell_value ?col i) \<Longrightarrow> rbind (if isNumericAtom (atom k)
          then rmap (\<lambda>x. applyCmp f64_eq f64_lt k x (numConst (atom k))) (num_at ?col i)
          else if c_kind ?col \<noteq> KString then Inr False
          else rmap (\<lambda>x. applyCmp (=) (<) k x (strConst (atom k))) (vec_at (c_str ?col) i)) Inr = Inr b" for k i b
  proof -
    have "atom_col (atom k) = nat (indexOf (t_schema t) c)" "atom_op (atom k) = k" by (simp_all add: atom_def)
    with that valid [OF that(1)] nc(3) show ?thesis
      by (cases "isNull (cell_value ?col i)") (auto simp: rmap_eq_Inr split: if_splits)
  qed
  have main: "\<exists>b b'. rowPasses t [atom cmp] i = Inr b \<and> rowPasses t [atom (flip cmp)] i = Inr b'
      \<and> rbind (rmap (compare_result op) (compareValues (cell_value ?col i) v)) truthiness
          = Inr (if isNull (cell_value ?col i) then 2 else if b then 1 else 0)
      \<and> rbind (rmap (compare_result op) (compareValues v (cell_value ?col i))) truthiness
          = Inr (if isNull (cell_value ?col i) then 2 else if b' then 1 else 0)
      \<and> (isNull (cell_value ?col i) \<longrightarrow> \<not> b \<and> \<not> b')" if i: "i < rowCount t" for i
  proof (cases "isNull (cell_value ?col i)")
    case True
    with null [of i] pass [OF i, of _ False] show ?thesis by (auto simp: c2 simp del: rowPasses.simps)
  next
    case False
    show ?thesis
    proof (cases "typeId v = VARCHAR")
      case True
      then obtain s where v: "v = VStr s" using typeId_cases(2) by blast
      have k: "c_kind ?col = KString" using alike True by (simp add: compares_alike_def)
      with False have cell: "cell_value ?col i = VStr (c_str ?col ! i)"
        by (auto simp: cell_value_def split: if_splits)
      have str: "vec_at (c_str ?col) i = Inr (c_str ?col ! i)"
        using nc i k by (simp add: wf_column_def)
      have p: "rowPasses t [atom j] i = Inr (applyCmp (=) (<) j (c_str ?col ! i) s)" for j
        using pass [OF i, of j "applyCmp (=) (<) j (c_str ?col ! i) s"] False
        by (simp add: atom_def v k str)
      have total: "(c_str ?col ! i = s) = (\<not> c_str ?col ! i < s \<and> \<not> s < c_str ?col ! i)"
          "\<not> (c_str ?col ! i < s \<and> s < c_str ?col ! i)" by auto
      note res = three_way_result [OF op, of "(=)" "c_str ?col ! i" s "(<)", OF total]
      show ?thesis
        using False p by (simp add: cell v compareValues_def res del: rowPasses.simps)
    next
      case num: False
      from nc(1,2) i have "i < column_size ?col" by simp
      from compare_cell [OF nc(1) this False alike num] obtain d where d: "toDouble v = Inr d"
          "num_at ?col i = Inr (num_cell ?col i)" "\<not> f64_is_nan d" "\<not> f64_is_nan (num_cell ?col i)"
          "compareValues (cell_value ?col i) v
             = Inr (three_way (f64_lt (num_cell ?col i) d) (f64_lt d (num_cell ?col i)))"
        by blast
      have p: "rowPasses t [atom j] i = Inr (applyCmp f64_eq f64_lt j (num_cell ?col i) d)" for j
        using pass [OF i, of j "applyCmp f64_eq f64_lt j (num_cell ?col i) d"] False num d
        by (simp add: atom_def)
      have "compareValues v (cell_value ?col i)
          = Inr (three_way (f64_lt d (num_cell ?col i)) (f64_lt (num_cell ?col i) d))"
        by (simp add: compareValues_flip [of v] d(5))
      moreover have asym: "\<not> (f64_lt (num_cell ?col i) d \<and> f64_lt d (num_cell ?col i))"
        by (auto dest: f64_lt_asym)
      note res = three_way_result [OF op, of f64_eq "num_cell ?col i" d f64_lt, OF f64_eq_lt [OF d(4,3)] asym]
      ultimately show ?thesis
        using False p d(5) by (simp add: res del: rowPasses.simps)
    qed
  qed
  show "\<exists>p. make_atom t cmp c v = Inr (Some p)
      \<and> (\<forall>i < rowCount t. \<exists>tr. rowPasses t [p] i = Inr (tr = 1) \<and>
           truth pw (t_schema t) (table_rows t ! i) (BinaryExpr op (ColumnRef None None c) (Literal v)) = Inr tr)"
    using atom main ev(1) by fastforce
  show "\<exists>p. make_atom t (flip cmp) c v = Inr (Some p)
      \<and> (\<forall>i < rowCount t. \<exists>tr. rowPasses t [p] i = Inr (tr = 1) \<and>
           truth pw (t_schema t) (table_rows t ! i) (BinaryExpr op (Literal v) (ColumnRef None None c)) = Inr tr)"
    using atom main ev(2) by fastforce
qed

lemma atom_alike:
  assumes "wf_table t" "cond_alike t (BinaryExpr op a b)" "op \<noteq> AND"
  shows "\<exists>p. parseAtom t (BinaryExpr op a b) = Inr (Some p)
    \<and> (\<forall>i < rowCount t. \<exists>tr. rowPasses t [p] i = Inr (tr = 1)
         \<and> truth pw (t_schema t) (table_rows t ! i) (BinaryExpr op a b) = Inr tr)"
proof -
  from assms(2,3) obtain cmp where op: "toCmp op = Some cmp" by auto
  from assms(2,3) consider
      (left) c v where "a = ColumnRef None None c" "b = Literal v" "has_col t c" "compares_alike (named_col t c) v"
    | (right) c v where "a = Literal v" "b = ColumnRef None None c" "has_col t c" "compares_alike (named_col t c) v"
    by (cases a; cases b) (auto split: option.splits)
  then show ?thesis
  proof cases
    case left
    with make_atom_alike(1) [OF assms(1) left(3,4) op] show ?thesis by (simp add: parseAtom_def op del: rowPasses.simps)
  next
    case right
    with make_atom_alike(2) [OF assms(1) right(3,4) op] show ?thesis by (simp add: parseAtom_def op del: rowPasses.simps)
  qed
qed

lemma conds_alike:
  assumes "wf_table t" "cond_alike t e"
  shows "\<exists>ps. parsePredicate t e = Inr (Some ps)
    \<and> (\<forall>i < rowCount t. \<exists>tr. rowPasses t ps i = Inr (tr = 1)
         \<and> truth pw (t_schema t) (table_rows t ! i) e = Inr tr)"
  using assms
proof (induction t e rule: cond_alike.induct)
  case (1 t op a b)
  show ?case
  proof (cases "op = AND")
    case False
    with atom_alike [OF 1(3,4) False, of pw] show ?thesis
      by (auto simp del: rowPasses.simps cond_alike.simps)
  next
    case True
    with 1 obtain ps qs where ps: "parsePredicate t a = Inr (Some ps)" "parsePredicate t b = Inr (Some qs)"
      and p: "\<And>i. i < rowCount t \<Longrightarrow> \<exists>tr. rowPasses t ps i = Inr (tr = 1)
          \<and> truth pw (t_schema t) (table_rows t ! i) a = Inr tr"
        "\<And>i. i < rowCount t \<Longrightarrow> \<exists>tr. rowPasses t qs i = Inr (tr = 1)
          \<and> truth pw (t_schema t) (table_rows t ! i) b = Inr tr"
      by auto
    have "\<exists>tr. rowPasses t (ps @ qs) i = Inr (tr = 1)
        \<and> truth pw (t_schema t) (table_rows t ! i) (BinaryExpr AND a b) = Inr tr" if i: "i < rowCount t" for i
    proof -
      from p [OF i] obtain l r where lr: "rowPasses t ps i = Inr (l = 1)" "rowPasses t qs i = Inr (r = 1)"
          "truth pw (t_schema t) (table_rows t ! i) a = Inr l" "truth pw (t_schema t) (table_rows t ! i) b = Inr r"
        by blast
      then have "l \<in> {0, 1, 2}" "r \<in> {0, 1, 2}"
        by (auto simp: truth_def elim!: rbindE dest!: truthiness_range)
      with lr show ?thesis
        by (auto simp: rowPasses_append truth_and and3_def)
    qed
    with ps True show ?thesis by auto
  qed
qed simp_all

subsection \<open>Slots\<close>

definition slot_name :: "nat \<Rightarrow> string" where
  "slot_name j = agg_prefix @ nat_string j"

definition expr_of_call :: "agg_call \<Rightarrow> expr" where
  "expr_of_call fc = FunctionCall (ac_name fc) (ac_args fc) (ac_distinct fc) (ac_star fc) (ac_loc fc)"

lemma call_of_expr [simp]: "call_of (expr_of_call fc) = fc"
  by (simp add: call_of_def expr_of_call_def)

text \<open>The slots made for the items \<open>es\<close>, in order.\<close>

definition slots_for :: "expr set \<Rightarrow> slots \<Rightarrow> bool" where
  "slots_for E sl = (\<forall>j < length sl. snd (sl ! j) = slot_name j \<and> expr_of_call (fst (sl ! j)) \<in> E)"

lemma alike_call:
  assumes "agg_alike t e"
  shows "collectAggs e = [call_of e]" "expr_of_call (call_of e) = e" "isAggregate (ac_name (call_of e))"
  by (rule agg_alikeE [OF assms]; auto simp: call_of_def expr_of_call_def isAggregate_def aggregate_names_def)+

lemma collected_slots:
  assumes "\<And>it. it \<in> set items \<Longrightarrow> agg_alike t (fst it)" "slots_for E sl"
  shows "slots_for (E \<union> fst ` set items) (fold (\<lambda>(e, _) sl. collectInto sl e) items sl)"
  using assms
proof (induction items arbitrary: E sl)
  case (Cons it items)
  have "collectInto sl (fst it) = (if known sl (call_of (fst it)) then sl else addSlot sl (call_of (fst it)))"
    using alike_call(1) [of t "fst it"] Cons.prems(1) by (simp add: collectInto_def)
  then have "slots_for (insert (fst it) E) (collectInto sl (fst it))"
    using Cons.prems alike_call(2) [of t "fst it"]
    by (auto simp: slots_for_def addSlot_def nth_append slot_name_def agg_prefix_def)
  from Cons.IH [OF _ this] Cons.prems(1) show ?case by (simp add: case_prod_unfold)
qed simp

text \<open>The calls of a slot and of an item that found it compute the same.\<close>

definition same_call :: "agg_call \<Rightarrow> agg_call \<Rightarrow> bool" where
  "same_call a b = (ac_name a = ac_name b \<and> ac_star a = ac_star b \<and> (ac_star a \<or> ac_args a = ac_args b))"

lemma known_same:
  assumes "agg_alike t e" "agg_alike t e'" "known_as (call_of e) (call_of e', n)"
    and "ac_loc (call_of e') = ac_loc (call_of e) \<Longrightarrow> e' = e"
  shows "same_call (call_of e') (call_of e)"
proof -
  have "same_call (call_of e') (call_of e)" if "sameAggregate (call_of e') (call_of e)"
    using that assms(1,2)
    by (elim agg_alikeE) (auto simp: sameAggregate_def call_of_def same_call_def columnRef_string_def split: if_splits)
  with assms(3,4) show ?thesis by (auto simp: known_as_def same_call_def)
qed

lemma same_call_value:
  assumes "same_call (call_of e) (call_of e')"
  shows "agg_over t e is = agg_over t e' is"
    and "agg_outType (make_agg (call_of e, n)) = agg_outType (make_agg (call_of e', n'))"
proof -
  from assms have "spec_of t (e, None) = spec_of t (e', None)"
    by (auto simp: spec_of_def same_call_def Let_def)
  then show "agg_over t e is = agg_over t e' is" by (simp add: agg_over_def)
  from assms show "agg_outType (make_agg (call_of e, n)) = agg_outType (make_agg (call_of e', n'))"
    by (simp add: make_agg_def same_call_def)
qed

subsection \<open>Names of columns\<close>

lemma indexOf_unique:
  assumes "k < length s" "ci_eq (cd_name (s ! k)) nm" "\<And>j. j < k \<Longrightarrow> \<not> ci_eq (cd_name (s ! j)) nm"
  shows "indexOf s nm = int k"
proof -
  from assms(1,2) have "indexOf s nm \<noteq> - 1" by (auto simp: indexOf_none intro!: bexI [of _ "s ! k"])
  with indexOf_ge [of s nm] have pos: "0 \<le> indexOf s nm" by simp
  from indexOf_first [OF pos] assms(2,3) have "nat (indexOf s nm) = k" by (metis linorder_neqE_nat)
  with pos show ?thesis by simp
qed

lemma nat_string_plain: "CHR 0x00 \<notin> set (nat_string n)" "map tolower (nat_string n) = nat_string n"
proof -
  show "CHR 0x00 \<notin> set (nat_string n)" by (auto dest!: nat_string_digits simp: isdigit_def)
  show "map tolower (nat_string n) = nat_string n"
    by (intro map_idI) (auto dest!: nat_string_digits simp: tolower_def isdigit_def isupper_def)
qed

lemma slot_name_inject: "ci_eq (slot_name i) (slot_name j) = (i = j)"
  by (simp add: ci_eq_iff_lower slot_name_def agg_prefix_def nat_string_plain)

lemma slot_name_prefix: "ci_eq c (slot_name j) \<Longrightarrow> prefix agg_prefix (map tolower (cstring c))"
proof -
  assume "ci_eq c (slot_name j)"
  then have "map tolower (cstring c) = map tolower (cstring (slot_name j))" by (simp add: ci_eq_alt)
  also have "cstring (slot_name j) = slot_name j"
    using nat_string_plain(1) [of j] by (auto simp: cstring_def slot_name_def agg_prefix_def takeWhile_eq_all_conv)
  also have "map tolower (slot_name j) = slot_name j"
  proof -
    have "map tolower agg_prefix = agg_prefix" by code_simp
    then show ?thesis by (simp add: slot_name_def nat_string_plain)
  qed
  finally show ?thesis by (simp add: slot_name_def)
qed

lemma agg_schema_list:
  "agg_schema names aggs = map (\<lambda>n. \<lparr>cd_name = n, cd_type = asNullable (dt_float64 True)\<rparr>) names
     @ map (\<lambda>a. \<lparr>cd_name = agg_outName a, cd_type = agg_outType a\<rparr>) aggs"
  by (simp add: agg_schema_def fold_addColumn [where f = "\<lambda>n. n"] fold_addColumn)

subsection \<open>The plan of an aggregate query\<close>

definition key_exprs :: "string option \<Rightarrow> expr list" where
  "key_exprs g = (case g of None \<Rightarrow> [] | Some c \<Rightarrow> [ColumnRef None None c])"

text \<open>\<open>SELECT [g,] items FROM n [WHERE w] [GROUP BY g]\<close>.\<close>

definition agg_query :: "string \<Rightarrow> string option \<Rightarrow> select_item list \<Rightarrow> expr option \<Rightarrow> select_stmt" where
  "agg_query n g items w = SelectStmt False (map (\<lambda>e. (e, None)) (key_exprs g) @ items) (Some [TableRef None n]) w
     (case g of None \<Rightarrow> None | Some c \<Rightarrow> Some [ColumnRef None None c]) None None None None"

text \<open>The keys in the order of the groups.\<close>

definition group_keys :: "table \<Rightarrow> string option \<Rightarrow> nat list \<Rightarrow> row list" where
  "group_keys t g is = (if g = None \<and> is = [] then [[]] else keys_of t g is)"

lemma key_evaluates:
  assumes "wf_table t" "keys_alike t g" "i < rowCount t"
  shows "group_values pw (t_schema t) (key_exprs g) (table_rows t ! i) = Inr (key_values t g i)"
    and "list_all key_safe (key_values t g i)"
proof -
  have "key_safe (cell_value (named_col t c) i)" if "g = Some c" for c
  proof -
    from that assms(2) have c: "has_col t c" "all_cells (named_col t c) (\<lambda>i. key_safe (cell_value (named_col t c) i))"
      by (auto simp: keys_alike_def key_alike_def Let_def)
    have "isNull (cell_value (named_col t c) i) \<or> key_safe (cell_value (named_col t c) i)"
      using all_cellsD [OF c(2)] assms(3) named_col(2) [OF assms(1) c(1)] by auto
    then show ?thesis by (auto simp: isNull_def key_safe_def)
  qed
  then show "list_all key_safe (key_values t g i)"
    by (cases g) (auto simp: key_values_def)
  show "group_values pw (t_schema t) (key_exprs g) (table_rows t ! i) = Inr (key_values t g i)"
    using assms named_col(4) [OF assms(1) _ assms(3)]
    by (cases g) (auto simp: key_exprs_def key_values_def group_values_def keys_alike_def key_alike_def)
qed

lemma subset_mapE:
  assumes "set ys \<subseteq> f ` S"
  obtains xs where "ys = map f xs" "set xs \<subseteq> S"
proof -
  from assms have "ys \<in> lists (f ` S)" by auto
  then obtain xs where "ys = map f xs" "xs \<in> lists S" by (auto simp: lists_image)
  with that show ?thesis by auto
qed

lemma aggregated_rows:
  assumes wf: "wf_table t" "keys_alike t g" and E: "\<And>e. e \<in> E \<Longrightarrow> agg_alike t e" "slots_for E sl"
    and sub: "set is \<subseteq> {..<rowCount t}"
  shows "\<exists>gs. rfold (agg_absorb pw (t_schema t) (key_exprs g) (map make_agg sl)) (Map.empty, [])
        (map (\<lambda>i. table_rows t ! i) is) = Inr gs
    \<and> agg_rows (map make_agg sl) (agg_finish (key_exprs g) (map make_agg sl) gs)
      = Inr (map (\<lambda>v. v @ map (\<lambda>s. agg_over t (expr_of_call (fst s)) (filter (\<lambda>i. key_values t g i = v) is)) sl)
          (group_keys t g is))"
proof -
  let ?row = "\<lambda>i. table_rows t ! i" and ?keys = "key_exprs g" and ?sch = "t_schema t"
  define kv where "kv = (\<lambda>r. projr (group_values pw ?sch ?keys r))"
  define val where "val = (\<lambda>a sub. agg_value a (projr (cell_fold pw ?sch a sub)))"
  have kv: "group_values pw ?sch ?keys (?row i) = Inr (kv (?row i))" "kv (?row i) = key_values t g i" if "i \<in> set is" for i
    using key_evaluates(1) [OF wf, of i pw] that sub by (auto simp: kv_def)
  have alike: "agg_alike t (expr_of_call (fst s))" if "s \<in> set sl" for s
    using that E by (auto simp: slots_for_def in_set_conv_nth)
  have over: "\<exists>c. cell_fold pw ?sch (make_agg s) (map ?row js) = Inr c
      \<and> agg_value (make_agg s) c = agg_over t (expr_of_call (fst s)) js"
    if "s \<in> set sl" "set js \<subseteq> {..<rowCount t}" for s js
    using agg_values_alike(2) [OF wf(1) alike [OF that(1)] that(2), of pw "snd s"] by simp
  have "\<exists>c. cell_fold pw ?sch a sub = Inr c \<and> agg_value a c = val a sub"
    if a: "a \<in> set (map make_agg sl)" and "set sub \<subseteq> set (map ?row is)" for a sub
  proof -
    from that(2) obtain js where "sub = map ?row js" "set js \<subseteq> set is" by (auto elim: subset_mapE)
    with a sub over show ?thesis by (fastforce simp: val_def)
  qed
  note cells = this
  have inj: "kv r = kv r'" if "r \<in> set (map ?row is)" "r' \<in> set (map ?row is)" "rowKey (kv r) = rowKey (kv r')" for r r'
  proof -
    from that obtain i j where ij: "i \<in> set is" "j \<in> set is" "r = ?row i" "r' = ?row j" by auto
    with kv(2) key_evaluates(2) [OF wf] sub have "list_all key_safe (kv r)" "list_all key_safe (kv r')" by auto
    then show ?thesis using that(3) by (rule rowKey_inject)
  qed
  have "group_values pw ?sch ?keys r = Inr (kv r)" if "r \<in> set (map ?row is)" for r
    using that kv(1) by auto
  from aggregate_rows [of "map ?row is" pw ?sch ?keys kv "map make_agg sl" val, OF this inj cells]
  obtain gs where gs: "rfold (agg_absorb pw ?sch ?keys (map make_agg sl)) (Map.empty, []) (map ?row is) = Inr gs"
      "agg_rows (map make_agg sl) (agg_finish ?keys (map make_agg sl) gs)
        = Inr (grouped_rows kv val (?keys = []) (map make_agg sl) (map ?row is))"
    by blast
  have "grouped_rows kv val (?keys = []) (map make_agg sl) (map ?row is)
      = map (\<lambda>v. v @ map (\<lambda>s. agg_over t (expr_of_call (fst s)) (filter (\<lambda>i. key_values t g i = v) is)) sl)
          (group_keys t g is)"
  proof -
    have none: "?keys = [] \<longleftrightarrow> g = None" by (auto simp: key_exprs_def split: option.splits)
    have keys: "map kv (map ?row is) = map (key_values t g) is" using kv(2) by simp
    have fil: "filter (\<lambda>r. kv r = v) (map ?row is) = map ?row (filter (\<lambda>i. key_values t g i = v) is)" for v
      using kv(2) by (simp add: filter_map comp_def cong: filter_cong)
    have "val (make_agg s) (map ?row (filter (\<lambda>i. key_values t g i = v) is))
        = agg_over t (expr_of_call (fst s)) (filter (\<lambda>i. key_values t g i = v) is)" if "s \<in> set sl" for s v
    proof -
      have "set (filter (\<lambda>i. key_values t g i = v) is) \<subseteq> {..<rowCount t}" using sub by auto
      from over [OF that this] show ?thesis by (auto simp: val_def)
    qed
    then show ?thesis
      unfolding grouped_rows_def group_keys_def none keys fil by simp
  qed
  with gs show ?thesis by auto
qed

subsection \<open>The output columns\<close>

definition agg_loc :: "select_item \<Rightarrow> location" where
  "agg_loc it = ac_loc (call_of (fst it))"

definition key_names :: "string option \<Rightarrow> string list" where
  "key_names g = (case g of None \<Rightarrow> [] | Some c \<Rightarrow> [c])"

lemma found_slot:
  assumes alike: "\<And>it. it \<in> set items \<Longrightarrow> agg_alike t (fst it)" and locs: "distinct (map agg_loc items)"
    and sl: "slots_for (fst ` set items) sl" "all_known sl (fst it)" and it: "it \<in> set items"
  shows "\<exists>j < length sl. cloneSubstAggs (fst it) sl = Inr (ColumnRef None None (slot_name j), sl)
    \<and> same_call (fst (sl ! j)) (call_of (fst it))"
proof -
  let ?fc = "call_of (fst it)"
  note a = alike_call [OF alike [OF it]]
  have "cloneSubstAggs (fst it) sl = cloneSubstAggs (expr_of_call ?fc) sl" by (simp only: a(2))
  also have "\<dots> = slot_ref ?fc sl"
    using a(3) by (cases ?fc) (simp add: expr_of_call_def)
  finally have clone: "cloneSubstAggs (fst it) sl = slot_ref ?fc sl" .
  from sl(2) a(1) have "find (known_as ?fc) sl \<noteq> None" by (auto simp: find_None_iff list_ex_iff)
  then obtain j where j: "j < length sl" "known_as ?fc (sl ! j)" "find (known_as ?fc) sl = Some (sl ! j)"
    by (auto simp: find_Some_iff)
  let ?e = "expr_of_call (fst (sl ! j))"
  have slot: "snd (sl ! j) = slot_name j" "?e \<in> fst ` set items" using sl(1) j(1) by (auto simp: slots_for_def)
  then obtain it' where it': "it' \<in> set items" "?e = fst it'" by auto
  have "?e = fst it" if "ac_loc (call_of ?e) = ac_loc ?fc"
  proof -
    have "agg_loc it' = agg_loc it" using that it'(2) by (simp add: agg_loc_def)
    with locs it it'(1) have "it' = it" by (auto simp: distinct_map inj_on_def)
    with it'(2) show ?thesis by simp
  qed
  with known_same [OF alike [OF it] alike [OF it'(1)], of "snd (sl ! j)"] j(2) it'(2) call_of_expr
  have "same_call (fst (sl ! j)) ?fc" by (metis prod.collapse)
  with j slot(1) show ?thesis by (auto simp: clone slot_ref_def split: prod.splits)
qed

lemma slot_index:
  assumes "keys_alike t g" "slots_for E sl" "j < length sl"
  shows "indexOf (agg_schema (key_names g) (map make_agg sl)) (slot_name j) = int (length (key_names g) + j)"
proof (rule indexOf_unique)
  let ?s = "agg_schema (key_names g) (map make_agg sl)"
  have nth: "cd_name (?s ! m) = (if m < length (key_names g) then key_names g ! m else slot_name (m - length (key_names g)))"
    if "m < length (key_names g) + length sl" for m
  proof -
    have out: "agg_outName (make_agg x) = snd x" for x by (simp add: make_agg_def split: prod.splits)
    show ?thesis
      using assms(2) that by (auto simp: agg_schema_list nth_append slots_for_def out)
  qed
  show "length (key_names g) + j < length ?s" using assms(3) by simp
  show "ci_eq (cd_name (?s ! (length (key_names g) + j))) (slot_name j)" using assms(3) by (simp add: nth)
  show "\<not> ci_eq (cd_name (?s ! m)) (slot_name j)" if "m < length (key_names g) + j" for m
  proof (cases "m < length (key_names g)")
    case True
    then obtain c where c: "g = Some c" "m = 0" by (cases g) (auto simp: key_names_def)
    with assms(1) have "\<not> prefix agg_prefix (map tolower (cstring c))" by (simp add: keys_alike_def key_alike_def)
    with slot_name_prefix [of c j] have "\<not> ci_eq c (slot_name j)" by blast
    moreover have "cd_name (?s ! m) = c"
      using nth [of m] c assms(3) by (simp add: key_names_def)
    ultimately show ?thesis by simp
  next
    case False
    with that assms(3) show ?thesis by (simp add: nth slot_name_inject)
  qed
qed

lemma key_index:
  "indexOf (agg_schema (key_names (Some c)) aggs) c = 0"
  by (rule indexOf_unique [of 0, simplified]) (simp_all add: agg_schema_list key_names_def)

text \<open>What is known of the output column of an item.\<close>

definition out_column :: "table \<Rightarrow> slots \<Rightarrow> select_item \<Rightarrow> item \<Rightarrow> bool" where
  "out_column t sl it out = (\<exists>j < length sl. out = (ColumnRef None None (slot_name j), sp_outName (spec_of t it), sp_outType (spec_of t it))
     \<and> same_call (fst (sl ! j)) (call_of (fst it)))"

lemma smapM_all2:
  "(\<And>x. x \<in> set xs \<Longrightarrow> \<exists>y. f x sl = Inr (y, sl) \<and> R x y) \<Longrightarrow> \<exists>ys. smapM f xs sl = Inr (ys, sl) \<and> list_all2 R xs ys"
proof (induction xs)
  case (Cons x xs)
  then obtain y ys where "f x sl = Inr (y, sl)" "R x y" "smapM f xs sl = Inr (ys, sl)" "list_all2 R xs ys" by force
  then show ?case by (simp add: sbind_def sret_def)
qed (simp add: sret_def)

lemma agg_item_slot:
  assumes keys: "keys_alike t g" and alike: "\<And>it. it \<in> set items \<Longrightarrow> agg_alike t (fst it)"
    and locs: "distinct (map agg_loc items)"
    and sl: "slots_for (fst ` set items) sl" "all_known sl (fst it)" and it: "it \<in> set items"
  shows "\<exists>out. agg_item (agg_schema (key_names g) (map make_agg sl)) (k, it) sl = Inr (out, sl) \<and> out_column t sl it out"
proof -
  from found_slot [OF alike locs sl it] obtain j where j: "j < length sl"
      "cloneSubstAggs (fst it) sl = Inr (ColumnRef None None (slot_name j), sl)"
      "same_call (fst (sl ! j)) (call_of (fst it))"
    by blast
  note idx = slot_index [OF keys sl(1) j(1)]
  let ?sch = "agg_schema (key_names g) (map make_agg sl)"
  have "cd_type (?sch ! (length (key_names g) + j)) = agg_outType (make_agg (sl ! j))"
    using j(1) by (simp add: agg_schema_list nth_append)
  also have "\<dots> = sp_outType (spec_of t it)"
    using j(3) by (auto simp: make_agg_def spec_of_def make_spec_def same_call_def Let_def split: prod.splits)
  finally have ty: "cd_type (?sch ! (length (key_names g) + j)) = sp_outType (spec_of t it)" .
  have "itemName it k = sp_outName (spec_of t it)"
    by (rule agg_alikeE [OF alike [OF it]])
      (cases it; simp add: itemName_def spec_of_def make_spec_def call_of_def split: option.splits)+
  with ty idx j show ?thesis
    by (auto simp: agg_item_def sbind_def sret_def out_column_def nat_int_add)
qed

subsection \<open>Both results\<close>

text \<open>The rows of the answer: the key, then every aggregate over the rows of its group.\<close>

definition answer_rows :: "table \<Rightarrow> string option \<Rightarrow> select_item list \<Rightarrow> nat list \<Rightarrow> row list" where
  "answer_rows t g items is =
     map (\<lambda>v. v @ map (\<lambda>it. agg_over t (fst it) (filter (\<lambda>i. key_values t g i = v) is)) items) (group_keys t g is)"

lemma group_keys_width: "v \<in> set (group_keys t g is) \<Longrightarrow> length v = length (key_names g)"
  by (cases g) (auto simp: group_keys_def key_names_def key_values_def split: if_splits)

lemma project_key:
  assumes "g = Some c" "c \<noteq> ''*''" "length v = length (key_names g)"
  shows "evaluate pw (agg_schema (key_names g) aggs) (v @ vs) (ColumnRef None None c) = Inr (hd v)"
  using assms key_index [of c aggs]
  by (cases v) (simp_all add: eval_simps eval_column_def find_column_def key_names_def vec_at_def)

lemma project_out:
  assumes "keys_alike t g" "slots_for E sl" "length v = length (key_names g)" "out_column t sl it out"
    and F: "\<And>fc. same_call fc (call_of (fst it)) \<Longrightarrow> F fc = x"
  shows "evaluate pw (agg_schema (key_names g) (map make_agg sl)) (v @ map (\<lambda>s. F (fst s)) sl) (fst out) = Inr x"
proof -
  from assms(4) obtain j where j: "j < length sl" "fst out = ColumnRef None None (slot_name j)"
      "same_call (fst (sl ! j)) (call_of (fst it))"
    by (auto simp: out_column_def)
  have "slot_name j \<noteq> ''*''" by (simp add: slot_name_def agg_prefix_def)
  with slot_index [OF assms(1,2) j(1)] j F assms(3) show ?thesis
    by (simp add: eval_simps eval_column_def find_column_def vec_at_def nat_int_add nth_append)
qed

lemma projected_rows:
  assumes wf: "keys_alike t g" "slots_for E sl"
    and outs: "list_all2 (out_column t sl) items outs" and ks: "ks = map (\<lambda>c. (ColumnRef None None c, c, ty)) (key_names g)"
  shows "rmapM (project_row pw (agg_schema (key_names g) (map make_agg sl)) (ks @ outs))
      (map (\<lambda>v. v @ map (\<lambda>s. agg_over t (expr_of_call (fst s)) (filter (\<lambda>i. key_values t g i = v) is)) sl) (group_keys t g is))
    = Inr (answer_rows t g items is)"
proof -
  let ?sch = "agg_schema (key_names g) (map make_agg sl)"
  have row: "project_row pw ?sch (ks @ outs)
      (v @ map (\<lambda>s. agg_over t (expr_of_call (fst s)) (filter (\<lambda>i. key_values t g i = v) is)) sl)
    = Inr (v @ map (\<lambda>it. agg_over t (fst it) (filter (\<lambda>i. key_values t g i = v) is)) items)"
    if v: "v \<in> set (group_keys t g is)" for v
  proof -
    let ?is = "filter (\<lambda>i. key_values t g i = v) is"
    let ?r = "v @ map (\<lambda>s. agg_over t (expr_of_call (fst s)) ?is) sl"
    note len = group_keys_width [OF v]
    have "rmapM (\<lambda>it. evaluate pw ?sch ?r (fst it)) ks = Inr v"
    proof (cases g)
      case None
      with len show ?thesis by (simp add: ks key_names_def)
    next
      case (Some c)
      with wf(1) have "c \<noteq> ''*''" by (auto simp: keys_alike_def key_alike_def has_col_def)
      from project_key [OF Some this len] len Some show ?thesis
        by (cases v) (auto simp: ks key_names_def)
    qed
    moreover have "rmapM (\<lambda>it. evaluate pw ?sch ?r (fst it)) outs = Inr (map (\<lambda>it. agg_over t (fst it) ?is) items)"
    proof -
      have "evaluate pw ?sch ?r (fst out) = Inr (agg_over t (fst it) ?is)" if "out_column t sl it out" for it out
      proof (rule project_out [OF wf len that])
        fix fc assume "same_call fc (call_of (fst it))"
        then have "same_call (call_of (expr_of_call fc)) (call_of (fst it))" by simp
        then show "agg_over t (expr_of_call fc) ?is = agg_over t (fst it) ?is" by (rule same_call_value(1))
      qed
      with outs show ?thesis by (induction rule: list_all2_induct) auto
    qed
    ultimately show ?thesis by (simp add: project_row_def rmapM_append)
  qed
  show ?thesis
    unfolding answer_rows_def rmapM_map by (rule rmapM_Inr_map) (use row in simp)
qed

definition cond_ok :: "table \<Rightarrow> expr option \<Rightarrow> bool" where
  "cond_ok t w = (case w of None \<Rightarrow> True | Some e \<Rightarrow> cond_alike t e)"

text \<open>A condition under which both paths agree.\<close>

definition query_alike :: "table \<Rightarrow> string option \<Rightarrow> select_item list \<Rightarrow> expr option \<Rightarrow> bool" where
  "query_alike t g items w =
     (items \<noteq> [] \<and> list_all (\<lambda>it. agg_alike t (fst it)) items \<and> distinct (map agg_loc items)
      \<and> keys_alike t g \<and> cond_ok t w)"

text \<open>The fast path.\<close>

lemma fast_items_alike:
  assumes "\<And>it. it \<in> set items \<Longrightarrow> agg_alike t (fst it)" "wf_table t"
  shows "fast_items t gc items = Inr (Some (False, map (spec_of t) items))"
  using assms(1)
proof (induction items)
  case (Cons it items)
  obtain e al where it: "it = (e, al)" by (cases it)
  from Cons have rest: "fast_items t gc items = Inr (Some (False, map (spec_of t) items))" by simp
  from Cons.prems [of it] it have "agg_alike t e" by simp
  then show ?case
  proof (cases rule: agg_alikeE)
    case (star f args dist loc)
    then have "isAggregate f" "\<exists>fn. fn_of f = Some fn" by (auto simp: isAggregate_def aggregate_names_def fn_of_def)
    with rest star it show ?thesis
      by (auto simp: spec_col_def spec_of_def call_of_def)
  next
    case (col f c loc)
    then have "isAggregate f" "\<exists>fn. fn_of f = Some fn" by (auto simp: isAggregate_def aggregate_names_def fn_of_def)
    with rest col it named_col(3) [OF assms(2) col(2)] show ?thesis
      by (auto simp: spec_col_def spec_of_def call_of_def has_col_def Let_def)
  qed
qed simp

lemma fast_answer:
  assumes cat: "cat_get cat n = Some t" and wf: "wf_table t" and q: "query_alike t g items w"
    and pass: "\<And>i. i < rowCount t \<Longrightarrow> rowPasses t ps i = Inr (P i)"
    and ps: "(case w of None \<Rightarrow> Inr (Some []) | Some e \<Rightarrow> parsePredicate t e) = Inr (Some ps)"
  shows "\<exists>ty. tryFastAggregate cat (agg_query n g items w) = Inr (Some (empty_result\<lparr>
      qr_schema := map (\<lambda>c. \<lparr>cd_name = c, cd_type = ty\<rparr>) (key_names g)
        @ map (\<lambda>it. \<lparr>cd_name = sp_outName (spec_of t it), cd_type = sp_outType (spec_of t it)\<rparr>) items,
      qr_rows := answer_rows t g items (filter P [0..<rowCount t])\<rparr>))"
proof -
  let ?is = "filter P [0..<rowCount t]" and ?p = "fast_plan_of t g items ps"
  from q have q': "items \<noteq> []" "\<And>it. it \<in> set items \<Longrightarrow> agg_alike t (fst it)" "keys_alike t g"
    by (auto simp: query_alike_def list_all_iff)
  have "group_col t (case g of None \<Rightarrow> None | Some c \<Rightarrow> Some [ColumnRef None None c]) = Some (group_of t g)"
    using q'(3) by (cases g) (auto simp: group_col_def group_of_def keys_alike_def key_alike_def has_col_def Let_def)
  moreover have "fast_items t (group_of t g) (map (\<lambda>e. (e, None)) (key_exprs g) @ items)
      = Inr (Some (g \<noteq> None, map (spec_of t) items))"
    using fast_items_alike [OF q'(2) wf] by (cases g) (simp_all add: key_exprs_def group_of_def)
  ultimately have gate: "fast_gate cat (agg_query n g items w) = Inr (Some ?p)"
    using cat q'(1) ps
    by (simp add: fast_gate_def agg_query_def hasTable_def getTable_def fast_plan_of_def)
  obtain ty where schema: "fast_schema ?p = Inr (map (\<lambda>c. \<lparr>cd_name = c, cd_type = ty\<rparr>) (key_names g)
      @ map (\<lambda>it. \<lparr>cd_name = sp_outName (spec_of t it), cd_type = sp_outType (spec_of t it)\<rparr>) items)"
  proof (cases g)
    case None
    then show ?thesis
      using that by (simp add: fast_schema_def fast_plan_of_def key_names_def fold_addColumn comp_def)
  next
    case (Some c)
    with q'(3) have "has_col t c" by (simp add: keys_alike_def key_alike_def)
    have one: "addColumn [] c (c_type (named_col t c)) = [\<lparr>cd_name = c, cd_type = c_type (named_col t c)\<rparr>]"
      by (simp add: addColumn_def)
    from named_col(3) [OF wf \<open>has_col t c\<close>] Some show ?thesis
      using that [of "c_type (named_col t c)"]
      by (simp add: fast_schema_def fast_plan_of_def group_of_def key_names_def fold_addColumn comp_def one)
  qed
  have "map (fast_result_row ?p) (map (fast_group_at t g items ?is) (group_keys t g ?is)) = answer_rows t g items ?is"
  proof -
    have "fast_result_row ?p (fast_group_at t g items ?is v)
        = v @ map (\<lambda>it. agg_over t (fst it) (filter (\<lambda>i. key_values t g i = v) ?is)) items"
      if v: "v \<in> set (group_keys t g ?is)" for v
    proof -
      have key: "(if g \<noteq> None then [if v = [] then VNull else hd v] else []) = v"
        using group_keys_width [OF v] by (cases g; cases v) (auto simp: key_names_def)
      have "fast_value (spec_of t it) (projr (fast_fold t (spec_of t it) js)) = agg_over t (fst it) js"
        if "it \<in> set items" "set js \<subseteq> {..<rowCount t}" for it js
        using agg_values_alike(1) [OF wf q'(2) [OF that(1)] that(2), of "snd it"] by auto
      moreover have "set (filter (\<lambda>i. key_values t g i = v) ?is) \<subseteq> {..<rowCount t}" by auto
      ultimately show ?thesis
        using key
        by (cases g) (simp_all add: fast_result_row_def fast_plan_of_def fast_group_at_def zip_map1 zip_map2 zip_same_conv_map)
    qed
    then show ?thesis by (simp add: answer_rows_def)
  qed
  moreover have "fast_groups_of ?p = Inr (map (fast_group_at t g items ?is) (group_keys t g ?is))"
    using fast_groups_loop [OF wf q'(3,2) pass] by (simp add: group_keys_def)
  moreover have "ss_orderBy (agg_query n g items w) = None" "ss_limit (agg_query n g items w) = None"
    by (simp_all add: agg_query_def)
  ultimately show ?thesis
    using gate schema by (auto simp: tryFastAggregate_def fast_execute_def fast_order_def fast_limit_def)
qed

text \<open>The operator tree.\<close>

lemma collected:
  assumes "\<And>it. it \<in> set items \<Longrightarrow> agg_alike t (fst it)"
  shows "slots_for (fst ` set items) (collect_all (agg_query n g items w))"
    and "it \<in> set items \<Longrightarrow> all_known (collect_all (agg_query n g items w)) (fst it)"
proof -
  have "collectInto sl (ColumnRef q r c) = sl" for sl q r c by (simp add: collectInto_def)
  then have "collect_all (agg_query n g items w) = fold (\<lambda>(e, _) sl. collectInto sl e) items []"
    by (cases g) (simp_all add: collect_all_def agg_query_def key_exprs_def)
  moreover have "slots_for {} []" by (simp add: slots_for_def)
  ultimately show "slots_for (fst ` set items) (collect_all (agg_query n g items w))"
    using collected_slots [of items t "{}" "[]", OF assms] by simp
  show "all_known (collect_all (agg_query n g items w)) (fst it)" if "it \<in> set items"
    by (rule collect_all_known) (use that in \<open>auto simp: output_exprs_def agg_query_def\<close>)
qed

definition source_op :: "table \<Rightarrow> expr option \<Rightarrow> operator" where
  "source_op t w = (case w of None \<Rightarrow> mk_SeqScan t (t_schema t) | Some e \<Rightarrow> Filter (mk_SeqScan t (t_schema t)) e)"

lemma agg_plan:
  assumes cat: "cat_get cat n = Some t" and q: "query_alike t g items w"
  defines "sl \<equiv> collect_all (agg_query n g items w)"
  shows "\<exists>outs ty. buildSelect pw cat (agg_query n g items w)
      = Inr (Project (mk_HashAggregate (source_op t w) (key_exprs g) (key_names g) (map make_agg sl))
          (map (\<lambda>c. (ColumnRef None None c, c, ty)) (key_names g) @ outs))
    \<and> list_all2 (out_column t sl) items outs"
proof -
  from q have q': "items \<noteq> []" "\<And>it. it \<in> set items \<Longrightarrow> agg_alike t (fst it)" "keys_alike t g"
    "distinct (map agg_loc items)"
    by (auto simp: query_alike_def list_all_iff)
  let ?s = "agg_query n g items w"
  let ?agg = "mk_HashAggregate (source_op t w) (key_exprs g) (key_names g) (map make_agg sl)"
  let ?sch = "agg_schema (key_names g) (map make_agg sl)"
  define ty where "ty = cd_type (?sch ! 0)"
  have sl: "slots_for (fst ` set items) sl" "\<And>it. it \<in> set items \<Longrightarrow> all_known sl (fst it)"
    unfolding sl_def by (rule collected(1) [OF q'(2)], assumption, rule collected(2) [OF q'(2)])
  have "\<exists>outs. smapM (agg_item ?sch) (enumerate m items) sl = Inr (outs, sl) \<and> list_all2 (out_column t sl) items outs" for m
  proof -
    have "\<exists>out. agg_item ?sch ki sl = Inr (out, sl) \<and> out_column t sl (snd ki) out" if "ki \<in> set (enumerate m items)" for ki
    proof -
      from that have "snd ki \<in> set (map snd (enumerate m items))" by (simp only: set_map imageI)
      then have "snd ki \<in> set items" by simp
      with agg_item_slot [OF q'(3,2,4) sl(1) sl(2) [OF this] this, of "fst ki"] show ?thesis by simp
    qed
    from smapM_all2 [where f = "agg_item ?sch" and R = "\<lambda>ki. out_column t sl (snd ki)", OF this] obtain outs where "smapM (agg_item ?sch) (enumerate m items) sl = Inr (outs, sl)"
        "list_all2 (\<lambda>ki. out_column t sl (snd ki)) (enumerate m items) outs"
      by blast
    moreover have "list_all2 (out_column t sl) (map snd (enumerate m items)) outs"
      using calculation(2) by (simp only: list_all2_map1)
    ultimately show ?thesis by auto
  qed
  then obtain outs where outs: "smapM (agg_item ?sch) (enumerate (length (key_names g)) items) sl = Inr (outs, sl)"
      "list_all2 (out_column t sl) items outs" by blast
  have all: "smapM (agg_item ?sch) (enumerate 0 (ss_selectList ?s)) sl
      = Inr (map (\<lambda>c. (ColumnRef None None c, c, ty)) (key_names g) @ outs, sl)"
  proof (cases g)
    case None
    with outs show ?thesis by (simp add: agg_query_def key_exprs_def key_names_def)
  next
    case (Some c)
    have "agg_item ?sch (0, ColumnRef None None c, None) sl = Inr ((ColumnRef None None c, c, ty), sl)"
      using key_index [of c "map make_agg sl"]
      by (simp add: agg_item_def Some sbind_def sret_def itemName_def ty_def)
    with outs(1) show ?thesis
      by (simp add: agg_query_def Some key_exprs_def key_names_def sbind_def sret_def)
  qed
  have names: "map (\<lambda>(i, e). key_name i e) (enumerate 0 (key_exprs g)) = key_names g"
    by (cases g) (simp_all add: key_exprs_def key_names_def key_name_def)
  have groups: "(case ss_groupBy ?s of None \<Rightarrow> [] | Some ks \<Rightarrow> ks) = key_exprs g"
    by (cases g) (simp_all add: agg_query_def key_exprs_def)
  have clauses: "ss_having ?s = None" "ss_orderBy ?s = None" "ss_limit ?s = None" "\<not> ss_distinct ?s"
      "ss_where ?s = w"
    by (simp_all add: agg_query_def)
  have "aggregate_select pw ?s (source_op t w)
      = Inr (Project ?agg (map (\<lambda>c. (ColumnRef None None c, c, ty)) (key_names g) @ outs))"
    using all by (simp add: aggregate_select_def groups names clauses sl_def [symmetric] Let_def mk_HashAggregate_def
        applyDistinct_def applyLimit_def)
  moreover have "isAggregateQuery ?s"
  proof -
    obtain it where it: "it \<in> set items" using q'(1) by (cases items) auto
    with alike_call(1) [OF q'(2) [OF it]] have "collectAggs (fst it) \<noteq> []" by simp
    with it have "list_ex (\<lambda>(e, _). collectAggs e \<noteq> []) items"
      unfolding list_ex_iff by (intro bexI [of _ it]) (simp_all add: case_prod_unfold)
    then show ?thesis by (simp add: isAggregateQuery_def agg_query_def)
  qed
  ultimately have "finish_core pw ?s (mk_SeqScan t (t_schema t))
      = Inr (Project ?agg (map (\<lambda>c. (ColumnRef None None c, c, ty)) (key_names g) @ outs))"
    unfolding finish_core_def clauses Let_def source_op_def [symmetric] by (simp only: if_True)
  then have "buildSelect pw cat ?s
      = Inr (Project ?agg (map (\<lambda>c. (ColumnRef None None c, c, ty)) (key_names g) @ outs))"
    using cat by (simp add: agg_query_def getTable_def scanSchema_bare)
  with outs(2) show ?thesis by blast
qed

lemma general_answer:
  assumes wf: "wf_catalog cat" and cat: "cat_get cat n = Some t" and q: "query_alike t g items w"
    and pass: "\<And>i. i < rowCount t \<Longrightarrow> (case w of None \<Rightarrow> Inr True
        | Some e \<Rightarrow> evaluatePredicate pw (t_schema t) (table_rows t ! i) e) = Inr (P i)"
  shows "\<exists>k ty. \<forall>fuel \<ge> k. general_select pw fuel cat (agg_query n g items w) = Inr (empty_result\<lparr>
      qr_schema := map (\<lambda>c. \<lparr>cd_name = c, cd_type = ty\<rparr>) (key_names g)
        @ map (\<lambda>it. \<lparr>cd_name = sp_outName (spec_of t it), cd_type = sp_outType (spec_of t it)\<rparr>) items,
      qr_rows := answer_rows t g items (filter P [0..<rowCount t])\<rparr>)"
proof -
  let ?is = "filter P [0..<rowCount t]" and ?row = "\<lambda>i. table_rows t ! i"
  let ?sl = "collect_all (agg_query n g items w)"
  from q have q': "\<And>it. it \<in> set items \<Longrightarrow> agg_alike t (fst it)" "keys_alike t g"
    by (auto simp: query_alike_def list_all_iff)
  have wf_t: "wf_table t" using wf cat by (rule wf_catalogD)
  from agg_plan [OF cat q, of pw] obtain outs ty where plan: "buildSelect pw cat (agg_query n g items w)
      = Inr (Project (mk_HashAggregate (source_op t w) (key_exprs g) (key_names g) (map make_agg ?sl))
          (map (\<lambda>c. (ColumnRef None None c, c, ty)) (key_names g) @ outs))"
      "list_all2 (out_column t ?sl) items outs"
    by blast
  have rows: "table_rows t = map ?row [0..<rowCount t]" by (metis length_table_rows map_nth)
  have source: "pending pw (source_op t w) = Inr (map ?row ?is)"
  proof (cases w)
    case None
    with pass have "?is = [0..<rowCount t]" by (intro filter_True) auto
    with rows None show ?thesis by (simp add: source_op_def mk_SeqScan_def)
  next
    case (Some e)
    have "rfilter (\<lambda>r. evaluatePredicate pw (t_schema t) r e) (map ?row js) = Inr (map ?row (filter P js))"
      if "set js \<subseteq> {..<rowCount t}" for js
      using that pass Some by (induction js) auto
    from this [of "[0..<rowCount t]"] rows Some show ?thesis
      by (simp add: source_op_def mk_SeqScan_def atLeast0LessThan)
  qed
  have op_sch: "op_schema (source_op t w) = t_schema t"
    by (cases w) (simp_all add: source_op_def mk_SeqScan_def)
  have sub: "set ?is \<subseteq> {..<rowCount t}" by auto
  have alike: "agg_alike t e" if "e \<in> fst ` set items" for e using that q'(1) by auto
  have sl: "slots_for (fst ` set items) ?sl" using q'(1) by (rule collected)
  from aggregated_rows [OF wf_t q'(2) alike sl sub, of pw] obtain gs where
    gs: "rfold (agg_absorb pw (t_schema t) (key_exprs g) (map make_agg ?sl)) (Map.empty, []) (map ?row ?is) = Inr gs"
      "agg_rows (map make_agg ?sl) (agg_finish (key_exprs g) (map make_agg ?sl) gs)
      = Inr (map (\<lambda>v. v @ map (\<lambda>s. agg_over t (expr_of_call (fst s)) (filter (\<lambda>i. key_values t g i = v) ?is)) ?sl)
          (group_keys t g ?is))"
    by blast
  have "pending pw (Project (mk_HashAggregate (source_op t w) (key_exprs g) (key_names g) (map make_agg ?sl))
          (map (\<lambda>c. (ColumnRef None None c, c, ty)) (key_names g) @ outs)) = Inr (answer_rows t g items ?is)"
    using gs projected_rows [OF q'(2) sl plan(2) refl, of pw ty "?is"]
    by (simp add: mk_HashAggregate_def source op_sch)
  note * = general_delivers [OF wf plan(1) this]
  have "map (\<lambda>(e, n, t). \<lparr>cd_name = n, cd_type = t\<rparr>) outs
      = map (\<lambda>it. \<lparr>cd_name = sp_outName (spec_of t it), cd_type = sp_outType (spec_of t it)\<rparr>) items"
    using plan(2) by (induction rule: list_all2_induct) (auto simp: out_column_def)
  moreover have "item_schema its = map (\<lambda>(e, n, t). \<lparr>cd_name = n, cd_type = t\<rparr>) its" for its
    by (simp add: item_schema_def case_prod_unfold fold_addColumn)
  ultimately have "op_schema (Project (mk_HashAggregate (source_op t w) (key_exprs g) (key_names g) (map make_agg ?sl))
          (map (\<lambda>c. (ColumnRef None None c, c, ty)) (key_names g) @ outs))
      = map (\<lambda>c. \<lparr>cd_name = c, cd_type = ty\<rparr>) (key_names g)
        @ map (\<lambda>it. \<lparr>cd_name = sp_outName (spec_of t it), cd_type = sp_outType (spec_of t it)\<rparr>) items"
    by simp
  with * show ?thesis by auto
qed

text \<open>
  C3: an aggregate query that the fast path takes and that meets \<open>query_alike\<close> is answered alike on
  both paths: the operator tree terminates, both results have the same rows in the same order
  under the same column names, and without GROUP BY the two results are equal.
\<close>

theorem fast_path_agrees:
  assumes "wf_catalog cat" "cat_get cat n = Some t" "query_alike t g items w"
  shows "\<exists>k r r'. (\<forall>fuel \<ge> k. general_select pw fuel cat (agg_query n g items w) = Inr r)
    \<and> tryFastAggregate cat (agg_query n g items w) = Inr (Some r')
    \<and> qr_rows r' = qr_rows r \<and> map cd_name (qr_schema r') = map cd_name (qr_schema r) \<and> (g = None \<longrightarrow> r' = r)"
proof -
  have wf_t: "wf_table t" using assms(1,2) by (rule wf_catalogD)
  have "\<exists>ps P. (case w of None \<Rightarrow> Inr (Some []) | Some e \<Rightarrow> parsePredicate t e) = Inr (Some ps)
      \<and> (\<forall>i < rowCount t. rowPasses t ps i = Inr (P i) \<and> (case w of None \<Rightarrow> Inr True
        | Some e \<Rightarrow> evaluatePredicate pw (t_schema t) (table_rows t ! i) e) = Inr (P i))"
  proof (cases w)
    case None
    then show ?thesis by (intro exI [of _ "[]"] exI [of _ "\<lambda>i. True"]) simp
  next
    case (Some e)
    with assms(3) have "cond_alike t e" by (simp add: query_alike_def cond_ok_def)
    from conds_alike [OF wf_t this, of pw] obtain ps where ps: "parsePredicate t e = Inr (Some ps)"
        "\<forall>i < rowCount t. \<exists>tr. rowPasses t ps i = Inr (tr = 1) \<and> truth pw (t_schema t) (table_rows t ! i) e = Inr tr"
      by blast
    then have "\<forall>i < rowCount t. \<exists>b. rowPasses t ps i = Inr b
        \<and> evaluatePredicate pw (t_schema t) (table_rows t ! i) e = Inr b"
      using evaluatePredicate_truth by (fastforce simp: truth_def)
    then have "\<exists>P. \<forall>i < rowCount t. rowPasses t ps i = Inr (P i)
        \<and> evaluatePredicate pw (t_schema t) (table_rows t ! i) e = Inr (P i)"
      by metis
    with ps(1) Some show ?thesis by auto
  qed
  then obtain ps P where p: "(case w of None \<Rightarrow> Inr (Some []) | Some e \<Rightarrow> parsePredicate t e) = Inr (Some ps)"
      "\<And>i. i < rowCount t \<Longrightarrow> rowPasses t ps i = Inr (P i)"
      "\<And>i. i < rowCount t \<Longrightarrow> (case w of None \<Rightarrow> Inr True
        | Some e \<Rightarrow> evaluatePredicate pw (t_schema t) (table_rows t ! i) e) = Inr (P i)"
    by blast
  let ?schema = "\<lambda>ty. map (\<lambda>c. \<lparr>cd_name = c, cd_type = ty\<rparr>) (key_names g)
    @ map (\<lambda>it. \<lparr>cd_name = sp_outName (spec_of t it), cd_type = sp_outType (spec_of t it)\<rparr>) items"
  let ?answer = "\<lambda>ty. empty_result\<lparr>qr_schema := ?schema ty, qr_rows := answer_rows t g items (filter P [0..<rowCount t])\<rparr>"
  from general_answer [where P = P, OF assms] p(3) obtain k ty where
    gen: "\<forall>fuel \<ge> k. general_select pw fuel cat (agg_query n g items w) = Inr (?answer ty)" by blast
  from fast_answer [where P = P and ps = ps, OF assms(2) wf_t assms(3)] p(1,2) obtain ty' where
    fast: "tryFastAggregate cat (agg_query n g items w) = Inr (Some (?answer ty'))" by blast
  have "qr_rows (?answer ty') = qr_rows (?answer ty)" by simp
  moreover have "map cd_name (qr_schema (?answer ty')) = map cd_name (qr_schema (?answer ty))"
    by (simp add: comp_def)
  moreover have "g = None \<longrightarrow> ?answer ty' = ?answer ty" by (simp add: key_names_def)
  ultimately show ?thesis using gen fast by blast
qed

definition demo_totals :: "select_item list" where
  "demo_totals = [(FunctionCall ''COUNT'' [] False True (Loc 1 11), None),
     (FunctionCall ''SUM'' [ColumnRef None None ''a''] False False (Loc 1 21), Some ''total'')]"

definition a_positive :: expr where
  "a_positive = BinaryExpr GT (ColumnRef None None ''a'') (Literal (VI64 0))"

text \<open>Integer columns whose values fit their declared type meet the conditions.\<close>

definition exact_ints :: "column \<Rightarrow> bool" where
  "exact_ints c = (c_kind c = KInt64 \<and> typeIsInteger (dt_id (c_type c))
     \<and> all_cells c (\<lambda>i. toInt64 (cell_value c i) = Inr (c_i64 c ! i)))"

lemma exact_ints_cell:
  assumes "exact_ints c" "i < column_size c" "\<not> isNull (cell_value c i)"
  shows "toInt64 (cell_value c i) = Inr (c_i64 c ! i)" "typeIsInteger (typeId (cell_value c i))"
    and "toDouble (cell_value c i) = Inr (num_cell c i)"
proof -
  from assms have k: "c_kind c = KInt64" "typeIsInteger (dt_id (c_type c))" by (simp_all add: exact_ints_def)
  from assms show int: "toInt64 (cell_value c i) = Inr (c_i64 c ! i)" by (auto simp: exact_ints_def dest: all_cellsD)
  from k assms(3) have "cell_value c i = makeIntValue (dt_id (c_type c)) (c_i64 c ! i)"
    by (auto simp: cell_value_def split: if_splits)
  with k(2) show t: "typeIsInteger (typeId (cell_value c i))"
    by (cases "dt_id (c_type c)") (auto simp: makeIntValue_def)
  from toDouble_integer [OF t int] k(1) show "toDouble (cell_value c i) = Inr (num_cell c i)"
    by (simp add: num_cell_def)
qed

lemma exact_ints_alike:
  assumes "exact_ints c"
  shows "sums_alike c"
    and "all_cells c (\<lambda>i. small_int (cell_value c i)) \<Longrightarrow> exact_int (sint x) \<Longrightarrow> compares_alike c (VI64 x)"
proof -
  show "sums_alike c"
    unfolding sums_alike_def by (rule all_cellsI) (rule exact_ints_cell(3) [OF assms])
  assume small: "all_cells c (\<lambda>i. small_int (cell_value c i))" and x: "exact_int (sint x)"
  have "isNumeric (cell_value c i) \<and> toDouble (cell_value c i) = Inr (num_cell c i)
      \<and> \<not> f64_is_nan (num_cell c i) \<and> small_int (cell_value c i)"
    if i: "i < column_size c" "\<not> isNull (cell_value c i)" for i
  proof -
    note c = exact_ints_cell [OF assms i]
    have "small_int (cell_value c i)" using small i by (rule all_cellsD)
    with c(1) have "exact_int (sint (c_i64 c ! i))" by (simp add: small_int_def)
    from f64_of_int_not_nan [OF this] have "\<not> f64_is_nan (num_cell c i)"
      using assms by (simp add: num_cell_def exact_ints_def)
    with c \<open>small_int (cell_value c i)\<close> show ?thesis by (simp add: isNumeric_def typeIsNumeric_def)
  qed
  with x f64_of_int_not_nan [OF x] assms show "compares_alike c (VI64 x)"
    by (auto simp: compares_alike_def exact_ints_def small_int_def intro!: all_cellsI)
qed

theorem fast_path_agrees_witness:
  "\<exists>k r r'. (\<forall>fuel \<ge> k. general_select demo_pw fuel demo_stock (agg_query ''t'' (Some ''b'') demo_totals (Some a_positive)) = Inr r)
    \<and> tryFastAggregate demo_stock (agg_query ''t'' (Some ''b'') demo_totals (Some a_positive)) = Inr (Some r')
    \<and> qr_rows r' = qr_rows r \<and> map cd_name (qr_schema r') = map cd_name (qr_schema r)"
proof -
  let ?a = "named_col demo_stocked ''a''"
  have a: "exact_ints ?a" "all_cells ?a (\<lambda>i. small_int (cell_value ?a i))" "has_col demo_stocked ''a''" "c_kind ?a \<noteq> KString"
    by code_simp+
  have b: "key_alike demo_stocked ''b''" by code_simp
  have "compares_alike ?a (VI64 0)" by (rule exact_ints_alike(2) [OF a(1,2)]) (simp add: exact_int_def)
  with a b exact_ints_alike(1) [OF a(1)]
  have "query_alike demo_stocked (Some ''b'') demo_totals (Some a_positive)"
    by (simp add: query_alike_def demo_totals_def a_positive_def keys_alike_def cond_ok_def agg_loc_def call_of_def)
  from fast_path_agrees [OF demo_stock_facts(1,2) this, of demo_pw] show ?thesis by blast
qed

end
