(* ===== verification/LQ_Reopen.thy ===== *)
theory LQ_Reopen
  imports LQ_Connection
begin

section \<open>A database that was saved and opened again\<close>

text \<open>
  The registry of tables is a hash table, so the order of its entries is not fixed, and a database
  that was loaded has its own. No call of a client can see it: two catalogs with the same
  tables (\<open>same_tables\<close>) give the same answers to every sequence of calls, so that a saved and
  reloaded database cannot be told from the one that was saved.
\<close>

subsection \<open>Calls of a client\<close>

datatype client_call =
    CallQuery string
  | CallExplain string
  | CallImport string "string option" string char bool
  | CallLoad string "string option"

text \<open>What a call answers: a result, or the text of EXPLAIN.\<close>

definition client_step ::
    "(f64 \<Rightarrow> f64 \<Rightarrow> f64) \<Rightarrow> nat \<Rightarrow> client_call \<Rightarrow> catalog \<Rightarrow> catalog \<times> (query_result res + string res)" where
  "client_step pw fuel call c =
     (case call of
        CallQuery sql \<Rightarrow> (case query pw fuel sql c of (c', r) \<Rightarrow> (c', Inl r))
      | CallExplain sql \<Rightarrow> (c, Inr (conn_explain pw c sql))
      | CallImport path file name delim header \<Rightarrow>
          (case importCsv path file name delim header c of (c', r) \<Rightarrow> (c', Inl r))
      | CallLoad path file \<Rightarrow> (case load_db path file c of (c', r) \<Rightarrow> (c', Inl r)))"

fun answers ::
    "(f64 \<Rightarrow> f64 \<Rightarrow> f64) \<Rightarrow> nat \<Rightarrow> client_call list \<Rightarrow> catalog \<Rightarrow> (query_result res + string res) list" where
  "answers pw fuel [] c = []"
| "answers pw fuel (call # calls) c =
     (case client_step pw fuel call c of (c', a) \<Rightarrow> a # answers pw fuel calls c')"

subsection \<open>Catalogs with the same tables\<close>

definition same_tables :: "catalog \<Rightarrow> catalog \<Rightarrow> bool" where
  "same_tables c d = (cat_get c = cat_get d \<and> distinct_names c \<and> distinct_names d)"

named_theorems same_simps \<open>operations that see a catalog through its lookups only\<close>

lemma same_get [same_simps]: "same_tables c d \<Longrightarrow> cat_get c n = cat_get d n"
  by (simp add: same_tables_def)

lemma same_getTable [same_simps]: "same_tables c d \<Longrightarrow> getTable c n = getTable d n"
  by (simp add: getTable_def same_get)

lemma same_hasTable [same_simps]: "same_tables c d \<Longrightarrow> hasTable c n = hasTable d n"
  by (simp add: hasTable_def same_get)

lemma same_put [intro]: "same_tables c d \<Longrightarrow> same_tables (cat_put n t c) (cat_put n t d)"
  by (simp add: same_tables_def cat.get_put cat.inv_put)

lemma same_remove [intro]: "same_tables c d \<Longrightarrow> same_tables (cat_remove n c) (cat_remove n d)"
  by (simp add: same_tables_def cat.get_remove cat.inv_remove)

lemma same_count [same_simps]:
  assumes "same_tables c d"
  shows "length (tableNames c) = length (tableNames d)"
proof -
  have "length (tableNames e) = card (dom (cat_get e))" if "distinct_names e" for e
    using distinct_card [OF cat.keys_distinct [OF that]] cat.keys_get [of e] by simp
  with assms show ?thesis by (simp add: same_tables_def)
qed

subsection \<open>Queries see the same\<close>

lemma same_build:
  "same_tables c d \<Longrightarrow> buildTableRef pw c al r = buildTableRef pw d al r"
  "same_tables c d \<Longrightarrow> buildSelect pw c s = buildSelect pw d s"
proof (induction pw c al r and pw c s rule: buildTableRef_buildSelect.induct)
  case (5 pw c dist items frm wh gr hav ord lim setop)
  have "buildSelect pw c (snd so) = buildSelect pw d (snd so)"
    if "setop = Some so" "fst so = UNION \<or> fst so = UNION_ALL" for so
    using 5 that by auto
  moreover have "buildTableRef pw c [] x = buildTableRef pw d [] x" if "frm = Some refs" "x \<in> set refs" for refs x
    using 5 that by (cases refs) auto
  ultimately show ?case
    unfolding buildSelect.simps
    by (intro rbind_cong) (auto intro!: rbind_cong rfold_cong split: option.splits list.splits)
qed (simp_all add: same_simps)

lemma same_select [same_simps]:
  assumes "same_tables c d"
  shows "runSelect pw fuel c s = runSelect pw fuel d s"
  unfolding runSelect_def general_select_def tryFastAggregate_def fast_gate_def same_getTable [OF assms]
    same_hasTable [OF assms] same_build(2) [OF assms] ..

lemma same_explain [same_simps]:
  assumes "same_tables c d"
  shows "conn_explain pw c sql = conn_explain pw d sql"
  unfolding conn_explain_def same_build(2) [OF assms] ..

subsection \<open>Every call answers the same and leaves the same\<close>

abbreviation same_outcome :: "catalog \<times> 'a \<Rightarrow> catalog \<times> 'a \<Rightarrow> bool" where
  "same_outcome x y \<equiv> rel_prod same_tables (=) x y"

lemma same_runInsert:
  assumes "same_tables c d"
  shows "same_outcome (runInsert pw fuel ins c) (runInsert pw fuel ins d)"
  unfolding runInsert_def writeTable_def same_getTable [OF assms] same_select [OF assms]
  using assms by (auto simp del: getTable_Inr split: sum.split insert_source.split prod.split)

lemma same_runUpdate:
  assumes "same_tables c d"
  shows "same_outcome (runUpdate pw u c) (runUpdate pw u d)"
  unfolding runUpdate_def registerTable_def Let_def same_getTable [OF assms]
  using assms by (auto simp del: getTable_Inr split: sum.split prod.split)

lemma same_runDelete:
  assumes "same_tables c d"
  shows "same_outcome (runDelete pw u c) (runDelete pw u d)"
  unfolding runDelete_def registerTable_def Let_def same_getTable [OF assms]
  using assms by (auto simp del: getTable_Inr split: sum.split prod.split)

lemma same_runStatement:
  assumes "same_tables c d"
  shows "same_outcome (runStatement pw fuel st c) (runStatement pw fuel st d)"
  using assms same_runInsert same_runUpdate same_runDelete
  by (cases st) (auto simp: runCreate_def runDrop_def registerSchema_def dropTable_def same_simps)

lemma same_query:
  assumes "same_tables c d"
  shows "same_outcome (query pw fuel sql c) (query pw fuel sql d)"
proof (cases "parse_tokens (lr_tokens (tokenize sql))")
  case (Inr st)
  from same_runStatement [OF assms, of pw fuel st] Inr assms show ?thesis
    by (auto simp: query_def Let_def split: prod.split)
qed (use assms in \<open>simp add: query_def Let_def\<close>)

lemma same_import:
  assumes "same_tables c d"
  shows "same_outcome (importCsv path fl n dl h c) (importCsv path fl n dl h d)"
  unfolding importCsv_def registerTable_def same_hasTable [OF assms]
  using assms by (auto split: sum.split)

lemma same_load_tables:
  "same_tables c d \<Longrightarrow> same_outcome (load_tables n c s) (load_tables n d s)"
  by (induction n arbitrary: c d s) (auto simp: registerTable_def split: sum.split)

lemma same_load:
  assumes "same_tables c d"
  shows "same_outcome (load_db path fl c) (load_db path fl d)"
proof -
  have "same_outcome (loadDatabase c path fl) (loadDatabase d path fl)"
    using assms same_load_tables by (auto simp: loadDatabase_def split: option.split sum.split)
  then show ?thesis by (auto simp: load_db_def same_simps rel_prod_sel split: prod.split sum.split)
qed

lemma same_step:
  assumes "same_tables c d"
  shows "same_outcome (client_step pw fuel call c) (client_step pw fuel call d)"
proof (cases call)
  case (CallQuery sql)
  with same_query [OF assms, of pw fuel sql] show ?thesis by (auto simp: client_step_def split: prod.split)
next
  case (CallImport path fl n dl h)
  with same_import [OF assms, of path fl n dl h] show ?thesis by (auto simp: client_step_def split: prod.split)
next
  case (CallLoad path fl)
  with same_load [OF assms, of path fl] show ?thesis by (auto simp: client_step_def split: prod.split)
qed (use assms in \<open>simp add: client_step_def same_simps\<close>)

lemma same_answers: "same_tables c d \<Longrightarrow> answers pw fuel calls c = answers pw fuel calls d"
proof (induction calls arbitrary: c d)
  case (Cons call calls)
  obtain c' a where c: "client_step pw fuel call c = (c', a)" by force
  obtain d' b where d: "client_step pw fuel call d = (d', b)" by force
  from same_step [OF Cons.prems, of pw fuel call] c d have "same_tables c' d'" "a = b" by auto
  with Cons.IH c d show ?case by simp
qed simp

text \<open>
  C6: a database that is saved, and loaded into an empty one, cannot be told from the database that
  was saved: every sequence of queries, explanations, imports and loads is answered the same.
\<close>

theorem reopened_database_answers_alike:
  assumes "storable c"
  shows "\<exists>file c'. saveDatabase True True c path = Inr file
    \<and> loadDatabase catalog_new path' (Some file) = (c', Inr ())
    \<and> (\<forall>calls. answers pw fuel calls c' = answers pw fuel calls c)"
proof -
  let ?c = "fold (\<lambda>t c. registerTable c t) (map snd (tables c)) catalog_new"
  from saved_file [OF assms] obtain fl where
    fl: "saveDatabase True True c path = Inr fl" "loadDatabase catalog_new path' (Some fl) = (?c, Inr ())"
    by blast
  have "distinct_names (fold (\<lambda>t c. registerTable c t) ts d)" if "distinct_names d" for ts d
    using that by (induction ts arbitrary: d) (simp_all add: registerTable_def cat.inv_put)
  moreover have "cat_get catalog_new = Map.empty" by (rule ext) (simp add: catalog_new_def cat_get_def)
  ultimately have "same_tables ?c c"
    using assms reloaded_get [of c catalog_new]
    by (simp add: same_tables_def storable_def wf_catalog_def distinct_names_def catalog_new_def)
  from fl same_answers [OF this] show ?thesis by blast
qed

theorem reopened_database_answers_alike_witness:
  "\<exists>file c'. saveDatabase True True demo_db ''out.lqdb'' = Inr file
    \<and> loadDatabase catalog_new ''out.lqdb'' (Some file) = (c', Inr ())
    \<and> answers (\<lambda>x y. x) 9 [CallQuery ''DELETE FROM t'', CallExplain ''SELECT a FROM t''] c'
      = answers (\<lambda>x y. x) 9 [CallQuery ''DELETE FROM t'', CallExplain ''SELECT a FROM t''] demo_db"
  using reopened_database_answers_alike [OF storable_demo_db] by metis

end
