(* ===== verification/LQ_Grammar.thy ===== *)
theory LQ_Grammar
  imports LQ_ParseTotal
begin

section \<open>The parser implements the SQL grammar\<close>

text \<open>
  The grammar of queries, stratified by precedence as \<open>docs/sql-reference.md\<close> writes it: \<open>phrase m e ts\<close>
  derives the tokens \<open>ts\<close> with the tree \<open>e\<close> on level \<open>m\<close>. Levels 1 (OR) to 8 (\<open>^\<close>) are those of the
  table of that document, whose binary operators \<open>operators\<close> lists; its level 9, the signs, is among the
  operands (10). The postfix forms, on level 4 of the document, are derived over an operand only (9): over
  the operators of levels 5 to 8 the code binds them tighter than the document says
  (\<open>postfix_binds_tighter\<close>), so that such a text is on neither side. \<open>query_of\<close> derives a SELECT. The
  parser of \<open>parser.cpp\<close> has no levels: it climbs precedences in a loop. The lemmas show that it reads
  everything that the grammar derives, with the derived tree.
\<close>

subsection \<open>What the parser does at any large enough depth\<close>

definition yields :: "(parsers \<Rightarrow> 'a parser) \<Rightarrow> token list \<Rightarrow> 'a \<Rightarrow> token list \<Rightarrow> bool" where
  "yields p ts x us = (\<exists>k. \<forall>n \<ge> k. p (parsers_at n) ts = Inr (x, us))"

named_theorems yields_intros \<open>introduction rules for \<open>yields\<close>\<close>

lemma yields_const: "p ts = Inr (x, us) \<Longrightarrow> yields (\<lambda>_. p) ts x us"
  by (simp add: yields_def)

lemma yields_eq:
  "yields q ts x us \<Longrightarrow> (\<And>n. p (parsers_at n) ts = q (parsers_at n) ts) \<Longrightarrow> yields p ts x us"
  by (simp add: yields_def)

lemma yields_bind [yields_intros]:
  assumes "yields p ts x us" "yields (\<lambda>P. f P x) us y vs"
  shows "yields (\<lambda>P. pbind (p P) (f P)) ts y vs"
proof -
  from assms obtain k l where "\<forall>n \<ge> k. p (parsers_at n) ts = Inr (x, us)"
    "\<forall>n \<ge> l. f (parsers_at n) x us = Inr (y, vs)" by (auto simp: yields_def)
  then have "\<forall>n \<ge> max k l. pbind (p (parsers_at n)) (f (parsers_at n)) ts = Inr (y, vs)"
    by (simp add: pbind_def)
  then show ?thesis unfolding yields_def by blast
qed

lemma yields_pret [yields_intros]: "yields (\<lambda>_. pret x) ts x ts"
  by (simp add: yields_def pret_def)

lemma yields_deeper:
  assumes "yields (\<lambda>P. q (deeper P)) ts x us"
  shows "yields q ts x us"
proof -
  from assms obtain k where "\<forall>n \<ge> k. q (parsers_at (Suc n)) ts = Inr (x, us)" by (auto simp: yields_def)
  then have "\<forall>n \<ge> Suc k. q (parsers_at n) ts = Inr (x, us)" by (metis Suc_le_D Suc_le_mono)
  then show ?thesis unfolding yields_def by blast
qed

text \<open>The methods of the class, by what they do one call deeper.\<close>

lemma yields_methods:
  "yields (\<lambda>P. parseExpr P m) ts e us \<Longrightarrow> yields (\<lambda>P. p_expr P m) ts e us"
  "yields (\<lambda>P. exprLoop P m l) ts e us \<Longrightarrow> yields (\<lambda>P. p_loop P m l) ts e us"
  "yields parseUnary ts e us \<Longrightarrow> yields p_unary ts e us"
  "yields (\<lambda>P. parsePostfix P l) ts e us \<Longrightarrow> yields (\<lambda>P. p_postfix P l) ts e us"
  "yields parsePrimary ts e us \<Longrightarrow> yields p_primary ts e us"
  "yields parseWhens ts ws us \<Longrightarrow> yields p_whens ts ws us"
  "yields parseExprs ts es us \<Longrightarrow> yields p_exprs ts es us"
  "yields parseSelect ts s us \<Longrightarrow> yields p_select ts s us"
  "yields parseSelectList ts items us \<Longrightarrow> yields p_items ts items us"
  "yields tableRefs ts rs us \<Longrightarrow> yields p_tables ts rs us"
  "yields (\<lambda>P. parseJoinChain P r) ts r' us \<Longrightarrow> yields (\<lambda>P. p_joins P r) ts r' us"
  "yields parsePrimaryTableRef ts r us \<Longrightarrow> yields p_primaryRef ts r us"
  "yields parseOrderBy ts ks us \<Longrightarrow> yields p_keys ts ks us"
  by (rule yields_deeper; simp add: deeper_def)+

text \<open>Tokens.\<close>

definition starts :: "token_kind set \<Rightarrow> token list \<Rightarrow> bool" where
  "starts K ts = (ts \<noteq> [] \<and> tk_kind (hd ts) \<in> K)"

lemma starts_Cons [simp]: "starts K (t # ts) = (tk_kind t \<in> K)"
  by (simp add: starts_def)

lemma starts_mono: "starts K ts \<Longrightarrow> K \<subseteq> L \<Longrightarrow> starts L ts"
  by (auto simp: starts_def)

lemma startsE:
  assumes "starts K ts"
  obtains t us where "ts = t # us" "tk_kind t \<in> K"
  using assms by (cases ts) (auto simp: starts_def)

lemma current_Cons [simp]: "current (t # ts) = t"
  by (simp add: current_def tok_peek_def)

lemma yields_next [yields_intros]: "tk_kind t \<noteq> END_OF_FILE \<Longrightarrow> yields (\<lambda>_. next_token) (t # ts) t ts"
  by (simp add: yields_def next_token_def tok_advance_def at_end_def)

lemma yields_hit [yields_intros]:
  assumes "tk_kind t = k" "k \<noteq> END_OF_FILE" "yields p ts x us"
  shows "yields (\<lambda>P. on_match k (p P) (q P)) (t # ts) x us"
  using assms by (auto simp: yields_def on_match_def pif_def tok_check_def pbind_def next_token_def tok_advance_def at_end_def)

lemma yields_miss:
  assumes "starts K ts" "k \<notin> K" "yields q ts x us"
  shows "yields (\<lambda>P. on_match k (p P) (q P)) ts x us"
  using assms by (auto elim!: startsE simp: yields_def on_match_def pif_def tok_check_def)

lemma yields_check:
  assumes "tk_kind t = k" "yields p (t # ts) x us"
  shows "yields (\<lambda>P. on_check k (p P) (q P)) (t # ts) x us"
  using assms by (auto simp: yields_def on_check_def pif_def tok_check_def)

lemma yields_uncheck:
  assumes "starts K ts" "k \<notin> K" "yields q ts x us"
  shows "yields (\<lambda>P. on_check k (p P) (q P)) ts x us"
  using assms by (auto elim!: startsE simp: yields_def on_check_def pif_def tok_check_def)

lemma yields_expect [yields_intros]:
  "tk_kind t = k \<Longrightarrow> k \<noteq> END_OF_FILE \<Longrightarrow> yields (\<lambda>_. expect k what) (t # ts) t ts"
  by (simp add: yields_def expect_def tok_check_def next_token_def tok_advance_def at_end_def)

lemma yields_match_hit: "tk_kind t = k \<Longrightarrow> k \<noteq> END_OF_FILE \<Longrightarrow> yields (\<lambda>_. tok_match k) (t # ts) True ts"
  by (simp add: yields_def tok_match_def tok_check_def tok_advance_def at_end_def)

lemma yields_match_miss: "starts K ts \<Longrightarrow> k \<notin> K \<Longrightarrow> yields (\<lambda>_. tok_match k) ts False ts"
  by (auto elim!: startsE simp: yields_def tok_match_def tok_check_def)

lemma yields_name [yields_intros]:
  "tk_kind t = IDENT \<Longrightarrow> yields (\<lambda>_. name_of what) (t # ts) (lexeme t) ts"
  unfolding name_of_def by (rule yields_intros | simp)+

lemma yields_if [yields_intros]:
  "(b \<Longrightarrow> yields p ts x us) \<Longrightarrow> (\<not> b \<Longrightarrow> yields q ts x us) \<Longrightarrow> yields (\<lambda>P. if b then p P else q P) ts x us"
  by (cases b) simp_all

subsection \<open>The grammar\<close>

text \<open>Words that a list ends with, that a clause begins with, and \<open>NOT\<close> where it may stand.\<close>

inductive separated :: "('a \<Rightarrow> token list \<Rightarrow> bool) \<Rightarrow> 'a list \<Rightarrow> token list \<Rightarrow> bool" for R where
  separated_one: "R x ts \<Longrightarrow> separated R [x] ts"
| separated_more: "R x ts \<Longrightarrow> tk_kind t = Punct COMMA \<Longrightarrow> separated R xs us \<Longrightarrow> separated R (x # xs) (ts @ t # us)"

lemma separated_mono [mono]:
  "(\<And>x ts. R x ts \<longrightarrow> S x ts) \<Longrightarrow> separated R xs us \<longrightarrow> separated S xs us"
  by (rule impI, erule separated.induct) (auto intro: separated.intros)

inductive branches :: "('a \<Rightarrow> token list \<Rightarrow> bool) \<Rightarrow> ('a \<times> 'a) list \<Rightarrow> token list \<Rightarrow> bool" for R where
  branches_none: "branches R [] []"
| branches_more: "tk_kind w = CaseWord KW_WHEN \<Longrightarrow> R c cs \<Longrightarrow> tk_kind t = CaseWord KW_THEN \<Longrightarrow> R r rs \<Longrightarrow>
    branches R ws us \<Longrightarrow> branches R ((c, r) # ws) (w # cs @ t # rs @ us)"

lemma branches_mono [mono]:
  "(\<And>x ts. R x ts \<longrightarrow> S x ts) \<Longrightarrow> branches R ws us \<longrightarrow> branches S ws us"
  by (rule impI, erule branches.induct) (auto intro: branches.intros)

definition after :: "token_kind \<Rightarrow> ('a \<Rightarrow> token list \<Rightarrow> bool) \<Rightarrow> 'a \<Rightarrow> token list \<Rightarrow> bool" where
  "after k R x ts = (\<exists>t us. ts = t # us \<and> tk_kind t = k \<and> R x us)"

definition possibly :: "('a \<Rightarrow> token list \<Rightarrow> bool) \<Rightarrow> 'a option \<Rightarrow> token list \<Rightarrow> bool" where
  "possibly R x ts = (case x of None \<Rightarrow> ts = [] | Some y \<Rightarrow> R y ts)"

abbreviation clause :: "token_kind \<Rightarrow> ('a \<Rightarrow> token list \<Rightarrow> bool) \<Rightarrow> 'a option \<Rightarrow> token list \<Rightarrow> bool" where
  "clause k R \<equiv> possibly (after k R)"

lemma after_mono [mono]: "(\<And>x ts. R x ts \<longrightarrow> S x ts) \<Longrightarrow> after k R x us \<longrightarrow> after k S x us"
  by (auto simp: after_def)

lemma possibly_mono [mono]: "(\<And>x ts. R x ts \<longrightarrow> S x ts) \<Longrightarrow> possibly R x us \<longrightarrow> possibly S x us"
  by (auto simp: possibly_def split: option.splits)

definition word :: "token_kind \<Rightarrow> bool \<Rightarrow> token list \<Rightarrow> bool" where
  "word k b ts = (if b then \<exists>t. ts = [t] \<and> tk_kind t = k else ts = [])"

text \<open>Parts of a SELECT over the expressions \<open>R\<close> or the queries \<open>Q\<close> that they contain.\<close>

inductive item :: "(expr \<Rightarrow> token list \<Rightarrow> bool) \<Rightarrow> select_item \<Rightarrow> token list \<Rightarrow> bool" for R where
  item_star: "tk_kind t = Op OP_STAR \<Longrightarrow> item R (ColumnRef None None ''*'', None) [t]"
| item_plain: "R e ts \<Longrightarrow> item R (e, None) ts"
| item_named: "R e ts \<Longrightarrow> tk_kind n = IDENT \<Longrightarrow> word (Clause KW_AS) b as \<Longrightarrow> item R (e, Some (lexeme n)) (ts @ as @ [n])"

definition order_word :: "sort_order \<Rightarrow> token list \<Rightarrow> bool" where
  "order_word ord ts = (case ord of
       ASC \<Rightarrow> \<exists>b. word (SortWord KW_ASC) b ts
     | DESC \<Rightarrow> word (SortWord KW_DESC) True ts)"

definition nulls_words :: "nulls_order \<Rightarrow> token list \<Rightarrow> bool" where
  "nulls_words n ts = (case n of
       NULLS_FIRST \<Rightarrow> after (SortWord KW_NULLS) (word (SortWord KW_FIRST)) True ts
     | NULLS_LAST \<Rightarrow> after (SortWord KW_NULLS) (word (SortWord KW_LAST)) True ts
     | UNSPECIFIED \<Rightarrow> ts = [])"

inductive key :: "(expr \<Rightarrow> token list \<Rightarrow> bool) \<Rightarrow> sort_key \<Rightarrow> token list \<Rightarrow> bool" for R where
  key: "R e ts \<Longrightarrow> order_word ord os \<Longrightarrow> nulls_words n ns \<Longrightarrow> key R (SortKey e ord n) (ts @ os @ ns)"

inductive limit :: "(expr \<Rightarrow> token list \<Rightarrow> bool) \<Rightarrow> limit_clause \<Rightarrow> token list \<Rightarrow> bool" for R where
  limit: "R e ts \<Longrightarrow> clause (Clause KW_OFFSET) R off os \<Longrightarrow> limit R (Some e, off) (ts @ os)"

inductive tail :: "(select_stmt \<Rightarrow> token list \<Rightarrow> bool) \<Rightarrow> set_op \<times> select_stmt \<Rightarrow> token list \<Rightarrow> bool" for Q where
  tail: "word (Clause KW_ALL) b as \<Longrightarrow> Q s ts \<Longrightarrow> tail Q (if b then UNION_ALL else UNION, s) (as @ ts)"

inductive base :: "(select_stmt \<Rightarrow> token list \<Rightarrow> bool) \<Rightarrow> table_ref \<Rightarrow> token list \<Rightarrow> bool" for Q where
  base_name: "tk_kind n = IDENT \<Longrightarrow> base Q (TableRef None (lexeme n)) [n]"
| base_qualified: "tk_kind q = IDENT \<Longrightarrow> tk_kind d = Punct DOT \<Longrightarrow> tk_kind n = IDENT \<Longrightarrow>
    base Q (TableRef (Some (lexeme q)) (lexeme n)) [q, d, n]"
| base_query: "tk_kind l = Punct LPAREN \<Longrightarrow> Q s ts \<Longrightarrow> tk_kind r = Punct RPAREN \<Longrightarrow> base Q (SubqueryRef s) (l # ts @ [r])"

inductive source :: "(select_stmt \<Rightarrow> token list \<Rightarrow> bool) \<Rightarrow> table_ref \<Rightarrow> token list \<Rightarrow> bool" for Q where
  source_plain: "base Q r ts \<Longrightarrow> source Q r ts"
| source_named: "base Q r ts \<Longrightarrow> word (Clause KW_AS) b as \<Longrightarrow> tk_kind n = IDENT \<Longrightarrow> lexeme n \<noteq> [] \<Longrightarrow>
    source Q (AliasedRef r (lexeme n)) (ts @ as @ [n])"

lemma part_mono [mono]:
  "(\<And>x ts. R x ts \<longrightarrow> S x ts) \<Longrightarrow> item R i us \<longrightarrow> item S i us"
  "(\<And>x ts. R x ts \<longrightarrow> S x ts) \<Longrightarrow> key R k us \<longrightarrow> key S k us"
  "(\<And>x ts. R x ts \<longrightarrow> S x ts) \<Longrightarrow> limit R l us \<longrightarrow> limit S l us"
  "(\<And>x ts. Q x ts \<longrightarrow> Q' x ts) \<Longrightarrow> tail Q t us \<longrightarrow> tail Q' t us"
  "(\<And>x ts. Q x ts \<longrightarrow> Q' x ts) \<Longrightarrow> base Q r us \<longrightarrow> base Q' r us"
proof -
  show "(\<And>x ts. R x ts \<longrightarrow> S x ts) \<Longrightarrow> item R i us \<longrightarrow> item S i us"
    by (auto elim!: item.cases intro: item.intros)
  show "(\<And>x ts. R x ts \<longrightarrow> S x ts) \<Longrightarrow> key R k us \<longrightarrow> key S k us"
    by (auto elim!: key.cases intro: key.intros)
  assume RS: "\<And>x ts. R x ts \<longrightarrow> S x ts"
  have "clause (Clause KW_OFFSET) R off os \<longrightarrow> clause (Clause KW_OFFSET) S off os" for off os
    by (intro possibly_mono after_mono RS)
  with RS show "limit R l us \<longrightarrow> limit S l us" by (auto elim!: limit.cases intro: limit.intros)
next
  assume QQ: "\<And>x ts. Q x ts \<longrightarrow> Q' x ts"
  then show "tail Q t us \<longrightarrow> tail Q' t us" using tail.intros by (fastforce elim!: tail.cases)
  from QQ show "base Q r us \<longrightarrow> base Q' r us" by (auto elim!: base.cases intro: base.intros)
qed

lemma source_mono [mono]: "(\<And>x ts. Q x ts \<longrightarrow> Q' x ts) \<Longrightarrow> source Q r us \<longrightarrow> source Q' r us"
  using part_mono(5) [of Q Q'] by (auto elim!: source.cases intro: source.intros)

definition join_words :: "join_type \<Rightarrow> token_kind list \<Rightarrow> bool" where
  "join_words ty ks = (case ty of
       CROSS \<Rightarrow> ks = [JoinWord KW_CROSS, JoinWord KW_JOIN]
     | INNER \<Rightarrow> ks \<in> {[JoinWord KW_JOIN], [JoinWord KW_INNER, JoinWord KW_JOIN]}
     | LEFT \<Rightarrow> ks \<in> {[JoinWord KW_LEFT, JoinWord KW_JOIN], [JoinWord KW_LEFT, JoinWord KW_OUTER, JoinWord KW_JOIN]}
     | RIGHT \<Rightarrow> ks \<in> {[JoinWord KW_RIGHT, JoinWord KW_JOIN], [JoinWord KW_RIGHT, JoinWord KW_OUTER, JoinWord KW_JOIN]}
     | FULL \<Rightarrow> ks \<in> {[JoinWord KW_FULL, JoinWord KW_JOIN], [JoinWord KW_FULL, JoinWord KW_OUTER, JoinWord KW_JOIN]})"

text \<open>The binary operators of the grammar: the level, the token, the operator of the tree.\<close>

definition operators :: "(nat \<times> token_kind \<times> binary_op) list" where
  "operators =
     [(1, ExprWord KW_OR, OR),
      (2, ExprWord KW_AND, AND),
      (4, Op OP_EQ, EQ), (4, Op OP_NEQ, NEQ), (4, Op OP_LT, LT), (4, Op OP_LTE, LTE), (4, Op OP_GT, GT), (4, Op OP_GTE, GTE),
      (4, ExprWord KW_LIKE, LIKE), (4, ExprWord KW_ILIKE, ILIKE),
      (5, Op OP_CONCAT, CONCAT),
      (6, Op OP_PLUS, ADD), (6, Op OP_MINUS, SUB),
      (7, Op OP_STAR, MUL), (7, Op OP_SLASH, DIV), (7, Op OP_PERCENT, MOD)]"

inductive phrase :: "nat \<Rightarrow> expr \<Rightarrow> token list \<Rightarrow> bool"
  and query_of :: "select_stmt \<Rightarrow> token list \<Rightarrow> bool"
  and joined :: "table_ref \<Rightarrow> token list \<Rightarrow> bool"
where
  lower: "phrase (Suc m) e ts \<Longrightarrow> m \<noteq> 8 \<Longrightarrow> phrase m e ts"
| operand: "phrase 10 e ts \<Longrightarrow> phrase 8 e ts"
| postfix: "phrase 9 e ts \<Longrightarrow> phrase 4 e ts"
| left_assoc: "(p, tk_kind t, f) \<in> set operators \<Longrightarrow> phrase p l ts \<Longrightarrow> phrase (Suc p) r us \<Longrightarrow>
    phrase p (BinaryExpr f l r) (ts @ t # us)"
| right_assoc: "tk_kind t = Op OP_CARET \<Longrightarrow> phrase 10 l ts \<Longrightarrow> phrase 8 r us \<Longrightarrow> phrase 8 (BinaryExpr POW l r) (ts @ t # us)"
| negated: "tk_kind t = Constraint KW_NOT \<Longrightarrow> phrase 3 e ts \<Longrightarrow> phrase 3 (UnaryExpr NOT e) (t # ts)"
| between: "phrase 9 e ts \<Longrightarrow> word (Constraint KW_NOT) b ns \<Longrightarrow> tk_kind t = ExprWord KW_BETWEEN \<Longrightarrow> phrase 5 lo ls \<Longrightarrow>
    tk_kind a = ExprWord KW_AND \<Longrightarrow> phrase 5 hi hs \<Longrightarrow> phrase 4 (BetweenExpr e lo hi b) (ts @ ns @ t # ls @ a # hs)"
| unlike: "phrase 9 e ts \<Longrightarrow> tk_kind n = Constraint KW_NOT \<Longrightarrow> (tk_kind t, f) \<in> {(ExprWord KW_LIKE, LIKE), (ExprWord KW_ILIKE, ILIKE)} \<Longrightarrow>
    phrase 5 p us \<Longrightarrow> phrase 4 (UnaryExpr NOT (BinaryExpr f e p)) (ts @ n # t # us)"
| is_null: "phrase 9 e ts \<Longrightarrow> tk_kind t = ExprWord KW_IS \<Longrightarrow> word (Constraint KW_NOT) b ns \<Longrightarrow> tk_kind u = Lit LIT_NULL \<Longrightarrow>
    phrase 9 (IsNullExpr e b) (ts @ t # ns @ [u])"
| in_nothing: "phrase 9 e ts \<Longrightarrow> word (Constraint KW_NOT) b ns \<Longrightarrow> tk_kind t = ExprWord KW_IN \<Longrightarrow> tk_kind l = Punct LPAREN \<Longrightarrow>
    tk_kind r = Punct RPAREN \<Longrightarrow> phrase 9 (InExpr e (InList []) b) (ts @ ns @ [t, l, r])"
| in_list: "phrase 9 e ts \<Longrightarrow> word (Constraint KW_NOT) b ns \<Longrightarrow> tk_kind t = ExprWord KW_IN \<Longrightarrow> tk_kind l = Punct LPAREN \<Longrightarrow>
    separated (phrase 1) es us \<Longrightarrow> tk_kind r = Punct RPAREN \<Longrightarrow>
    phrase 9 (InExpr e (InList es) b) (ts @ ns @ t # l # us @ [r])"
| in_query: "phrase 9 e ts \<Longrightarrow> word (Constraint KW_NOT) b ns \<Longrightarrow> tk_kind t = ExprWord KW_IN \<Longrightarrow> tk_kind l = Punct LPAREN \<Longrightarrow>
    query_of s us \<Longrightarrow> tk_kind r = Punct RPAREN \<Longrightarrow>
    phrase 9 (InExpr e (InSelect s) b) (ts @ ns @ t # l # us @ [r])"
| minus: "tk_kind t = Op OP_MINUS \<Longrightarrow> phrase 10 e ts \<Longrightarrow> phrase 10 (UnaryExpr NEGATE e) (t # ts)"
| plus: "tk_kind t = Op OP_PLUS \<Longrightarrow> phrase 10 e ts \<Longrightarrow> phrase 10 (UnaryExpr PLUS e) (t # ts)"
| integer: "tk_kind t = Lit LIT_INTEGER \<Longrightarrow> intValue t = Inr v \<Longrightarrow> phrase 10 (Literal (VI64 v)) [t]"
| floating: "tk_kind t = Lit LIT_FLOAT \<Longrightarrow> floatValue t = Inr v \<Longrightarrow> phrase 10 (Literal (VF64 v)) [t]"
| quoted: "tk_kind t = Lit LIT_STRING \<Longrightarrow> stringValue t = Inr v \<Longrightarrow> phrase 10 (Literal (VStr v)) [t]"
| truth: "tk_kind t = Lit LIT_TRUE \<Longrightarrow> phrase 10 (Literal (VBool True)) [t]"
| falsity: "tk_kind t = Lit LIT_FALSE \<Longrightarrow> phrase 10 (Literal (VBool False)) [t]"
| null: "tk_kind t = Lit LIT_NULL \<Longrightarrow> phrase 10 (Literal VNull) [t]"
| column: "tk_kind n = IDENT \<Longrightarrow> phrase 10 (ColumnRef None None (lexeme n)) [n]"
| column2: "tk_kind q = IDENT \<Longrightarrow> tk_kind d = Punct DOT \<Longrightarrow> tk_kind n = IDENT \<Longrightarrow>
    phrase 10 (ColumnRef None (Some (lexeme q)) (lexeme n)) [q, d, n]"
| column3: "tk_kind p = IDENT \<Longrightarrow> tk_kind c = Punct DOT \<Longrightarrow> tk_kind q = IDENT \<Longrightarrow> tk_kind d = Punct DOT \<Longrightarrow> tk_kind n = IDENT \<Longrightarrow>
    phrase 10 (ColumnRef (Some (lexeme p)) (Some (lexeme q)) (lexeme n)) [p, c, q, d, n]"
| all_columns: "tk_kind q = IDENT \<Longrightarrow> tk_kind d = Punct DOT \<Longrightarrow> tk_kind n = Op OP_STAR \<Longrightarrow>
    phrase 10 (ColumnRef None (Some (lexeme q)) ''*'') [q, d, n]"
| call_star: "tk_kind f = IDENT \<Longrightarrow> tk_kind l = Punct LPAREN \<Longrightarrow> word (Clause KW_DISTINCT) b ds \<Longrightarrow> tk_kind t = Op OP_STAR \<Longrightarrow>
    tk_kind r = Punct RPAREN \<Longrightarrow>
    phrase 10 (FunctionCall (map toupper (lexeme f)) [] b True (tk_loc f)) (f # l # ds @ [t, r])"
| call_nothing: "tk_kind f = IDENT \<Longrightarrow> tk_kind l = Punct LPAREN \<Longrightarrow> word (Clause KW_DISTINCT) b ds \<Longrightarrow> tk_kind r = Punct RPAREN \<Longrightarrow>
    phrase 10 (FunctionCall (map toupper (lexeme f)) [] b False (tk_loc f)) (f # l # ds @ [r])"
| call: "tk_kind f = IDENT \<Longrightarrow> tk_kind l = Punct LPAREN \<Longrightarrow> word (Clause KW_DISTINCT) b ds \<Longrightarrow> separated (phrase 1) es us \<Longrightarrow>
    tk_kind r = Punct RPAREN \<Longrightarrow>
    phrase 10 (FunctionCall (map toupper (lexeme f)) es b False (tk_loc f)) (f # l # ds @ us @ [r])"
| case_words: "tk_kind t = CaseWord KW_CASE \<Longrightarrow> possibly (phrase 1) subject ts \<Longrightarrow> branches (phrase 1) ws us \<Longrightarrow> ws \<noteq> [] \<Longrightarrow>
    clause (CaseWord KW_ELSE) (phrase 1) els vs \<Longrightarrow> tk_kind r = CaseWord KW_END \<Longrightarrow>
    phrase 10 (CaseExpr subject ws els) (t # ts @ us @ vs @ [r])"
| parens: "tk_kind l = Punct LPAREN \<Longrightarrow> phrase 1 e ts \<Longrightarrow> tk_kind r = Punct RPAREN \<Longrightarrow> phrase 10 e (l # ts @ [r])"
| subquery: "tk_kind l = Punct LPAREN \<Longrightarrow> query_of s ts \<Longrightarrow> tk_kind r = Punct RPAREN \<Longrightarrow>
    phrase 10 (SubqueryExpr s) (l # ts @ [r])"
| join_one: "source query_of r ts \<Longrightarrow> joined r ts"
| join_more: "joined l ts \<Longrightarrow> join_words ty (map tk_kind ws) \<Longrightarrow> source query_of r us \<Longrightarrow>
    possibly (after (JoinWord KW_ON) (phrase 1)) c vs \<Longrightarrow> (c = None) = (ty = CROSS) \<Longrightarrow>
    joined (JoinRef ty l r c) (ts @ ws @ us @ vs)"
| select: "tk_kind t = Clause KW_SELECT \<Longrightarrow>
    word (Clause KW_DISTINCT) b ds \<Longrightarrow> (b \<Longrightarrow> as = []) \<Longrightarrow> word (Clause KW_ALL) a as \<Longrightarrow>
    separated (item (phrase 1)) items is \<Longrightarrow>
    clause (Clause KW_FROM) (separated joined) frm fs \<Longrightarrow>
    clause (Clause KW_WHERE) (phrase 1) wh ws \<Longrightarrow>
    clause (Clause KW_GROUP) (after (Clause KW_BY) (separated (phrase 1))) gr gs \<Longrightarrow>
    clause (Clause KW_HAVING) (phrase 1) hav hs \<Longrightarrow>
    clause (Clause KW_ORDER) (after (Clause KW_BY) (separated (key (phrase 1)))) ord os \<Longrightarrow>
    clause (Clause KW_LIMIT) (limit (phrase 1)) lim ls \<Longrightarrow>
    clause (Clause KW_UNION) (tail query_of) setop us \<Longrightarrow>
    query_of (SelectStmt b items frm wh gr hav ord lim setop)
      (t # ds @ as @ is @ fs @ ws @ gs @ hs @ os @ ls @ us)"

subsection \<open>What may follow\<close>

abbreviation postfix_words :: "token_kind set" where
  "postfix_words \<equiv> {ExprWord KW_IS, ExprWord KW_BETWEEN, ExprWord KW_IN, Constraint KW_NOT}"

text \<open>No postfix form goes on here: \<open>NOT\<close> may stand if it negates none.\<close>

definition no_postfix :: "token list \<Rightarrow> bool" where
  "no_postfix ts = (starts (- {ExprWord KW_IS, ExprWord KW_BETWEEN, ExprWord KW_IN}) ts \<and> \<not> negated_ahead ts)"

lemma no_postfix_Cons [simp]: "tk_kind t \<notin> postfix_words \<Longrightarrow> no_postfix (t # ts)"
  by (simp add: no_postfix_def negated_ahead_def tok_check_def)

lemma no_postfixE:
  assumes "no_postfix ts"
  obtains t us where "ts = t # us" "tk_kind t \<notin> {ExprWord KW_IS, ExprWord KW_BETWEEN, ExprWord KW_IN}" "\<not> negated_ahead (t # us)"
  using assms by (cases ts) (auto simp: no_postfix_def starts_def)

text \<open>The token behind a phrase of level \<open>m\<close> does not continue it.\<close>

definition closes :: "nat \<Rightarrow> token list \<Rightarrow> bool" where
  "closes m ts = (starts (- {Punct LPAREN, Punct DOT}) ts
     \<and> (m \<le> 8 \<longrightarrow> no_postfix ts
          \<and> binaryPrecedence (tk_kind (hd ts)) < (if m = 8 then 8 else int m + 1)))"

definition parsed :: "nat \<Rightarrow> expr \<Rightarrow> token list \<Rightarrow> bool" where
  "parsed m e ts =
     (if m \<le> 8 then \<forall>k r x us. k \<le> int m \<longrightarrow> closes m r \<longrightarrow> yields (\<lambda>P. p_loop P k e) r x us \<longrightarrow>
        yields (\<lambda>P. p_expr P k) (ts @ r) x us
      else if m = 9 then \<forall>r x us. closes 9 r \<longrightarrow> yields (\<lambda>P. p_postfix P e) r x us \<longrightarrow>
        yields (\<lambda>P. pbind (p_unary P) (p_postfix P)) (ts @ r) x us
      else \<forall>r. closes 9 r \<longrightarrow> yields p_unary (ts @ r) e r)"

lemma parsedI:
  assumes "m \<le> 8"
    and "\<And>k r x us. k \<le> int m \<Longrightarrow> closes m r \<Longrightarrow> yields (\<lambda>P. p_loop P k e) r x us \<Longrightarrow>
      yields (\<lambda>P. p_expr P k) (ts @ r) x us"
  shows "parsed m e ts"
  using assms by (simp add: parsed_def)

lemma parsedI9:
  assumes "\<And>r x us. closes 9 r \<Longrightarrow> yields (\<lambda>P. p_postfix P e) r x us \<Longrightarrow>
      yields (\<lambda>P. pbind (p_unary P) (p_postfix P)) (ts @ r) x us"
  shows "parsed 9 e ts"
  using assms by (simp add: parsed_def)

lemma parsedI10: "(\<And>r. closes 9 r \<Longrightarrow> yields p_unary (ts @ r) e r) \<Longrightarrow> parsed 10 e ts"
  by (simp add: parsed_def)

lemma parsedD:
  "parsed m e ts \<Longrightarrow> m \<le> 8 \<Longrightarrow> k \<le> int m \<Longrightarrow> closes m r \<Longrightarrow> yields (\<lambda>P. p_loop P k e) r x us \<Longrightarrow>
     yields (\<lambda>P. p_expr P k) (ts @ r) x us"
  by (simp add: parsed_def)

lemma parsedD9:
  "parsed 9 e ts \<Longrightarrow> closes 9 r \<Longrightarrow> yields (\<lambda>P. p_postfix P e) r x us \<Longrightarrow>
     yields (\<lambda>P. pbind (p_unary P) (p_postfix P)) (ts @ r) x us"
  by (simp add: parsed_def)

lemma parsedD10: "parsed 10 e ts \<Longrightarrow> closes 9 r \<Longrightarrow> yields p_unary (ts @ r) e r"
  by (simp add: parsed_def)

lemma closesE:
  assumes "closes m ts"
  obtains t us where "ts = t # us" "tk_kind t \<notin> {Punct LPAREN, Punct DOT}"
    "m \<le> 8 \<Longrightarrow> no_postfix (t # us)" "m \<le> 8 \<Longrightarrow> binaryPrecedence (tk_kind t) < (if m = 8 then 8 else int m + 1)"
  using assms by (cases ts) (auto simp: closes_def starts_def)

lemma closes_Cons:
  "closes m (t # ts) = (tk_kind t \<notin> {Punct LPAREN, Punct DOT} \<and> (m \<le> 8 \<longrightarrow> no_postfix (t # ts)
     \<and> binaryPrecedence (tk_kind t) < (if m = 8 then 8 else int m + 1)))"
  by (auto simp: closes_def)

lemma closes_higher: "closes m ts \<Longrightarrow> m \<le> l \<Longrightarrow> closes l ts"
  by (erule closesE) (auto simp: closes_Cons split: if_splits)

text \<open>No postfix form and no operator: the loops return what they have.\<close>

lemma postfix_ends: "no_postfix ts \<Longrightarrow> yields (\<lambda>P. p_postfix P e) ts e ts"
  by (erule no_postfixE, rule yields_methods)
    (auto intro!: yields_const simp: yields_def parsePostfix_def on_match_def pif_def tok_check_def pbind_def pret_def)

lemma closes_starts: "closes m ts \<Longrightarrow> m \<le> 8 \<Longrightarrow> no_postfix ts"
  by (simp add: closes_def)

lemma loop_ends:
  assumes "starts K ts" "\<And>k. k \<in> K \<Longrightarrow> binaryPrecedence k < m"
  shows "yields (\<lambda>P. p_loop P m e) ts e ts"
  using assms by (elim startsE, intro yields_methods)
    (auto simp: yields_def exprLoop_def pbind_def pret_def Let_def)

lemma closes_loop: "closes m ts \<Longrightarrow> m < 8 \<Longrightarrow> yields (\<lambda>P. p_loop P (int m + 1) e) ts e ts"
  by (erule closesE) (auto intro!: loop_ends [of "{tk_kind _}"])

lemma standalone:
  assumes "parsed m e ts" "m \<le> 8" "closes m r" "binaryPrecedence (tk_kind (hd r)) < int m"
  shows "yields (\<lambda>P. p_expr P (int m)) (ts @ r) e r"
proof (rule parsedD [OF assms(1,2) order_refl assms(3)])
  from assms(3) show "yields (\<lambda>P. p_loop P (int m) e) r e r"
    by (rule closesE) (rule loop_ends [of "{tk_kind (hd r)}"], use assms(4) in auto)
qed

lemma parsed_expr:
  assumes "yields (\<lambda>P. pbind (p_unary P) (p_postfix P)) ts e us" "yields (\<lambda>P. p_loop P k e) us x vs"
  shows "yields (\<lambda>P. p_expr P k) ts x vs"
proof (rule yields_methods(1), rule yields_eq)
  show "yields (\<lambda>P. pbind (pbind (p_unary P) (p_postfix P)) (p_loop P k)) ts x vs"
    by (rule yields_bind assms)+
qed (simp add: parseExpr_def pbind_def rbind_def split: sum.split prod.split)

lemma parsed_lower: "parsed (Suc m) e ts \<Longrightarrow> parsed m e ts"
proof -
  assume p: "parsed (Suc m) e ts"
  consider "m < 8" | "m = 8" | "m = 9" | "m > 9" by linarith
  then show ?thesis
  proof cases
    case 1
    show ?thesis
    proof (rule parsedI)
      fix k r x us
      assume "k \<le> int m" "closes m r" "yields (\<lambda>P. p_loop P k e) r x us"
      with 1 show "yields (\<lambda>P. p_expr P k) (ts @ r) x us"
        by (intro parsedD [OF p]) (auto intro: closes_higher)
    qed (use 1 in simp)
  next
    case 2
    with p have p9: "parsed 9 e ts" by simp
    have "parsed 8 e ts"
    proof (rule parsedI)
      fix k r x us
      assume r: "closes 8 r" "yields (\<lambda>P. p_loop P k e) r x us"
      then have "yields (\<lambda>P. pbind (p_unary P) (p_postfix P)) (ts @ r) e r"
        by (intro parsedD9 [OF p9] postfix_ends closes_starts) (auto elim: closes_higher)
      then show "yields (\<lambda>P. p_expr P k) (ts @ r) x us" using r(2) by (rule parsed_expr)
    qed simp
    with 2 show ?thesis by simp
  next
    case 3
    with p have p10: "parsed 10 e ts" by simp
    have "parsed 9 e ts" by (rule parsedI9, rule yields_bind, rule parsedD10 [OF p10])
    with 3 show ?thesis by simp
  next
    case 4
    with p show ?thesis by (simp add: parsed_def)
  qed
qed

subsection \<open>Operators\<close>

lemma prec_3: "binaryPrecedence k \<noteq> 3"
  by (cases k) (auto simp: binaryPrecedence_def split: kw_expr.split op_kind.split)

lemma prec_0: "binaryPrecedence k \<noteq> 0"
  by (cases k) (auto simp: binaryPrecedence_def split: kw_expr.split op_kind.split)

lemma prec_plain:
  "0 \<le> binaryPrecedence k \<Longrightarrow> k \<notin> postfix_words \<union> {Punct LPAREN, Punct DOT, END_OF_FILE}"
  by (auto simp: binaryPrecedence_def)

lemma prec_caret: "(binaryPrecedence k = 8) = (k = Op OP_CARET)"
  by (cases k) (auto simp: binaryPrecedence_def split: kw_expr.split op_kind.split)

text \<open>The tables of the parser are the grammar's.\<close>

lemma operators_agree:
  assumes "(p, k, f) \<in> set operators"
  shows "binaryPrecedence k = int p" "toBinaryOp k = f" "p < 8"
  using assms by (auto simp: operators_def binaryPrecedence_def toBinaryOp_def)

text \<open>One round of the operator loop.\<close>

lemma loop_round:
  assumes "binaryPrecedence (tk_kind t) = int p" "k \<le> int p"
    and "yields (\<lambda>P. p_expr P (if isRightAssoc (tk_kind t) then int p else int p + 1)) ts r us"
    and "yields (\<lambda>P. p_postfix P (BinaryExpr (toBinaryOp (tk_kind t)) l r)) us e vs"
    and "yields (\<lambda>P. p_loop P k e) vs x ws"
  shows "yields (\<lambda>P. p_loop P k l) (t # ts) x ws"
proof (rule yields_methods, rule yields_eq)
  have "tk_kind t \<noteq> END_OF_FILE" using prec_plain [of "tk_kind t"] assms(1) by auto
  then show "yields (\<lambda>P. pbind next_token (\<lambda>_.
      pbind (p_expr P (if isRightAssoc (tk_kind t) then int p else int p + 1)) (\<lambda>r.
      pbind (p_postfix P (BinaryExpr (toBinaryOp (tk_kind t)) l r)) (p_loop P k)))) (t # ts) x ws"
    by (rule yields_bind [OF yields_next]) (rule yields_bind, rule assms(3), rule yields_bind, rule assms(4), rule assms(5))
qed (use assms(1,2) in \<open>simp add: exprLoop_def Let_def pbind_def\<close>)

lemma parsed_left_assoc:
  assumes t: "binaryPrecedence (tk_kind t) = int p" "p < 8"
    and l: "parsed p l ts" and r: "parsed (Suc p) r us"
  shows "parsed p (BinaryExpr (toBinaryOp (tk_kind t)) l r) (ts @ t # us)"
proof (rule parsedI)
  fix k q x vs
  assume k: "k \<le> int p" and q: "closes p q"
    and rest: "yields (\<lambda>P. p_loop P k (BinaryExpr (toBinaryOp (tk_kind t)) l r)) q x vs"
  have left: "\<not> isRightAssoc (tk_kind t)"
    using t by (auto simp: isRightAssoc_def binaryPrecedence_def)
  have "binaryPrecedence (tk_kind (hd q)) < int (Suc p)"
    using q t(2) by (auto simp: closes_def)
  then have "yields (\<lambda>P. p_expr P (int (Suc p))) (us @ q) r q"
    using t(2) by (intro standalone [OF r]) (auto intro: closes_higher [OF q])
  then have "yields (\<lambda>P. p_expr P (if isRightAssoc (tk_kind t) then int p else int p + 1)) (us @ q) r q"
    using left by (simp add: add.commute)
  then have "yields (\<lambda>P. p_loop P k l) (t # us @ q) x vs"
    by (rule loop_round [OF t(1) k _ postfix_ends rest]) (use q t(2) in \<open>auto intro: closes_starts\<close>)
  moreover have "closes p (t # us @ q)" using prec_plain [of "tk_kind t"] t by (auto simp: closes_Cons)
  ultimately show "yields (\<lambda>P. p_expr P k) ((ts @ t # us) @ q) x vs"
    using t(2) k by (simp add: parsedD [OF l])
qed (use t in simp)

lemma parsed_right_assoc:
  assumes t: "tk_kind t = Op OP_CARET" and l: "parsed 9 l ts" and r: "parsed 8 r us"
  shows "parsed 8 (BinaryExpr POW l r) (ts @ t # us)"
proof (rule parsedI)
  fix k q x vs
  assume k: "k \<le> int 8" and q: "closes 8 q" and rest: "yields (\<lambda>P. p_loop P k (BinaryExpr POW l r)) q x vs"
  have p: "binaryPrecedence (tk_kind t) = int 8" using t prec_caret by simp
  have op: "toBinaryOp (tk_kind t) = POW" "isRightAssoc (tk_kind t)"
    using t by (simp_all add: toBinaryOp_def isRightAssoc_def)
  have "yields (\<lambda>P. p_expr P (int 8)) (us @ q) r q"
    by (rule standalone [OF r]) (use q in \<open>auto simp: closes_def\<close>)
  then have "yields (\<lambda>P. p_loop P k l) (t # us @ q) x vs"
    by (intro loop_round [OF p k _ postfix_ends]) (use rest op q in \<open>auto intro: closes_starts\<close>)
  moreover have "closes 9 (t # us @ q)" "no_postfix (t # us @ q)" using t by (simp_all add: closes_Cons)
  then have "yields (\<lambda>P. pbind (p_unary P) (p_postfix P)) (ts @ t # us @ q) l (t # us @ q)"
    by (intro parsedD9 [OF l] postfix_ends)
  ultimately have "yields (\<lambda>P. p_expr P k) (ts @ t # us @ q) x vs" by (rule parsed_expr [rotated])
  then show "yields (\<lambda>P. p_expr P k) ((ts @ t # us) @ q) x vs" by simp
qed simp

lemma unary_prefix:
  assumes "tk_kind t = Op OP_MINUS \<and> f = UnaryExpr NEGATE \<or> tk_kind t = Op OP_PLUS \<and> f = UnaryExpr PLUS"
    and "yields p_unary ts e us"
  shows "yields p_unary (t # ts) (f e) us"
  using assms(1)
proof (elim disjE conjE; intro yields_methods)
  assume t: "tk_kind t = Op OP_MINUS" "f = UnaryExpr NEGATE"
  show "yields parseUnary (t # ts) (f e) us"
    unfolding parseUnary_def t(2)
    by (rule yields_miss [of "{tk_kind t}"], use t in simp_all, rule yields_hit, use t in simp_all)
      (rule yields_bind [OF assms(2)], rule yields_pret)
next
  assume t: "tk_kind t = Op OP_PLUS" "f = UnaryExpr PLUS"
  show "yields parseUnary (t # ts) (f e) us"
    unfolding parseUnary_def t(2)
    by (rule yields_miss [of "{tk_kind t}"], use t in simp_all,
        rule yields_miss [of "{tk_kind t}"], use t in simp_all, rule yields_hit, use t in simp_all)
      (rule yields_bind [OF assms(2)], rule yields_pret)
qed

lemma parsed_sign:
  assumes "tk_kind t = Op OP_MINUS \<and> f = UnaryExpr NEGATE \<or> tk_kind t = Op OP_PLUS \<and> f = UnaryExpr PLUS"
    and "parsed 10 e ts"
  shows "parsed 10 (f e) (t # ts)"
  using unary_prefix [OF assms(1)] parsedD10 [OF assms(2)] by (auto intro: parsedI10)

lemma parsed_not:
  assumes t: "tk_kind t = Constraint KW_NOT" and e: "parsed 3 e ts"
  shows "parsed 3 (UnaryExpr NOT e) (t # ts)"
proof (rule parsedI)
  fix k q x vs
  assume q: "closes 3 q" and rest: "yields (\<lambda>P. p_loop P k (UnaryExpr NOT e)) q x vs"
  have "binaryPrecedence (tk_kind (hd q)) < int 3"
    using q prec_3 [of "tk_kind (hd q)"] by (auto simp: closes_def)
  then have "yields (\<lambda>P. p_expr P (int 3)) (ts @ q) e q" by (intro standalone [OF e] q) simp_all
  then have "yields p_unary (t # ts @ q) (UnaryExpr NOT e) q"
    unfolding parseUnary_def
    by (intro yields_methods, unfold parseUnary_def, intro yields_hit)
      (use t in \<open>auto intro: yields_bind yields_pret\<close>)
  then have "yields (\<lambda>P. pbind (p_unary P) (p_postfix P)) (t # ts @ q) (UnaryExpr NOT e) q"
    by (rule yields_bind) (rule postfix_ends [OF closes_starts [OF q]], simp)
  with rest show "yields (\<lambda>P. p_expr P k) ((t # ts) @ q) x vs" by (simp add: parsed_expr)
qed simp

subsection \<open>Postfix forms\<close>

lemma yields_negation:
  assumes "word (Constraint KW_NOT) b ns" "tk_kind t \<in> {ExprWord KW_BETWEEN, ExprWord KW_IN, ExprWord KW_LIKE, ExprWord KW_ILIKE}"
  shows "yields (\<lambda>_. pif negated_ahead (pbind next_token (\<lambda>_. pret True)) (pret False)) (ns @ t # ts) b (t # ts)"
  using assms
  by (cases b) (auto intro!: yields_const simp: word_def pif_def negated_ahead_def tok_check_def tok_peek_def pbind_def
      pret_def next_token_def tok_advance_def at_end_def)

text \<open>\<open>parsePostfix\<close> behind an optional NOT.\<close>

abbreviation postfix_rest :: "parsers \<Rightarrow> expr \<Rightarrow> bool \<Rightarrow> expr parser" where
  "postfix_rest P e b \<equiv> on_match (ExprWord KW_BETWEEN)
            (pbind (p_expr P 5) (\<lambda>low.
             pbind (expect (ExprWord KW_AND) ''AND in BETWEEN'') (\<lambda>_.
             pbind (p_expr P 5) (\<lambda>high.
               p_postfix P (BetweenExpr e low high b)))))
          (on_match (ExprWord KW_IN)
            (pbind (expect (Punct LPAREN) ''( after IN'') (\<lambda>_.
             pbind (on_check (Clause KW_SELECT)
                      (pbind (p_select P) (\<lambda>s. pret (InSelect s)))
                      (pbind (parseArgs P) (\<lambda>es. pret (InList es)))) (\<lambda>vals.
             pbind (expect (Punct RPAREN) '') after IN list'') (\<lambda>_.
               p_postfix P (InExpr e vals b)))))
          (if b
           then pbind next_token (\<lambda>k. pbind (p_expr P 5) (\<lambda>right.
                  p_postfix P (UnaryExpr NOT
                    (BinaryExpr (if tk_kind k = ExprWord KW_ILIKE then ILIKE else LIKE) e right))))
           else pret e))"

lemma postfix_start:
  assumes b: "word (Constraint KW_NOT) b ns"
    and t: "tk_kind t \<in> {ExprWord KW_BETWEEN, ExprWord KW_IN, ExprWord KW_LIKE, ExprWord KW_ILIKE}"
    and rest: "yields (\<lambda>P. postfix_rest P e b) (t # ts) x us"
  shows "yields (\<lambda>P. p_postfix P e) (ns @ t # ts) x us"
proof (rule yields_methods)
  have "starts {Constraint KW_NOT, tk_kind t} (ns @ t # ts)" using b by (auto simp: word_def split: if_splits)
  then show "yields (\<lambda>P. parsePostfix P e) (ns @ t # ts) x us"
    unfolding parsePostfix_def
    by (rule yields_miss) (use t in force, rule yields_bind, rule yields_negation [OF b t], rule rest)
qed

lemma postfix_between:
  assumes "word (Constraint KW_NOT) b ns" "tk_kind t = ExprWord KW_BETWEEN"
    and "yields (\<lambda>P. p_expr P 5) ts lo (a # us)" "tk_kind a = ExprWord KW_AND" "yields (\<lambda>P. p_expr P 5) us hi vs"
    and "yields (\<lambda>P. p_postfix P (BetweenExpr e lo hi b)) vs x ws"
  shows "yields (\<lambda>P. p_postfix P e) (ns @ t # ts) x ws"
proof (rule postfix_start [OF assms(1)], use assms(2) in simp, rule yields_hit [OF assms(2)], simp)
  show "yields (\<lambda>P. pbind (p_expr P 5) (\<lambda>low. pbind (expect (ExprWord KW_AND) ''AND in BETWEEN'') (\<lambda>_.
       pbind (p_expr P 5) (\<lambda>high. p_postfix P (BetweenExpr e low high b))))) ts x ws"
    by (rule yields_bind, rule assms(3), rule yields_bind, rule yields_expect, use assms(4) in simp, simp)
      (rule yields_bind, rule assms(5), rule assms(6))
qed

lemma postfix_unlike:
  assumes "tk_kind n = Constraint KW_NOT" "tk_kind t \<in> {ExprWord KW_LIKE, ExprWord KW_ILIKE}"
    and "yields (\<lambda>P. p_expr P 5) ts p us"
    and "yields (\<lambda>P. p_postfix P (UnaryExpr NOT (BinaryExpr (toBinaryOp (tk_kind t)) e p))) us x vs"
  shows "yields (\<lambda>P. p_postfix P e) (n # t # ts) x vs"
proof -
  have "word (Constraint KW_NOT) True [n]" using assms(1) by (simp add: word_def)
  then have "yields (\<lambda>P. p_postfix P e) ([n] @ t # ts) x vs"
  proof (rule postfix_start)
    have op: "(if tk_kind t = ExprWord KW_ILIKE then ILIKE else LIKE) = toBinaryOp (tk_kind t)"
      using assms(2) by (auto simp: toBinaryOp_def)
    have "yields (\<lambda>P. pbind next_token (\<lambda>k. pbind (p_expr P 5) (\<lambda>right. p_postfix P (UnaryExpr NOT
        (BinaryExpr (if tk_kind k = ExprWord KW_ILIKE then ILIKE else LIKE) e right))))) (t # ts) x vs"
      by (rule yields_bind, rule yields_next, use assms(2) in force, rule yields_bind, rule assms(3))
        (unfold op, rule assms(4))
    then show "yields (\<lambda>P. postfix_rest P e True) (t # ts) x vs"
      by (intro yields_miss [of "{tk_kind t}"]) (use assms(2) in auto)
  qed (use assms(2) in auto)
  then show ?thesis by simp
qed

lemma postfix_in:
  assumes "word (Constraint KW_NOT) b ns" "tk_kind t = ExprWord KW_IN" "tk_kind l = Punct LPAREN" "tk_kind r = Punct RPAREN"
    and vals: "yields (\<lambda>P. on_check (Clause KW_SELECT) (pbind (p_select P) (\<lambda>s. pret (InSelect s)))
          (pbind (parseArgs P) (\<lambda>es. pret (InList es)))) ts vals (r # us)"
    and rest: "yields (\<lambda>P. p_postfix P (InExpr e vals b)) us x vs"
  shows "yields (\<lambda>P. p_postfix P e) (ns @ t # l # ts) x vs"
proof (rule postfix_start [OF assms(1)], use assms(2) in simp, rule yields_miss [of "{tk_kind t}"],
    use assms(2) in simp, use assms(2) in simp, rule yields_hit [OF assms(2)], simp)
  show "yields (\<lambda>P. pbind (expect (Punct LPAREN) ''( after IN'') (\<lambda>_.
      pbind (on_check (Clause KW_SELECT) (pbind (p_select P) (\<lambda>s. pret (InSelect s)))
          (pbind (parseArgs P) (\<lambda>es. pret (InList es)))) (\<lambda>vals.
      pbind (expect (Punct RPAREN) '') after IN list'') (\<lambda>_. p_postfix P (InExpr e vals b))))) (l # ts) x vs"
    by (rule yields_bind, rule yields_expect [OF assms(3)], simp, rule yields_bind, rule vals)
      (rule yields_bind, rule yields_expect [OF assms(4)], simp, rule rest)
qed

lemma postfix_is_null:
  assumes "tk_kind t = ExprWord KW_IS" "word (Constraint KW_NOT) b ns" "tk_kind u = Lit LIT_NULL"
    and "yields (\<lambda>P. p_postfix P (IsNullExpr e b)) ts x us"
  shows "yields (\<lambda>P. p_postfix P e) (t # ns @ u # ts) x us"
proof (rule yields_methods, unfold parsePostfix_def, rule yields_hit [OF assms(1)], simp)
  have m: "yields (\<lambda>_. tok_match (Constraint KW_NOT)) (ns @ u # ts) b (u # ts)"
    using assms(2,3) by (cases b) (auto simp: word_def intro: yields_match_hit yields_match_miss [of "{tk_kind u}"])
  show "yields (\<lambda>P. pbind (tok_match (Constraint KW_NOT)) (\<lambda>negated.
      pbind (expect (Lit LIT_NULL) ''NULL after IS [NOT]'') (\<lambda>_. p_postfix P (IsNullExpr e negated)))) (ns @ u # ts) x us"
    by (rule yields_bind [OF m], rule yields_bind, rule yields_expect [OF assms(3)], simp, rule assms(4))
qed

lemma word_closes: "word (Constraint KW_NOT) b ns \<Longrightarrow> tk_kind t \<notin> {Punct LPAREN, Punct DOT} \<Longrightarrow> closes 9 (ns @ t # ts)"
  by (auto simp: word_def closes_Cons split: if_splits)

lemma parsed_between:
  assumes e: "parsed 9 e ts" and b: "word (Constraint KW_NOT) b ns" and t: "tk_kind t = ExprWord KW_BETWEEN"
    and lo: "parsed 5 lo ls" and a: "tk_kind a = ExprWord KW_AND" and hi: "parsed 5 hi hs"
  shows "parsed 4 (BetweenExpr e lo hi b) (ts @ ns @ t # ls @ a # hs)"
proof (rule parsedI)
  fix k q x vs
  assume q: "closes 4 q" and rest: "yields (\<lambda>P. p_loop P k (BetweenExpr e lo hi b)) q x vs"
  have "closes 5 (a # hs @ q)" "binaryPrecedence (tk_kind a) < 5" using a by (simp_all add: closes_Cons binaryPrecedence_def)
  then have l: "yields (\<lambda>P. p_expr P 5) (ls @ a # hs @ q) lo (a # hs @ q)" using standalone [OF lo, of "a # hs @ q"] by simp
  have "closes 5 q" "binaryPrecedence (tk_kind (hd q)) < 5" using closes_higher [OF q] q by (simp_all add: closes_def)
  then have h: "yields (\<lambda>P. p_expr P 5) (hs @ q) hi q" using standalone [OF hi, of q] by simp
  have "yields (\<lambda>P. p_postfix P e) (ns @ t # ls @ a # hs @ q) (BetweenExpr e lo hi b) q"
    by (rule postfix_between [OF b t l a h postfix_ends]) (rule closes_starts [OF q], simp)
  then have "yields (\<lambda>P. pbind (p_unary P) (p_postfix P)) (ts @ ns @ t # ls @ a # hs @ q) (BetweenExpr e lo hi b) q"
    by (intro parsedD9 [OF e] word_closes [OF b]) (use t in simp)
  from parsed_expr [OF this rest] show "yields (\<lambda>P. p_expr P k) ((ts @ ns @ t # ls @ a # hs) @ q) x vs" by simp
qed simp

lemma parsed_unlike:
  assumes e: "parsed 9 e ts" and n: "tk_kind n = Constraint KW_NOT" and t: "tk_kind t \<in> {ExprWord KW_LIKE, ExprWord KW_ILIKE}"
    and p: "parsed 5 p us"
  shows "parsed 4 (UnaryExpr NOT (BinaryExpr (toBinaryOp (tk_kind t)) e p)) (ts @ n # t # us)"
proof (rule parsedI)
  let ?e = "UnaryExpr NOT (BinaryExpr (toBinaryOp (tk_kind t)) e p)"
  fix k q x vs
  assume q: "closes 4 q" and rest: "yields (\<lambda>P. p_loop P k ?e) q x vs"
  have "closes 5 q" "binaryPrecedence (tk_kind (hd q)) < 5" using closes_higher [OF q] q by (simp_all add: closes_def)
  then have h: "yields (\<lambda>P. p_expr P 5) (us @ q) p q" using standalone [OF p, of q] by simp
  have "yields (\<lambda>P. p_postfix P e) (n # t # us @ q) ?e q"
    by (rule postfix_unlike [OF n t h postfix_ends]) (rule closes_starts [OF q], simp)
  then have "yields (\<lambda>P. pbind (p_unary P) (p_postfix P)) (ts @ n # t # us @ q) ?e q"
    by (intro parsedD9 [OF e]) (use n in \<open>simp_all add: closes_Cons\<close>)
  from parsed_expr [OF this rest] show "yields (\<lambda>P. p_expr P k) ((ts @ n # t # us) @ q) x vs" by simp
qed simp

lemma parsed_is_null:
  assumes "parsed 9 e ts" "tk_kind t = ExprWord KW_IS" "word (Constraint KW_NOT) b ns" "tk_kind u = Lit LIT_NULL"
  shows "parsed 9 (IsNullExpr e b) (ts @ t # ns @ [u])"
proof (rule parsedI9)
  fix q x vs
  assume "yields (\<lambda>P. p_postfix P (IsNullExpr e b)) q x vs"
  from postfix_is_null [OF assms(2-4) this]
  have "yields (\<lambda>P. pbind (p_unary P) (p_postfix P)) (ts @ t # ns @ u # q) x vs"
    by (intro parsedD9 [OF assms(1)]) (use assms(2) in \<open>simp_all add: closes_Cons\<close>)
  then show "yields (\<lambda>P. pbind (p_unary P) (p_postfix P)) ((ts @ t # ns @ [u]) @ q) x vs" by simp
qed

lemma parsed_in:
  assumes "parsed 9 e ts" "word (Constraint KW_NOT) b ns" "tk_kind t = ExprWord KW_IN" "tk_kind l = Punct LPAREN"
    and "tk_kind r = Punct RPAREN"
    and "\<And>q. yields (\<lambda>P. on_check (Clause KW_SELECT) (pbind (p_select P) (\<lambda>s. pret (InSelect s)))
          (pbind (parseArgs P) (\<lambda>es. pret (InList es)))) (us @ r # q) vals (r # q)"
  shows "parsed 9 (InExpr e vals b) (ts @ ns @ t # l # us @ [r])"
proof (rule parsedI9)
  fix q x vs
  assume "yields (\<lambda>P. p_postfix P (InExpr e vals b)) q x vs"
  from postfix_in [OF assms(2-6) this]
  have "yields (\<lambda>P. pbind (p_unary P) (p_postfix P)) (ts @ ns @ t # l # us @ r # q) x vs"
    by (intro parsedD9 [OF assms(1)] word_closes [OF assms(2)]) (use assms(3) in simp_all)
  then show "yields (\<lambda>P. pbind (p_unary P) (p_postfix P)) ((ts @ ns @ t # l # us @ [r]) @ q) x vs" by simp
qed

subsection \<open>Expressions up to a word that ends them, lists and clauses\<close>

definition expr_enders :: "token_kind set" where
  "expr_enders = {k. k \<notin> postfix_words \<union> {Punct LPAREN, Punct DOT} \<and> binaryPrecedence k < 0}"

lemma expr_enders [simp]:
  "Punct COMMA \<in> expr_enders" "Punct RPAREN \<in> expr_enders" "Punct SEMICOLON \<in> expr_enders"
  "END_OF_FILE \<in> expr_enders" "IDENT \<in> expr_enders" "Clause c \<in> expr_enders" "JoinWord j \<in> expr_enders"
  "CaseWord w \<in> expr_enders" "SortWord s \<in> expr_enders"
  by (simp_all add: expr_enders_def binaryPrecedence_def)

text \<open>No expression begins with one of these.\<close>

definition first_words :: "token_kind set" where
  "first_words = - ({Punct RPAREN, Op OP_STAR, CaseWord KW_WHEN} \<union> range Clause)"

definition phrased :: "nat \<Rightarrow> expr \<Rightarrow> token list \<Rightarrow> bool" where
  "phrased m e ts = (parsed m e ts \<and> starts first_words ts)"

abbreviation expression :: "expr \<Rightarrow> token list \<Rightarrow> bool" where
  "expression \<equiv> phrased 1"

lemma expression_yields:
  assumes "expression e ts" "starts expr_enders r"
  shows "yields parseExpression (ts @ r) e r"
  unfolding parseExpression_def
proof (rule parsedD [of 1 e ts])
  show "closes 1 r" using assms(2) by (rule startsE) (auto simp: closes_Cons expr_enders_def)
  show "yields (\<lambda>P. p_loop P 0 e) r e r" using assms(2) by (rule loop_ends) (simp add: expr_enders_def)
qed (use assms(1) in \<open>simp_all add: phrased_def\<close>)

lemma yields_do_list:
  assumes "separated R xs ts" and elem: "\<And>x ts r. R x ts \<Longrightarrow> F r \<Longrightarrow> yields p (ts @ r) x r"
    and comma: "\<And>c us. tk_kind c = Punct COMMA \<Longrightarrow> F (c # us)"
    and again: "\<And>ts xs us. yields (\<lambda>P. do_list (p P) (q P)) ts xs us \<Longrightarrow> yields q ts xs us"
    and r: "F r" "starts K r" "Punct COMMA \<notin> K"
  shows "yields q (ts @ r) xs r"
  using assms(1)
proof (induction rule: separated.induct)
  case (separated_one x ts)
  show ?case
    by (rule again, unfold do_list_def, rule yields_bind, rule elem [OF separated_one r(1)])
      (rule yields_miss [OF r(2,3)], rule yields_pret)
next
  case (separated_more x ts t xs us)
  have "yields q (ts @ t # us @ r) (x # xs) r"
    by (rule again, unfold do_list_def, rule yields_bind, rule elem [OF separated_more(1) comma [OF separated_more(2)]])
      (rule yields_hit [OF separated_more(2)], simp, rule yields_bind, rule separated_more(4), rule yields_pret)
  then show ?case by simp
qed

lemma yields_optional:
  assumes "clause k R x ts" "k \<noteq> END_OF_FILE" "\<And>y us. R y us \<Longrightarrow> yields p (us @ r) y r" "starts K r" "k \<notin> K"
  shows "yields (\<lambda>P. optional k (p P)) (ts @ r) x r"
proof (cases x)
  case None
  with assms(1) show ?thesis
    unfolding optional_def by (auto simp: possibly_def intro: yields_miss [OF assms(4,5)] yields_pret)
next
  case (Some y)
  with assms(1) obtain t us where t: "ts = t # us" "tk_kind t = k" "R y us" by (auto simp: possibly_def after_def)
  have "yields (\<lambda>P. optional k (p P)) (t # us @ r) (Some y) r"
    unfolding optional_def
    by (rule yields_hit [OF t(2) assms(2)], rule yields_bind, rule assms(3) [OF t(3)], rule yields_pret)
  with Some t show ?thesis by simp
qed

lemma clause_starts: "clause k R x ts \<Longrightarrow> starts K r \<Longrightarrow> starts (insert k K) (ts @ r)"
  by (auto simp: possibly_def after_def starts_def split: option.splits)

lemma separated_starts: "separated R xs ts \<Longrightarrow> (\<And>x ts. R x ts \<Longrightarrow> starts K ts) \<Longrightarrow> starts K ts"
  by (induction rule: separated.induct) (fastforce simp: starts_def)+

lemma starts_append: "starts K ts \<Longrightarrow> starts K (ts @ r)"
  by (auto simp: starts_def)

lemma yields_arguments:
  assumes "separated expression es ts" "tk_kind t = Punct RPAREN"
  shows "yields parseArgs (ts @ t # r) es (t # r)"
proof -
  have l: "yields p_exprs (ts @ t # r) es (t # r)"
    by (rule yields_do_list [OF assms(1), of "starts expr_enders" parseExpression _ _ "{Punct RPAREN}"])
      (use assms(2) in \<open>auto intro: expression_yields yields_methods simp: parseExprs_def [abs_def]\<close>)
  have "starts first_words (ts @ t # r)"
    by (intro starts_append separated_starts [OF assms(1)]) (simp add: phrased_def)
  then show ?thesis
    unfolding parseArgs_def by (rule yields_uncheck) (simp add: first_words_def, rule l)
qed

lemma yields_no_arguments: "tk_kind t = Punct RPAREN \<Longrightarrow> yields parseArgs (t # r) [] (t # r)"
  unfolding parseArgs_def by (rule yields_check) (simp, rule yields_pret)

subsection \<open>Operands\<close>

lemma parsed_primary:
  assumes "tk_kind t \<notin> {Constraint KW_NOT, Op OP_MINUS, Op OP_PLUS}"
    and "\<And>r. closes 9 r \<Longrightarrow> yields parsePrimary (t # ts @ r) e r"
  shows "parsed 10 e (t # ts)"
proof (rule parsedI10)
  fix r
  assume "closes 9 r"
  then have "yields p_primary (t # ts @ r) e r" by (intro yields_methods assms(2))
  then have "yields parseUnary (t # ts @ r) e r"
    unfolding parseUnary_def using assms(1) by (intro yields_miss [of "{tk_kind t}"]) auto
  then show "yields p_unary ((t # ts) @ r) e r" by (simp add: yields_methods)
qed

lemma primary_literal:
  assumes "tk_kind t = Lit l"
    and "case l of LIT_INTEGER \<Rightarrow> \<exists>i. intValue t = Inr i \<and> v = VI64 i
       | LIT_FLOAT \<Rightarrow> \<exists>x. floatValue t = Inr x \<and> v = VF64 x
       | LIT_STRING \<Rightarrow> \<exists>x. stringValue t = Inr x \<and> v = VStr x
       | LIT_TRUE \<Rightarrow> v = VBool True | LIT_FALSE \<Rightarrow> v = VBool False | LIT_NULL \<Rightarrow> v = VNull"
  shows "parsed 10 (Literal v) [t]"
  by (rule parsed_primary)
    (use assms in \<open>auto simp: yields_def parsePrimary_def Let_def pbind_def plift_def pret_def next_token_def
       tok_advance_def at_end_def split: lit_kind.splits\<close>)

text \<open>A token behind which a method goes on.\<close>

lemma primary_name:
  assumes "tk_kind t = IDENT" "yields (\<lambda>P. parseName P (lexeme t) (tk_loc t)) ts e us"
  shows "yields parsePrimary (t # ts) e us"
  by (rule yields_eq, rule yields_bind, rule yields_next, use assms(1) in simp, rule assms(2))
    (use assms(1) in \<open>simp add: parsePrimary_def Let_def\<close>)

lemma primary_case:
  assumes "tk_kind t = CaseWord KW_CASE" "yields parseCase ts e us"
  shows "yields parsePrimary (t # ts) e us"
  by (rule yields_eq, rule yields_bind, rule yields_next, use assms(1) in simp, rule assms(2))
    (use assms(1) in \<open>simp add: parsePrimary_def Let_def\<close>)

lemma primary_paren:
  assumes "tk_kind t = Punct LPAREN" "yields parseParen ts e us"
  shows "yields parsePrimary (t # ts) e us"
  by (rule yields_eq, rule yields_bind, rule yields_next, use assms(1) in simp, rule assms(2))
    (use assms(1) in \<open>simp add: parsePrimary_def Let_def\<close>)

lemma parsed_name:
  assumes "tk_kind t = IDENT" "\<And>r. closes 9 r \<Longrightarrow> yields (\<lambda>P. parseName P (lexeme t) (tk_loc t)) (ts @ r) e r"
  shows "parsed 10 e (t # ts)"
  by (rule parsed_primary) (use assms in \<open>auto intro: primary_name\<close>)

lemma parsed_column: "tk_kind n = IDENT \<Longrightarrow> parsed 10 (ColumnRef None None (lexeme n)) [n]"
proof (rule parsed_name)
  fix r
  assume "closes 9 r"
  then have "starts (- {Punct LPAREN, Punct DOT}) r" by (simp add: closes_def)
  then show "yields (\<lambda>P. parseName P (lexeme n) (tk_loc n)) ([] @ r) (ColumnRef None None (lexeme n)) r"
    unfolding parseName_def by (auto intro!: yields_uncheck yields_miss yields_pret)
qed

text \<open>\<open>parseName\<close> behind the first dot.\<close>

abbreviation qualified_rest :: "string \<Rightarrow> expr parser" where
  "qualified_rest n \<equiv> on_match (Op OP_STAR) (pret (ColumnRef None (Some n) ''*''))
     (pbind (name_of (''column name after '' @ quoted ''.''))  (\<lambda>second.
        on_match (Punct DOT)
          (pbind (name_of (''column name after '' @ quoted ''.'')) (\<lambda>third. pret (ColumnRef (Some n) (Some second) third)))
          (pret (ColumnRef None (Some n) second))))"

lemma parsed_qualified:
  assumes "tk_kind q = IDENT" "tk_kind d = Punct DOT"
    and "\<And>r. closes 9 r \<Longrightarrow> yields (\<lambda>_. qualified_rest (lexeme q)) (ts @ r) e r"
  shows "parsed 10 e (q # d # ts)"
proof (rule parsed_name [OF assms(1)])
  fix r
  assume "closes 9 r"
  from yields_hit [OF assms(2) _ assms(3) [OF this]]
  have "yields (\<lambda>P. parseName P (lexeme q) (tk_loc q)) (d # ts @ r) e r"
    using assms(2) unfolding parseName_def by (auto intro!: yields_uncheck [of "{Punct DOT}"])
  then show "yields (\<lambda>P. parseName P (lexeme q) (tk_loc q)) ((d # ts) @ r) e r" by simp
qed

lemma parsed_all_columns:
  assumes "tk_kind q = IDENT" "tk_kind d = Punct DOT" "tk_kind n = Op OP_STAR"
  shows "parsed 10 (ColumnRef None (Some (lexeme q)) ''*'') [q, d, n]"
  by (rule parsed_qualified [OF assms(1,2)]) (simp, rule yields_hit [OF assms(3)], simp, rule yields_pret)

lemma parsed_column2:
  assumes "tk_kind q = IDENT" "tk_kind d = Punct DOT" "tk_kind n = IDENT"
  shows "parsed 10 (ColumnRef None (Some (lexeme q)) (lexeme n)) [q, d, n]"
proof (rule parsed_qualified [OF assms(1,2)])
  fix r
  assume "closes 9 r"
  then have r: "starts (- {Punct LPAREN, Punct DOT}) r" by (simp add: closes_def)
  have "yields (\<lambda>_. qualified_rest (lexeme q)) (n # r) (ColumnRef None (Some (lexeme q)) (lexeme n)) r"
    by (rule yields_miss [of "{IDENT}"], use assms(3) in simp, simp, rule yields_bind, rule yields_name [OF assms(3)])
      (rule yields_miss [OF r], simp, rule yields_pret)
  then show "yields (\<lambda>_. qualified_rest (lexeme q)) ([n] @ r) (ColumnRef None (Some (lexeme q)) (lexeme n)) r" by simp
qed

lemma parsed_column3:
  assumes "tk_kind p = IDENT" "tk_kind c = Punct DOT" "tk_kind q = IDENT" "tk_kind d = Punct DOT" "tk_kind n = IDENT"
  shows "parsed 10 (ColumnRef (Some (lexeme p)) (Some (lexeme q)) (lexeme n)) [p, c, q, d, n]"
proof (rule parsed_qualified [OF assms(1,2)])
  fix r
  have "yields (\<lambda>_. qualified_rest (lexeme p)) (q # d # n # r)
      (ColumnRef (Some (lexeme p)) (Some (lexeme q)) (lexeme n)) r"
    by (rule yields_miss [of "{IDENT}"], use assms(3) in simp, simp, rule yields_bind, rule yields_name [OF assms(3)])
      (rule yields_hit [OF assms(4)], simp, rule yields_bind, rule yields_name [OF assms(5)], rule yields_pret)
  then show "yields (\<lambda>_. qualified_rest (lexeme p)) ([q, d, n] @ r)
      (ColumnRef (Some (lexeme p)) (Some (lexeme q)) (lexeme n)) r" by simp
qed

lemma parsed_call:
  assumes f: "tk_kind f = IDENT" and l: "tk_kind l = Punct LPAREN" and d: "word (Clause KW_DISTINCT) b ds"
    and r: "tk_kind r = Punct RPAREN" and ts: "starts (- {Clause KW_DISTINCT}) (ts @ [r])"
    and args: "\<And>q. yields (\<lambda>P. on_match (Op OP_STAR) (pret (True, [])) (pbind (parseArgs P) (\<lambda>es. pret (False, es))))
      (ts @ r # q) (star, args) (r # q)"
  shows "parsed 10 (FunctionCall (map toupper (lexeme f)) args b star (tk_loc f)) (f # l # ds @ ts @ [r])"
proof (rule parsed_name [OF f])
  fix q
  let ?call = "FunctionCall (map toupper (lexeme f)) args b star (tk_loc f)"
  from starts_append [OF ts] have "starts (- {Clause KW_DISTINCT}) (ts @ r # q)" by simp
  then have m: "yields (\<lambda>_. tok_match (Clause KW_DISTINCT)) (ds @ ts @ r # q) b (ts @ r # q)"
    using d by (cases b) (auto simp: word_def intro: yields_match_hit yields_match_miss)
  have "yields (\<lambda>P. parseFunctionCall P (lexeme f) (tk_loc f)) (l # ds @ ts @ r # q) ?call q"
    unfolding parseFunctionCall_def
    by (rule yields_bind, rule yields_expect [OF l], simp, rule yields_bind, rule m, rule yields_bind, rule args)
      (simp, rule yields_bind, rule yields_expect [OF r], simp, rule yields_pret)
  then have "yields (\<lambda>P. parseName P (lexeme f) (tk_loc f)) (l # ds @ ts @ r # q) ?call q"
    unfolding parseName_def by (rule yields_check [OF l])
  then show "yields (\<lambda>P. parseName P (lexeme f) (tk_loc f)) ((l # ds @ ts @ [r]) @ q) ?call q" by simp
qed

lemma parsed_call_star:
  assumes "tk_kind f = IDENT" "tk_kind l = Punct LPAREN" "word (Clause KW_DISTINCT) b ds" "tk_kind t = Op OP_STAR"
    and "tk_kind r = Punct RPAREN"
  shows "parsed 10 (FunctionCall (map toupper (lexeme f)) [] b True (tk_loc f)) (f # l # ds @ [t, r])"
  using parsed_call [OF assms(1-3,5), of "[t]" True "[]"] assms(4)
  by (simp add: yields_hit yields_pret)

lemma parsed_call_args:
  assumes "tk_kind f = IDENT" "tk_kind l = Punct LPAREN" "word (Clause KW_DISTINCT) b ds" "tk_kind r = Punct RPAREN"
    and ts: "starts (- ({Op OP_STAR} \<union> range Clause)) (ts @ [r])"
    and args: "\<And>q. yields parseArgs (ts @ r # q) es (r # q)"
  shows "parsed 10 (FunctionCall (map toupper (lexeme f)) es b False (tk_loc f)) (f # l # ds @ ts @ [r])"
proof (rule parsed_call [OF assms(1-4)])
  from ts show "starts (- {Clause KW_DISTINCT}) (ts @ [r])" by (rule starts_mono) blast
  fix q
  from starts_append [OF ts, of q] have "starts (- ({Op OP_STAR} \<union> range Clause)) (ts @ r # q)" by simp
  then show "yields (\<lambda>P. on_match (Op OP_STAR) (pret (True, [])) (pbind (parseArgs P) (\<lambda>es. pret (False, es))))
      (ts @ r # q) (False, es) (r # q)"
    by (rule yields_miss) (simp, rule yields_bind, rule args, rule yields_pret)
qed

lemma arguments_start: "separated expression es ts \<Longrightarrow> starts first_words ts"
  by (erule separated_starts) (simp add: phrased_def)

lemma in_values:
  assumes "separated expression es ts" "tk_kind t = Punct RPAREN"
  shows "yields (\<lambda>P. on_check (Clause KW_SELECT) (pbind (p_select P) (\<lambda>s. pret (InSelect s)))
          (pbind (parseArgs P) (\<lambda>es. pret (InList es)))) (ts @ t # r) (InList es) (t # r)"
  by (rule yields_uncheck [OF starts_append [OF arguments_start [OF assms(1)]]])
    (simp add: first_words_def, rule yields_bind, rule yields_arguments [OF assms], rule yields_pret)

lemma in_no_values:
  assumes "tk_kind t = Punct RPAREN"
  shows "yields (\<lambda>P. on_check (Clause KW_SELECT) (pbind (p_select P) (\<lambda>s. pret (InSelect s)))
          (pbind (parseArgs P) (\<lambda>es. pret (InList es)))) (t # r) (InList []) (t # r)"
  by (rule yields_uncheck [of "{Punct RPAREN}"])
    (use assms in simp, simp, rule yields_bind, rule yields_no_arguments [OF assms], rule yields_pret)

lemma yields_branches:
  assumes "branches expression ws ts" "starts K r" "CaseWord KW_WHEN \<notin> K" "K \<subseteq> expr_enders"
  shows "yields p_whens (ts @ r) ws r \<and> starts (insert (CaseWord KW_WHEN) K) (ts @ r)"
  using assms(1)
proof (induction rule: branches.induct)
  case branches_none
  show ?case
    using assms by (auto intro!: yields_methods yields_miss yields_pret elim: starts_mono simp: parseWhens_def [abs_def])
next
  case (branches_more w c cs t e es ws us)
  then have "starts expr_enders (us @ r)" using assms(4) by (auto elim!: starts_mono)
  then have "yields p_whens (w # cs @ t # es @ us @ r) ((c, e) # ws) r"
    using branches_more
    by (intro yields_methods, unfold parseWhens_def)
      (rule yields_hit, assumption, simp, rule yields_bind, rule expression_yields, assumption, simp,
       rule yields_bind, rule yields_expect, assumption, simp, rule yields_bind, rule expression_yields, assumption, assumption,
       rule yields_bind, erule conjunct1, rule yields_pret)
  with branches_more(1) show ?case by simp
qed

lemma parsed_case:
  assumes t: "tk_kind t = CaseWord KW_CASE" and subject: "possibly expression subject ts"
    and ws: "branches expression ws us" "ws \<noteq> []"
    and els: "clause (CaseWord KW_ELSE) expression els vs" and r: "tk_kind r = CaseWord KW_END"
  shows "parsed 10 (CaseExpr subject ws els) (t # ts @ us @ vs @ [r])"
proof (rule parsed_primary)
  fix q
  have e: "starts {CaseWord KW_ELSE, CaseWord KW_END} (vs @ r # q)"
    using clause_starts [OF els, of "{CaseWord KW_END}" "r # q"] r by simp
  note w = yields_branches [OF ws(1) e]
  have "\<exists>w us'. us = w # us' \<and> tk_kind w = CaseWord KW_WHEN" using ws by (auto elim: branches.cases)
  then have first: "starts {CaseWord KW_WHEN} (us @ vs @ r # q)" by auto
  have s: "yields (\<lambda>P. on_check (CaseWord KW_WHEN) (pret None) (pbind (parseExpression P) (\<lambda>e. pret (Some e))))
      (ts @ us @ vs @ r # q) subject (us @ vs @ r # q)"
  proof (cases subject)
    case None
    with subject first show ?thesis
      by (auto simp: possibly_def elim!: startsE intro!: yields_check yields_pret)
  next
    case (Some x)
    with subject have x: "expression x ts" by (simp add: possibly_def)
    have "starts first_words (ts @ us @ vs @ r # q)"
      using x by (intro starts_append) (simp add: phrased_def)
    then show ?thesis
      unfolding Some
      by (rule yields_uncheck) (simp add: first_words_def, rule yields_bind, rule expression_yields [OF x],
          use first in \<open>auto elim: starts_mono\<close>, rule yields_pret)
  qed
  have o: "yields (\<lambda>P. optional (CaseWord KW_ELSE) (parseExpression P)) (vs @ r # q) els (r # q)"
    by (rule yields_optional [OF els, where K = "{CaseWord KW_END}"]) (use r in \<open>auto intro: expression_yields\<close>)
  have w': "yields p_whens (us @ vs @ r # q) ws (vs @ r # q)" using w by auto
  have "yields (\<lambda>P. pbind (optional (CaseWord KW_ELSE) (parseExpression P)) (\<lambda>els.
      pbind (expect (CaseWord KW_END) ''END to close CASE'') (\<lambda>_. pret (CaseExpr subject ws els)))) (vs @ r # q)
      (CaseExpr subject ws els) q"
    by (rule yields_bind, rule o, rule yields_bind, rule yields_expect [OF r], simp, rule yields_pret)
  then have "yields parseCase (ts @ us @ vs @ r # q) (CaseExpr subject ws els) q"
    unfolding parseCase_def
    by (intro yields_bind [OF s] yields_bind [OF w']) (use ws(2) in simp)
  with t show "yields parsePrimary (t # (ts @ us @ vs @ [r]) @ q) (CaseExpr subject ws els) q"
    by (simp add: primary_case)
qed (use t in simp)

lemma parsed_parens:
  assumes l: "tk_kind l = Punct LPAREN" and e: "expression e ts" and r: "tk_kind r = Punct RPAREN"
  shows "parsed 10 e (l # ts @ [r])"
proof (rule parsed_primary)
  fix q
  have "starts first_words (ts @ r # q)" using e by (intro starts_append) (simp add: phrased_def)
  then have "yields parseParen (ts @ r # q) e q"
    unfolding parseParen_def
    by (rule yields_uncheck) (simp add: first_words_def, rule yields_bind, rule expression_yields [OF e],
        use r in simp, rule yields_bind, rule yields_expect [OF r], simp, rule yields_pret)
  with l show "yields parsePrimary (l # (ts @ [r]) @ q) e q" by (simp add: primary_paren)
qed (use l in simp)

subsection \<open>The parts of a SELECT\<close>

definition query_enders :: "token_kind set" where
  "query_enders = {Punct RPAREN, Punct SEMICOLON, END_OF_FILE}"

definition list_enders :: "token_kind set" where
  "list_enders = {Punct COMMA} \<union> query_enders \<union> (range Clause - {Clause KW_AS})"

definition table_enders :: "token_kind set" where
  "table_enders = list_enders \<union> range JoinWord"

lemmas ender_defs = query_enders_def list_enders_def table_enders_def

lemma enders_expr: "query_enders \<subseteq> expr_enders" "list_enders \<subseteq> expr_enders" "table_enders \<subseteq> expr_enders"
  by (auto simp: ender_defs)

lemma list_enders_expr: "starts list_enders r \<Longrightarrow> starts expr_enders r"
  by (rule starts_mono [OF _ enders_expr(2)])

definition queried :: "select_stmt \<Rightarrow> token list \<Rightarrow> bool" where
  "queried s ts = (starts {Clause KW_SELECT} ts \<and> (\<forall>r. starts query_enders r \<longrightarrow> yields p_select (ts @ r) s r))"

lemma queried_yields: "queried s ts \<Longrightarrow> starts query_enders r \<Longrightarrow> yields p_select (ts @ r) s r"
  by (simp add: queried_def)

lemma item_yields:
  assumes "item expression i ts" "starts list_enders r"
  shows "yields selectItem (ts @ r) i r"
  using assms(1)
proof (cases rule: item.cases)
  case (item_star t)
  then show ?thesis
    unfolding selectItem_def by simp (rule yields_hit, assumption, simp, rule yields_pret)
next
  case (item_plain e)
  have "starts first_words (ts @ r)" using item_plain by (intro starts_append) (simp add: phrased_def)
  then show ?thesis
    unfolding selectItem_def item_plain(1)
    by (rule yields_miss) (simp add: first_words_def, rule yields_bind,
        rule expression_yields [OF item_plain(2) list_enders_expr [OF assms(2)]],
        rule yields_miss [OF assms(2)], force simp: ender_defs, rule yields_uncheck [OF assms(2)], force simp: ender_defs, rule yields_pret)
next
  case (item_named e es n b as)
  have start: "starts first_words (es @ as @ n # r)" using item_named by (intro starts_append) (simp add: phrased_def)
  have "starts expr_enders (as @ n # r)" using item_named by (cases b) (auto simp: word_def)
  note e = expression_yields [OF item_named(3) this]
  have "yields (\<lambda>P. on_match (Clause KW_AS) (pbind (name_of ''alias after AS'') (\<lambda>a. pret (e, Some a)))
      (on_check IDENT (pbind next_token (\<lambda>t. pret (e, Some (lexeme t)))) (pret (e, None)))) (as @ n # r) (e, Some (lexeme n)) r"
  proof (cases b)
    case True
    with item_named(5) obtain a where a: "as = [a]" "tk_kind a = Clause KW_AS" by (auto simp: word_def)
    show ?thesis
      unfolding a append_Cons append_Nil
      by (rule yields_hit [OF a(2)], simp, rule yields_bind, rule yields_name [OF item_named(4)], rule yields_pret)
  next
    case False
    with item_named(5) have "as = []" by (simp add: word_def)
    then show ?thesis
      using item_named(4)
      by simp (rule yields_miss [of "{IDENT}"], simp, simp, rule yields_check, assumption, rule yields_bind, rule yields_next,
          simp, rule yields_pret)
  qed
  with e have "yields (\<lambda>P. pbind (parseExpression P) (\<lambda>e. on_match (Clause KW_AS) (pbind (name_of ''alias after AS'') (\<lambda>a. pret (e, Some a)))
      (on_check IDENT (pbind next_token (\<lambda>t. pret (e, Some (lexeme t)))) (pret (e, None))))) (es @ as @ n # r) (e, Some (lexeme n)) r"
    by (rule yields_bind)
  then have "yields selectItem (es @ as @ n # r) (e, Some (lexeme n)) r"
    unfolding selectItem_def by (rule yields_miss [OF start, rotated]) (simp add: first_words_def)
  with item_named show ?thesis by simp
qed

lemma key_yields:
  assumes "key expression k ts" "starts list_enders r"
  shows "yields sortKey (ts @ r) k r"
  using assms(1)
proof (cases rule: key.cases)
  case (key e es ord os n ns)
  have nul: "starts (insert (SortWord KW_NULLS) list_enders) (ns @ r)"
    using key(5) assms(2) by (auto simp: nulls_words_def after_def starts_def split: nulls_order.splits)
  have ord: "starts ({SortWord KW_ASC, SortWord KW_DESC, SortWord KW_NULLS} \<union> list_enders) (os @ ns @ r)"
    using key(4) nul by (auto simp: order_word_def word_def starts_def split: sort_order.splits if_splits)
  have e: "yields parseExpression (es @ os @ ns @ r) e (os @ ns @ r)"
    by (rule expression_yields [OF key(3) starts_mono [OF ord]]) (use enders_expr in auto)
  have o: "yields (\<lambda>_. on_match (SortWord KW_ASC) (pret ASC) (on_match (SortWord KW_DESC) (pret DESC) (pret ASC)))
      (os @ ns @ r) ord (ns @ r)"
  proof (cases "os = []")
    case True
    with key(4) have "ord = ASC" by (auto simp: order_word_def word_def split: sort_order.splits)
    with True nul show ?thesis
      by (auto intro!: yields_miss [OF nul] yields_pret simp: ender_defs)
  next
    case False
    with key(4) obtain t where t: "os = [t]" "ord = ASC \<and> tk_kind t = SortWord KW_ASC \<or> ord = DESC \<and> tk_kind t = SortWord KW_DESC"
      by (auto simp: order_word_def word_def split: sort_order.splits if_splits)
    from t(2) show ?thesis
    proof (elim disjE conjE)
      assume "ord = DESC" "tk_kind t = SortWord KW_DESC"
      with t(1) show ?thesis
        by simp (rule yields_miss [of "{SortWord KW_DESC}"], simp, simp, rule yields_hit, assumption, simp, rule yields_pret)
    qed (use t(1) in \<open>simp add: yields_hit yields_pret\<close>)
  qed
  have n: "yields (\<lambda>_. on_match (SortWord KW_NULLS)
              (on_match (SortWord KW_FIRST) (pret NULLS_FIRST)
                (on_match (SortWord KW_LAST) (pret NULLS_LAST)
                  (parse_error ''expected FIRST or LAST after NULLS'')))
              (pret UNSPECIFIED)) (ns @ r) n r"
  proof (cases "ns = []")
    case True
    with key(5) have "n = UNSPECIFIED" by (auto simp: nulls_words_def after_def split: nulls_order.splits)
    with True show ?thesis by (auto intro!: yields_miss [OF assms(2)] yields_pret simp: ender_defs)
  next
    case False
    with key(5) obtain t u where t: "ns = [t, u]" "tk_kind t = SortWord KW_NULLS"
      and u: "n = NULLS_FIRST \<and> tk_kind u = SortWord KW_FIRST \<or> n = NULLS_LAST \<and> tk_kind u = SortWord KW_LAST"
      by (auto simp: nulls_words_def after_def word_def split: nulls_order.splits)
    from u have "yields (\<lambda>_. on_match (SortWord KW_FIRST) (pret NULLS_FIRST) (on_match (SortWord KW_LAST) (pret NULLS_LAST)
        (parse_error ''expected FIRST or LAST after NULLS''))) (u # r) n r"
    proof (elim disjE conjE)
      assume "n = NULLS_LAST" "tk_kind u = SortWord KW_LAST"
      then show ?thesis
        by simp (rule yields_miss [of "{SortWord KW_LAST}"], simp, simp, rule yields_hit, assumption, simp, rule yields_pret)
    qed (simp add: yields_hit yields_pret)
    with t show ?thesis by (simp add: yields_hit)
  qed
  have "yields sortKey (es @ os @ ns @ r) (SortKey e ord n) r"
    unfolding sortKey_def
    by (rule yields_bind, rule e, rule yields_bind, rule o, rule yields_bind, rule n, rule yields_pret)
  with key show ?thesis by simp
qed

lemma limit_yields:
  assumes "limit expression l ts" "starts (list_enders - {Clause KW_OFFSET}) r"
  shows "yields limitClause (ts @ r) l r"
  using assms(1)
proof (cases rule: limit.cases)
  case (limit e es off os)
  have r: "starts expr_enders r" using assms(2) enders_expr(2) by (auto elim: starts_mono)
  have o: "yields (\<lambda>P. optional (Clause KW_OFFSET) (parseExpression P)) (os @ r) off r"
    by (rule yields_optional [OF limit(4) _ _ assms(2)]) (use r in \<open>auto intro: expression_yields\<close>)
  have "starts (insert (Clause KW_OFFSET) expr_enders) (os @ r)" by (rule clause_starts [OF limit(4) r])
  then have e: "yields parseExpression (es @ os @ r) e (os @ r)"
    by (intro expression_yields [OF limit(3)]) (simp add: insert_absorb)
  have "yields limitClause (es @ os @ r) (Some e, off) r"
    unfolding limitClause_def by (rule yields_bind, rule e, rule yields_bind, rule o, rule yields_pret)
  with limit show ?thesis by simp
qed

lemma tail_yields:
  assumes "tail queried t ts" "starts query_enders r"
  shows "yields setOpTail (ts @ r) t r"
  using assms(1)
proof (cases rule: tail.cases)
  case (tail b as s us)
  have q: "yields p_select (us @ r) s r" by (rule queried_yields [OF tail(4) assms(2)])
  have "starts {Clause KW_SELECT} (us @ r)" using tail(4) by (intro starts_append) (simp add: queried_def)
  then have a: "yields (\<lambda>_. tok_match (Clause KW_ALL)) (as @ us @ r) b (us @ r)"
    using tail(3) by (cases b) (auto simp: word_def intro: yields_match_hit yields_match_miss)
  have "yields setOpTail (as @ us @ r) t r"
    unfolding setOpTail_def tail(1) by (rule yields_bind, rule a, rule yields_bind, rule q, rule yields_pret)
  with tail show ?thesis by simp
qed

subsection \<open>Tables\<close>

lemma base_yields:
  assumes "base queried ref ts" "starts (- {Punct DOT}) r"
  shows "yields (\<lambda>P. on_match (Punct LPAREN)
              (pbind (p_select P) (\<lambda>s. pbind (expect (Punct RPAREN) '') to close subquery'') (\<lambda>_. pret (SubqueryRef s))))
              (pbind (name_of ''table name'') (\<lambda>first.
                 on_match (Punct DOT)
                   (pbind (name_of (''table name after '' @ quoted ''.'')) (\<lambda>n. pret (TableRef (Some first) n)))
                   (pret (TableRef None first))))) (ts @ r) ref r"
  using assms(1)
proof (cases rule: base.cases)
  case (base_name n)
  show ?thesis
    unfolding base_name(1,2)
    by (rule yields_miss [of "{IDENT}"], simp add: base_name, simp, simp, rule yields_bind, rule yields_name [OF base_name(3)])
      (rule yields_miss [OF assms(2)], simp, rule yields_pret)
next
  case (base_qualified q d n)
  show ?thesis
    unfolding base_qualified(1,2)
    by (rule yields_miss [of "{IDENT}"], simp add: base_qualified, simp, simp, rule yields_bind, rule yields_name [OF base_qualified(3)])
      (rule yields_hit [OF base_qualified(4)], simp, rule yields_bind, rule yields_name [OF base_qualified(5)], rule yields_pret)
next
  case (base_query l s us e)
  have "yields p_select (us @ e # r) s (e # r)" using base_query by (intro queried_yields) (simp_all add: ender_defs)
  then have "yields (\<lambda>P. pbind (p_select P) (\<lambda>s. pbind (expect (Punct RPAREN) '') to close subquery'') (\<lambda>_. pret (SubqueryRef s))))
      (us @ e # r) (SubqueryRef s) r"
    by (rule yields_bind) (rule yields_bind, rule yields_expect [OF base_query(5)], simp, rule yields_pret)
  then show ?thesis unfolding base_query(1,2) by (simp add: yields_hit [OF base_query(3)])
qed

lemma source_yields:
  assumes "source queried ref ts" "starts table_enders r"
  shows "yields p_primaryRef (ts @ r) ref r"
  using assms(1)
proof (cases rule: source.cases)
  case source_plain
  have r: "starts (- {Punct DOT}) r" by (rule starts_mono [OF assms(2)]) (auto simp: ender_defs)
  have a: "yields (\<lambda>_. on_match (Clause KW_AS) (name_of ''alias after AS'')
      (on_check IDENT (pbind next_token (\<lambda>t. pret (lexeme t))) (pret []))) r [] r"
    by (rule yields_miss [OF assms(2)], force simp: ender_defs, rule yields_uncheck [OF assms(2)], force simp: ender_defs, rule yields_pret)
  show ?thesis
    by (rule yields_methods, unfold parsePrimaryTableRef_def, rule yields_bind, rule base_yields [OF source_plain r],
        rule yields_bind, rule a) (simp add: yields_pret)
next
  case (source_named ref' us b as n)
  have r: "starts (- {Punct DOT}) (as @ n # r)" using source_named by (auto simp: word_def split: if_splits)
  have a: "yields (\<lambda>_. on_match (Clause KW_AS) (name_of ''alias after AS'')
      (on_check IDENT (pbind next_token (\<lambda>t. pret (lexeme t))) (pret []))) (as @ n # r) (lexeme n) r"
  proof (cases b)
    case True
    with source_named(4) show ?thesis
      by (auto simp: word_def intro!: yields_hit yields_name source_named)
  next
    case False
    with source_named(4) have "as = []" by (simp add: word_def)
    then show ?thesis
      using source_named(5)
      by simp (rule yields_miss [of "{IDENT}"], simp, simp, rule yields_check, assumption, rule yields_bind, rule yields_next,
          simp, rule yields_pret)
  qed
  have "yields p_primaryRef (us @ as @ n # r) ref r"
    by (rule yields_methods, unfold parsePrimaryTableRef_def, rule yields_bind, rule base_yields [OF source_named(3) r],
        rule yields_bind, rule a) (simp add: source_named yields_pret)
  with source_named show ?thesis by simp
qed

definition joined_up :: "table_ref \<Rightarrow> token list \<Rightarrow> bool" where
  "joined_up r ts = (\<forall>q x us. starts table_enders q \<longrightarrow> yields (\<lambda>P. p_joins P r) q x us \<longrightarrow>
     yields (\<lambda>P. pbind (p_primaryRef P) (p_joins P)) (ts @ q) x us)"

lemma joined_one: "source queried r ts \<Longrightarrow> joined_up r ts"
  unfolding joined_up_def by (auto intro: yields_bind source_yields)

lemma yields_joinType:
  assumes "join_words ty (map tk_kind ws)"
  shows "yields (\<lambda>_. joinType) (ws @ ts) (Some ty) ts"
proof -
  obtain k ks where w: "map tk_kind ws = k # ks" using assms by (cases "map tk_kind ws") (auto simp: join_words_def split: join_type.splits)
  then show ?thesis
    using assms
    by (cases ty; cases "ws"; cases "tl ws"; cases "tl (tl ws)")
      (auto simp: join_words_def intro!: yields_const simp: joinType_def on_match_def pif_def tok_check_def pbind_def next_token_def
        tok_advance_def at_end_def expect_def tok_match_def pret_def)
qed

lemma joined_more:
  assumes l: "joined_up l ts" and ws: "join_words ty (map tk_kind ws)" and r: "source queried r us"
    and c: "possibly (after (JoinWord KW_ON) expression) c vs" "(c = None) = (ty = CROSS)"
  shows "joined_up (JoinRef ty l r c) (ts @ ws @ us @ vs)"
  unfolding joined_up_def
proof (intro allI impI)
  fix q x xs
  assume q: "starts table_enders q" and rest: "yields (\<lambda>P. p_joins P (JoinRef ty l r c)) q x xs"
  have v: "starts table_enders (vs @ q)"
    using clause_starts [OF c(1) q] by (simp add: ender_defs insert_absorb)
  have cond: "yields (\<lambda>P. if ty \<noteq> CROSS then pbind (expect (JoinWord KW_ON) ''ON after JOIN'') (\<lambda>_.
      pbind (parseExpression P) (\<lambda>c. pret (Some c))) else pret None) (vs @ q) c q"
  proof (cases c)
    case None
    with c show ?thesis by (simp add: possibly_def yields_pret)
  next
    case (Some e)
    with c obtain t us where t: "vs = t # us" "tk_kind t = JoinWord KW_ON" "expression e us" "ty \<noteq> CROSS"
      by (auto simp: possibly_def after_def)
    have "yields parseExpression (us @ q) e q"
      by (rule expression_yields [OF t(3) starts_mono [OF q enders_expr(3)]])
    then have "yields (\<lambda>P. pbind (expect (JoinWord KW_ON) ''ON after JOIN'') (\<lambda>_.
      pbind (parseExpression P) (\<lambda>c. pret (Some c)))) (t # us @ q) (Some e) q"
      by (intro yields_bind [OF yields_expect [OF t(2)]]) (simp, rule yields_bind, assumption, rule yields_pret)
    with t Some show ?thesis by simp
  qed
  have "yields (\<lambda>P. p_joins P l) (ws @ us @ vs @ q) x xs"
    by (rule yields_methods, unfold parseJoinChain_def, rule yields_bind, rule yields_joinType [OF ws])
      (simp, rule yields_bind, rule source_yields [OF r v], rule yields_bind, rule cond [simplified], rule rest)
  moreover have "starts table_enders (ws @ us @ vs @ q)"
    using ws by (cases ws) (auto simp: join_words_def ender_defs split: join_type.splits)
  ultimately show "yields (\<lambda>P. pbind (p_primaryRef P) (p_joins P)) ((ts @ ws @ us @ vs) @ q) x xs"
    using l by (simp add: joined_up_def)
qed

lemma table_yields:
  assumes "joined_up ref ts" "starts list_enders r"
  shows "yields parseTableRef (ts @ r) ref r"
proof -
  have "yields (\<lambda>_. joinType) r None r"
    unfolding joinType_def by (intro yields_miss [OF assms(2)] yields_pret) (auto simp: ender_defs)
  then have "yields (\<lambda>P. p_joins P ref) r ref r"
    by (intro yields_methods, unfold parseJoinChain_def) (rule yields_bind, assumption, simp add: yields_pret)
  moreover have "starts table_enders r" using assms(2) by (auto elim: starts_mono simp: table_enders_def)
  ultimately show ?thesis using assms(1) by (simp add: joined_up_def parseTableRef_def [abs_def])
qed

subsection \<open>SELECT\<close>

lemma list_yields:
  assumes "separated R xs ts" "\<And>x ts r. R x ts \<Longrightarrow> starts list_enders r \<Longrightarrow> yields p (ts @ r) x r"
    and "\<And>ts xs us. yields (\<lambda>P. do_list (p P) (q P)) ts xs us \<Longrightarrow> yields q ts xs us"
    and "starts (list_enders - {Punct COMMA}) r"
  shows "yields q (ts @ r) xs r"
  by (rule yields_do_list [OF assms(1), of "starts list_enders" p q r "list_enders - {Punct COMMA}"])
    (use assms in \<open>auto simp: ender_defs elim: starts_mono\<close>)

lemma items_yields:
  "separated (item expression) is ts \<Longrightarrow> starts (list_enders - {Punct COMMA}) r \<Longrightarrow> yields p_items (ts @ r) is r"
  by (rule list_yields, assumption, rule item_yields, assumption, assumption)
    (simp_all add: yields_methods parseSelectList_def [abs_def])

lemma keys_yields:
  "separated (key expression) ks ts \<Longrightarrow> starts (list_enders - {Punct COMMA}) r \<Longrightarrow> yields p_keys (ts @ r) ks r"
  by (rule list_yields, assumption, rule key_yields, assumption, assumption)
    (simp_all add: yields_methods parseOrderBy_def [abs_def])

lemma group_yields:
  "separated expression es ts \<Longrightarrow> starts (list_enders - {Punct COMMA}) r \<Longrightarrow> yields p_exprs (ts @ r) es r"
  by (rule list_yields, assumption, rule expression_yields, assumption, erule list_enders_expr)
    (simp_all add: yields_methods parseExprs_def [abs_def])

lemma tables_yields:
  "separated joined_up rs ts \<Longrightarrow> starts (list_enders - {Punct COMMA}) r \<Longrightarrow> yields p_tables (ts @ r) rs r"
  by (rule list_yields, assumption, rule table_yields, assumption, assumption)
    (simp_all add: yields_methods tableRefs_def [abs_def])

lemma yields_by:
  assumes "after (Clause KW_BY) R x ts" "\<And>us. R x us \<Longrightarrow> yields p (us @ r) x r"
  shows "yields (\<lambda>P. pbind (expect (Clause KW_BY) what) (\<lambda>_. p P)) (ts @ r) x r"
proof -
  from assms(1) obtain t us where t: "ts = t # us" "tk_kind t = Clause KW_BY" "R x us" by (auto simp: after_def)
  have "yields (\<lambda>P. pbind (expect (Clause KW_BY) what) (\<lambda>_. p P)) (t # us @ r) x r"
    by (rule yields_bind, rule yields_expect [OF t(2)], simp, rule assms(2) [OF t(3)])
  with t show ?thesis by simp
qed

lemma yields_from:
  assumes "clause (Clause KW_FROM) (separated joined_up) f ts" "starts (list_enders - {Punct COMMA, Clause KW_FROM}) r"
  shows "yields (\<lambda>P. on_check (Clause KW_FROM) (pbind (parseFrom P) (\<lambda>f. pret (Some f))) (pret None)) (ts @ r) f r"
proof (cases f)
  case None
  with assms show ?thesis by (auto simp: possibly_def intro: yields_uncheck [OF assms(2)] yields_pret)
next
  case (Some rs)
  with assms(1) obtain t us where t: "ts = t # us" "tk_kind t = Clause KW_FROM" "separated joined_up rs us"
    by (auto simp: possibly_def after_def)
  have "yields p_tables (us @ r) rs r" by (rule tables_yields [OF t(3) starts_mono [OF assms(2)]]) blast
  then have "yields parseFrom (t # us @ r) rs r"
    unfolding parseFrom_def by (rule yields_bind [OF yields_expect [OF t(2)], rotated]) simp
  then have "yields (\<lambda>P. pbind (parseFrom P) (\<lambda>f. pret (Some f))) (t # us @ r) (Some rs) r"
    by (rule yields_bind) (rule yields_pret)
  with t Some show ?thesis by (simp add: yields_check)
qed

lemma queried_select:
  assumes t: "tk_kind t = Clause KW_SELECT"
    and d: "word (Clause KW_DISTINCT) b ds" "b \<Longrightarrow> as = []" "word (Clause KW_ALL) a as"
    and items: "separated (item expression) items is"
    and frm: "clause (Clause KW_FROM) (separated joined_up) frm fs"
    and wh: "clause (Clause KW_WHERE) expression wh ws"
    and gr: "clause (Clause KW_GROUP) (after (Clause KW_BY) (separated expression)) gr gs"
    and hav: "clause (Clause KW_HAVING) expression hav hs"
    and ord: "clause (Clause KW_ORDER) (after (Clause KW_BY) (separated (key expression))) ord os"
    and lim: "clause (Clause KW_LIMIT) (limit expression) lim ls"
    and set: "clause (Clause KW_UNION) (tail queried) setop us"
  shows "queried (SelectStmt b items frm wh gr hav ord lim setop) (t # ds @ as @ is @ fs @ ws @ gs @ hs @ os @ ls @ us)"
  unfolding queried_def
proof (intro conjI allI impI)
  fix r
  assume r: "starts query_enders r"
  note s1 = clause_starts [OF set r]
  note s2 = clause_starts [OF lim s1]
  note s3 = clause_starts [OF ord s2]
  note s4 = clause_starts [OF hav s3]
  note s5 = clause_starts [OF gr s4]
  note s6 = clause_starts [OF wh s5]
  note s7 = clause_starts [OF frm s6]
  have u: "yields (\<lambda>P. optional (Clause KW_UNION) (setOpTail P)) (us @ r) setop r"
    by (rule yields_optional [OF set _ tail_yields r]) (use r in \<open>auto simp: ender_defs\<close>)
  have l: "yields (\<lambda>P. optional (Clause KW_LIMIT) (limitClause P)) (ls @ us @ r) lim (us @ r)"
    by (rule yields_optional [OF lim _ _ s1], simp, erule limit_yields, rule starts_mono [OF s1])
      (auto simp: ender_defs)
  have o: "yields (\<lambda>P. optional (Clause KW_ORDER) (pbind (expect (Clause KW_BY) ''BY after ORDER'') (\<lambda>_. p_keys P)))
      (os @ ls @ us @ r) ord (ls @ us @ r)"
    by (rule yields_optional [OF ord _ _ s2], simp, erule yields_by, erule keys_yields, rule starts_mono [OF s2])
      (auto simp: ender_defs)
  have h: "yields (\<lambda>P. optional (Clause KW_HAVING) (parseExpression P)) (hs @ os @ ls @ us @ r) hav (os @ ls @ us @ r)"
    by (rule yields_optional [OF hav _ _ s3], simp, erule expression_yields, rule starts_mono [OF s3])
      (auto simp: ender_defs)
  have g: "yields (\<lambda>P. optional (Clause KW_GROUP) (pbind (expect (Clause KW_BY) ''BY after GROUP'') (\<lambda>_. p_exprs P)))
      (gs @ hs @ os @ ls @ us @ r) gr (hs @ os @ ls @ us @ r)"
    by (rule yields_optional [OF gr _ _ s4], simp, erule yields_by, erule group_yields, rule starts_mono [OF s4])
      (auto simp: ender_defs)
  have w: "yields (\<lambda>P. optional (Clause KW_WHERE) (parseExpression P)) (ws @ gs @ hs @ os @ ls @ us @ r) wh (gs @ hs @ os @ ls @ us @ r)"
    by (rule yields_optional [OF wh _ _ s5], simp, erule expression_yields, rule starts_mono [OF s5])
      (auto simp: ender_defs)
  have f: "yields (\<lambda>P. on_check (Clause KW_FROM) (pbind (parseFrom P) (\<lambda>f. pret (Some f))) (pret None))
      (fs @ ws @ gs @ hs @ os @ ls @ us @ r) frm (ws @ gs @ hs @ os @ ls @ us @ r)"
    by (rule yields_from [OF frm starts_mono [OF s6]]) (auto simp: ender_defs)
  have i: "yields p_items (is @ fs @ ws @ gs @ hs @ os @ ls @ us @ r) items (fs @ ws @ gs @ hs @ os @ ls @ us @ r)"
    by (rule items_yields [OF items starts_mono [OF s7]]) (auto simp: ender_defs)
  have first: "starts (- {Clause KW_DISTINCT, Clause KW_ALL}) (is @ fs @ ws @ gs @ hs @ os @ ls @ us @ r)"
  proof (intro starts_append separated_starts [OF items])
    fix x ts
    assume "item expression x ts"
    then have "starts (insert (Op OP_STAR) first_words) ts"
      by (cases rule: item.cases) (auto simp: phrased_def starts_def)
    then show "starts (- {Clause KW_DISTINCT, Clause KW_ALL}) ts" by (rule starts_mono) (auto simp: first_words_def)
  qed
  have d': "yields (\<lambda>_. on_match (Clause KW_DISTINCT) (pret True) (pbind (tok_match (Clause KW_ALL)) (\<lambda>_. pret False)))
      (ds @ as @ is @ fs @ ws @ gs @ hs @ os @ ls @ us @ r) b (is @ fs @ ws @ gs @ hs @ os @ ls @ us @ r)"
  proof (cases b)
    case True
    with d show ?thesis by (auto simp: word_def intro!: yields_hit yields_pret)
  next
    case False
    have "yields (\<lambda>_. tok_match (Clause KW_ALL)) (as @ is @ fs @ ws @ gs @ hs @ os @ ls @ us @ r) a (is @ fs @ ws @ gs @ hs @ os @ ls @ us @ r)"
      using d(3) first by (cases a) (auto simp: word_def intro: yields_match_hit yields_match_miss)
    then have "yields (\<lambda>_. pbind (tok_match (Clause KW_ALL)) (\<lambda>_. pret False)) (as @ is @ fs @ ws @ gs @ hs @ os @ ls @ us @ r) False
        (is @ fs @ ws @ gs @ hs @ os @ ls @ us @ r)" by (rule yields_bind) (rule yields_pret)
    moreover have "starts (- {Clause KW_DISTINCT}) (as @ is @ fs @ ws @ gs @ hs @ os @ ls @ us @ r)"
      using d(3) starts_mono [OF first, of "- {Clause KW_DISTINCT}"] by (cases a) (auto simp: word_def)
    ultimately show ?thesis using d(1) False by (auto simp: word_def intro: yields_miss)
  qed
  have "yields parseSelect (t # ds @ as @ is @ fs @ ws @ gs @ hs @ os @ ls @ us @ r) (SelectStmt b items frm wh gr hav ord lim setop) r"
    unfolding parseSelect_def
    by (rule yields_bind, rule yields_expect [OF t], simp, rule yields_bind, rule d', rule yields_bind, rule i, rule yields_bind, rule f,
        rule yields_bind, rule w, rule yields_bind, rule g, rule yields_bind, rule h, rule yields_bind, rule o, rule yields_bind, rule l,
        rule yields_bind, rule u, rule yields_pret)
  then show "yields p_select ((t # ds @ as @ is @ fs @ ws @ gs @ hs @ os @ ls @ us) @ r) (SelectStmt b items frm wh gr hav ord lim setop) r"
    by (simp add: yields_methods)
qed (use t in simp)

subsection \<open>Everything that the grammar derives\<close>

lemma phrasedI: "parsed m e ts \<Longrightarrow> starts first_words ts \<Longrightarrow> phrased m e ts"
  by (simp add: phrased_def)

lemma phrased_parsed: "phrased m e ts \<Longrightarrow> parsed m e ts"
  by (simp add: phrased_def)

lemma phrased_starts: "phrased m e ts \<Longrightarrow> starts first_words (ts @ us)"
  by (simp add: phrased_def starts_append)

lemma first_word [simp]:
  "Constraint c \<in> first_words" "Lit l \<in> first_words" "IDENT \<in> first_words" "Punct LPAREN \<in> first_words"
  "CaseWord KW_CASE \<in> first_words" "Op OP_MINUS \<in> first_words" "Op OP_PLUS \<in> first_words"
  by (auto simp: first_words_def)

text \<open>A part over phrases is a part over what is known of phrases.\<close>

lemma both:
  "separated (\<lambda>x ts. A x ts \<and> B x ts) xs us \<Longrightarrow> separated B xs us"
  "branches (\<lambda>x ts. R x ts \<and> S x ts) ws us \<Longrightarrow> branches S ws us"
  "possibly (\<lambda>x ts. A x ts \<and> B x ts) y us \<Longrightarrow> possibly B y us"
  "clause k (\<lambda>x ts. A x ts \<and> B x ts) y us \<Longrightarrow> clause k B y us"
  "separated (item (\<lambda>x ts. E x ts \<and> F x ts)) is us \<Longrightarrow> separated (item F) is us"
  "clause k (separated (\<lambda>x ts. A x ts \<and> B x ts)) zs us \<Longrightarrow> clause k (separated B) zs us"
  "clause k (after l (separated (\<lambda>x ts. A x ts \<and> B x ts))) zs us \<Longrightarrow> clause k (after l (separated B)) zs us"
  "clause k (after l (separated (key (\<lambda>x ts. E x ts \<and> F x ts)))) ks us \<Longrightarrow> clause k (after l (separated (key F))) ks us"
  "clause k (limit (\<lambda>x ts. E x ts \<and> F x ts)) lim us \<Longrightarrow> clause k (limit F) lim us"
  "clause k (tail (\<lambda>x ts. G x ts \<and> H x ts)) t us \<Longrightarrow> clause k (tail H) t us"
  "source (\<lambda>x ts. G x ts \<and> H x ts) r us \<Longrightarrow> source H r us"
proof -
  show "separated (\<lambda>x ts. A x ts \<and> B x ts) xs us \<Longrightarrow> separated B xs us"
    by (rule separated_mono [THEN mp, rotated]) auto
  show "branches (\<lambda>x ts. R x ts \<and> S x ts) ws us \<Longrightarrow> branches S ws us"
    by (rule branches_mono [THEN mp, rotated]) auto
  show "possibly (\<lambda>x ts. A x ts \<and> B x ts) y us \<Longrightarrow> possibly B y us"
    by (rule possibly_mono [THEN mp, rotated]) auto
  show "clause k (\<lambda>x ts. A x ts \<and> B x ts) y us \<Longrightarrow> clause k B y us"
    by (erule possibly_mono [THEN mp, rotated], rule after_mono) auto
  show "separated (item (\<lambda>x ts. E x ts \<and> F x ts)) is us \<Longrightarrow> separated (item F) is us"
    by (erule separated_mono [THEN mp, rotated], rule part_mono) auto
  show "clause k (separated (\<lambda>x ts. A x ts \<and> B x ts)) zs us \<Longrightarrow> clause k (separated B) zs us"
    by (erule possibly_mono [THEN mp, rotated], intro after_mono separated_mono) auto
  show "clause k (after l (separated (\<lambda>x ts. A x ts \<and> B x ts))) zs us \<Longrightarrow> clause k (after l (separated B)) zs us"
    by (erule possibly_mono [THEN mp, rotated], intro after_mono separated_mono) auto
  show "clause k (after l (separated (key (\<lambda>x ts. E x ts \<and> F x ts)))) ks us \<Longrightarrow> clause k (after l (separated (key F))) ks us"
    by (erule possibly_mono [THEN mp, rotated], intro after_mono separated_mono part_mono) auto
  show "clause k (limit (\<lambda>x ts. E x ts \<and> F x ts)) lim us \<Longrightarrow> clause k (limit F) lim us"
    by (erule possibly_mono [THEN mp, rotated], intro after_mono part_mono) auto
  show "clause k (tail (\<lambda>x ts. G x ts \<and> H x ts)) t us \<Longrightarrow> clause k (tail H) t us"
    by (erule possibly_mono [THEN mp, rotated], intro after_mono part_mono) auto
  show "source (\<lambda>x ts. G x ts \<and> H x ts) r us \<Longrightarrow> source H r us"
    by (erule source_mono [THEN mp, rotated]) auto
qed

lemma phrased_lower: "phrased (Suc m) e ts \<Longrightarrow> phrased m e ts"
  by (auto simp: phrased_def intro: parsed_lower)

lemma phrased_le: "phrased n e ts \<Longrightarrow> m \<le> n \<Longrightarrow> phrased m e ts"
  by (induction n) (auto simp: le_Suc_eq dest: phrased_lower)

lemma derived:
  "phrase m e ts \<Longrightarrow> phrased m e ts"
  "query_of s ts' \<Longrightarrow> queried s ts'"
  "joined r ts'' \<Longrightarrow> joined_up r ts''"
proof (induction rule: phrase_query_of_joined.inducts)
  case (lower m e ts)
  then show ?case by (simp add: phrased_lower)
next
  case (operand e ts)
  then show ?case by (auto elim: phrased_le)
next
  case (postfix e ts)
  then show ?case by (auto elim: phrased_le)
next
  case (left_assoc p t f l ts r us)
  have "parsed p (BinaryExpr (toBinaryOp (tk_kind t)) l r) (ts @ t # us)"
    using left_assoc by (intro parsed_left_assoc operators_agree) (auto dest: phrased_parsed)
  then show ?case
    using left_assoc by (intro phrasedI) (auto simp: operators_agree dest: phrased_starts)
next
  case (right_assoc t l ts r us)
  have "parsed 9 l ts" by (rule phrased_parsed, rule phrased_le, rule right_assoc) simp
  then show ?case using right_assoc by (intro phrasedI parsed_right_assoc) (auto dest: phrased_parsed phrased_starts)
next
  case (negated t e ts)
  then show ?case by (intro phrasedI parsed_not) (auto dest: phrased_parsed)
next
  case (between e ts b ns t lo ls a hi hs)
  then show ?case by (intro phrasedI parsed_between) (auto dest: phrased_parsed phrased_starts)
next
  case (unlike e ts n t f p us)
  have "parsed 4 (UnaryExpr NOT (BinaryExpr (toBinaryOp (tk_kind t)) e p)) (ts @ n # t # us)"
    using unlike by (intro parsed_unlike) (auto dest: phrased_parsed)
  moreover have "toBinaryOp (tk_kind t) = f" using unlike by (auto simp: toBinaryOp_def)
  ultimately show ?case using unlike by (intro phrasedI) (auto dest: phrased_starts)
next
  case (is_null e ts t b ns u)
  then show ?case by (intro phrasedI parsed_is_null) (auto dest: phrased_parsed phrased_starts)
next
  case (in_nothing e ts b ns t l r)
  then show ?case
    using parsed_in [of e ts b ns t l r "[]"] in_no_values
    by (intro phrasedI) (auto dest: phrased_parsed phrased_starts)
next
  case (in_list e ts b ns t l es us r)
  have us: "separated expression es us" by (rule both(1), rule in_list)
  show ?case
    by (intro phrasedI parsed_in in_values [OF us]) (use in_list in \<open>auto dest: phrased_parsed phrased_starts\<close>)
next
  case (in_query e ts b ns t l s us r)
  have "yields (\<lambda>P. on_check (Clause KW_SELECT) (pbind (p_select P) (\<lambda>s. pret (InSelect s)))
          (pbind (parseArgs P) (\<lambda>es. pret (InList es)))) (us @ r # q) (InSelect s) (r # q)" for q
  proof -
    have "yields (\<lambda>P. pbind (p_select P) (\<lambda>s. pret (InSelect s))) (us @ r # q) (InSelect s) (r # q)"
      by (rule yields_bind, rule queried_yields, rule in_query, use in_query in \<open>simp add: ender_defs\<close>, rule yields_pret)
    moreover obtain u vs where "us = u # vs" "tk_kind u = Clause KW_SELECT"
      using in_query by (auto simp: queried_def elim: startsE)
    ultimately show ?thesis by (simp add: yields_check)
  qed
  with in_query show ?case
    by (intro phrasedI parsed_in) (auto dest: phrased_parsed phrased_starts)
next
  case (minus t e ts)
  then show ?case by (intro phrasedI parsed_sign) (auto dest: phrased_parsed)
next
  case (plus t e ts)
  then show ?case by (intro phrasedI parsed_sign) (auto dest: phrased_parsed)
next
  case (column n)
  then show ?case by (intro phrasedI parsed_column) auto
next
  case (column2 q d n)
  then show ?case by (intro phrasedI parsed_column2) auto
next
  case (column3 p c q d n)
  then show ?case by (intro phrasedI parsed_column3) auto
next
  case (all_columns q d n)
  then show ?case by (intro phrasedI parsed_all_columns) auto
next
  case (call_star f l b ds t r)
  then show ?case by (intro phrasedI parsed_call_star) auto
next
  case (call_nothing f l b ds r)
  then show ?case
    using parsed_call_args [of f l b ds r "[]"] yields_no_arguments by (intro phrasedI) auto
next
  case (call f l b ds es us r)
  have us: "separated expression es us" by (rule both(1), rule call)
  show ?case
    by (intro phrasedI parsed_call_args yields_arguments us starts_mono [OF starts_append [OF arguments_start [OF us]]])
      (use call in \<open>auto simp: first_words_def\<close>)
next
  case (case_words t subject ts ws us els vs r)
  show ?case
    by (rule phrasedI, rule parsed_case; (rule case_words both(2-4), rule case_words | rule case_words | use case_words in simp))
next
  case (parens l e ts r)
  then show ?case by (intro phrasedI [OF parsed_parens]) auto
next
  case (subquery l s ts r)
  have "yields parseParen (ts @ r # q) (SubqueryExpr s) q" for q
  proof -
    have "yields (\<lambda>P. pbind (p_select P) (\<lambda>s. pbind (expect (Punct RPAREN) '') after subquery'') (\<lambda>_. pret (SubqueryExpr s))))
        (ts @ r # q) (SubqueryExpr s) q"
      by (rule yields_bind, rule queried_yields, rule subquery, use subquery in \<open>simp add: ender_defs\<close>,
          rule yields_bind, rule yields_expect, use subquery in simp, simp, rule yields_pret)
    moreover obtain u vs where "ts = u # vs" "tk_kind u = Clause KW_SELECT"
      using subquery by (auto simp: queried_def elim: startsE)
    ultimately show ?thesis by (simp add: parseParen_def [abs_def] yields_check)
  qed
  with subquery show ?case by (intro phrasedI parsed_primary) (auto intro: primary_paren)
next
  case (join_one r ts)
  then show ?case by (intro joined_one) (rule both(11))
next
  case (join_more l ts ty ws r us c vs)
  show ?case by (rule joined_more; (rule join_more | rule both(4,11), rule join_more))
next
  case (select t b ds as a items il frm fs wh ws gr gs hav hs ord os lim ls setop us)
  show ?case by (rule queried_select; (rule select | rule both(4-10), rule select | use select in simp))
qed (auto intro!: phrasedI primary_literal)

text \<open>
  Where the code and \<open>docs/sql-reference.md\<close> differ: \<open>l + r IS NULL\<close> is parsed as \<open>l + (r IS NULL)\<close>, though
  the document has IS NULL on level 4 and \<open>+\<close> on level 6. The grammar derives no such text.
\<close>

lemma postfix_binds_tighter:
  assumes "phrase 6 l ts" "tk_kind t = Op OP_PLUS" "phrase 10 r us" "tk_kind i = ExprWord KW_IS" "tk_kind u = Lit LIT_NULL"
  shows "expression (BinaryExpr ADD l (IsNullExpr r False)) (ts @ t # us @ [i, u])"
proof -
  have r: "phrased 9 r us" using derived(1) [OF assms(3)] by (rule phrased_le) simp
  then have "phrased 9 (IsNullExpr r False) (us @ i # [] @ [u])"
    using assms(4,5) by (intro phrasedI parsed_is_null) (auto simp: word_def dest: phrased_parsed phrased_starts)
  then have "phrased 7 (IsNullExpr r False) (us @ [i, u])" by (auto elim: phrased_le)
  then have "parsed 6 (BinaryExpr (toBinaryOp (tk_kind t)) l (IsNullExpr r False)) (ts @ t # us @ [i, u])"
    using phrased_parsed [OF derived(1) [OF assms(1)]] assms(2)
    by (intro parsed_left_assoc) (auto simp: binaryPrecedence_def dest: phrased_parsed)
  then have "phrased 6 (BinaryExpr ADD l (IsNullExpr r False)) (ts @ t # us @ [i, u])"
    using phrased_starts [OF derived(1) [OF assms(1)]] assms(2) by (intro phrasedI) (simp_all add: toBinaryOp_def)
  then show ?thesis by (rule phrased_le) simp
qed

end
