(* ===== verification/LQ_StmtGrammar.thy ===== *)
theory LQ_StmtGrammar
  imports LQ_Grammar
begin

section \<open>The grammar of statements\<close>

text \<open>
  \<open>statement st ts\<close> derives the tokens \<open>ts\<close> of a statement with its tree, over the grammar of
  expressions and queries in \<open>LQ_Grammar\<close>. The theorem at the end: a text whose tokens the grammar
  derives is parsed to the derived tree.
\<close>

subsection \<open>The grammar\<close>

definition ident :: "string \<Rightarrow> token list \<Rightarrow> bool" where
  "ident n ts = (\<exists>t. ts = [t] \<and> tk_kind t = IDENT \<and> n = lexeme t)"

inductive table_name :: "string option \<times> string \<Rightarrow> token list \<Rightarrow> bool" where
  name_plain: "tk_kind n = IDENT \<Longrightarrow> table_name (None, lexeme n) [n]"
| name_qualified: "tk_kind q = IDENT \<Longrightarrow> tk_kind d = Punct DOT \<Longrightarrow> tk_kind n = IDENT \<Longrightarrow>
    table_name (Some (lexeme q), lexeme n) [q, d, n]"

definition enclosed :: "('a \<Rightarrow> token list \<Rightarrow> bool) \<Rightarrow> 'a \<Rightarrow> token list \<Rightarrow> bool" where
  "enclosed R x ts = (\<exists>l us r. ts = l # us @ [r] \<and> tk_kind l = Punct LPAREN \<and> R x us \<and> tk_kind r = Punct RPAREN)"

definition none_or :: "('a list \<Rightarrow> token list \<Rightarrow> bool) \<Rightarrow> 'a list \<Rightarrow> token list \<Rightarrow> bool" where
  "none_or R xs ts = (xs = [] \<and> ts = [] \<or> R xs ts)"

definition set_to :: "(expr \<Rightarrow> token list \<Rightarrow> bool) \<Rightarrow> string \<times> expr \<Rightarrow> token list \<Rightarrow> bool" where
  "set_to R a ts = (\<exists>n t us. ts = n # t # us \<and> tk_kind n = IDENT \<and> fst a = lexeme n \<and> tk_kind t = Op OP_EQ \<and> R (snd a) us)"

fun type_word :: "kw_type \<Rightarrow> data_type" where
  "type_word KW_BOOLEAN = dt_boolean True"
| "type_word KW_BOOL = dt_boolean True"
| "type_word KW_TINYINT = mk_dt INT8 True"
| "type_word KW_SMALLINT = mk_dt INT16 True"
| "type_word KW_INT = dt_int32 True"
| "type_word KW_INTEGER = dt_int32 True"
| "type_word KW_BIGINT = dt_int64 True"
| "type_word KW_REAL = mk_dt FLOAT32 True"
| "type_word KW_FLOAT = mk_dt FLOAT32 True"
| "type_word KW_DOUBLE = dt_float64 True"
| "type_word KW_DATE = dt_date True"
| "type_word KW_TIMESTAMP = dt_timestamp True"
| "type_word KW_TEXT = dt_varchar (- 1) True"
| "type_word KW_VARCHAR = dt_varchar (- 1) True"
| "type_word KW_DECIMAL = dt_decimal 18 0 True"
| "type_word KW_NUMERIC = dt_decimal 18 0 True"
| "type_word KW_BLOB = mk_dt BLOB True"

definition int_lit :: "64 word \<Rightarrow> token list \<Rightarrow> bool" where
  "int_lit v ts = (\<exists>t. ts = [t] \<and> tk_kind t = Lit LIT_INTEGER \<and> intValue t = Inr v)"

inductive type_of :: "data_type \<Rightarrow> token list \<Rightarrow> bool" where
  type_plain: "tk_kind t = TypeWord w \<Longrightarrow> type_of (type_word w) [t]"
| type_varchar: "tk_kind t = TypeWord KW_VARCHAR \<Longrightarrow> enclosed int_lit v ts \<Longrightarrow> type_of (dt_varchar (ucast v) True) (t # ts)"
| type_precision: "tk_kind t \<in> {TypeWord KW_DECIMAL, TypeWord KW_NUMERIC} \<Longrightarrow> enclosed int_lit p ts \<Longrightarrow>
    type_of (dt_decimal (ucast p) 0 True) (t # ts)"
| type_scale: "tk_kind t \<in> {TypeWord KW_DECIMAL, TypeWord KW_NUMERIC} \<Longrightarrow> enclosed (separated int_lit) [p, s] ts \<Longrightarrow>
    type_of (dt_decimal (ucast p) (ucast s) True) (t # ts)"

inductive constraints :: "(expr \<Rightarrow> token list \<Rightarrow> bool) \<Rightarrow> column_constraint list \<Rightarrow> token list \<Rightarrow> bool" for R where
  no_constraint: "constraints R [] []"
| not_null: "tk_kind t = Constraint KW_NOT \<Longrightarrow> tk_kind u = Lit LIT_NULL \<Longrightarrow> constraints R cs ts \<Longrightarrow>
    constraints R (\<lparr>cc_kind = NOT_NULL, cc_expr = None\<rparr> # cs) (t # u # ts)"
| primary_key: "tk_kind t = Constraint KW_PRIMARY \<Longrightarrow> tk_kind u = Constraint KW_KEY \<Longrightarrow> constraints R cs ts \<Longrightarrow>
    constraints R (\<lparr>cc_kind = PRIMARY_KEY, cc_expr = None\<rparr> # cs) (t # u # ts)"
| default_expr: "tk_kind t = Constraint KW_DEFAULT \<Longrightarrow> R e us \<Longrightarrow> constraints R cs ts \<Longrightarrow>
    constraints R (\<lparr>cc_kind = DEFAULT, cc_expr = Some e\<rparr> # cs) (t # us @ ts)"

inductive column_def_of :: "(expr \<Rightarrow> token list \<Rightarrow> bool) \<Rightarrow> column_spec \<Rightarrow> token list \<Rightarrow> bool" for R where
  column_def_of: "tk_kind n = IDENT \<Longrightarrow> type_of ty ts \<Longrightarrow> constraints R cs us \<Longrightarrow>
    column_def_of R \<lparr>cs_name = lexeme n, cs_type = ty, cs_constraints = cs\<rparr> (n # ts @ us)"

inductive source_of :: "insert_source \<Rightarrow> token list \<Rightarrow> bool" where
  source_values: "tk_kind t = Ddl KW_VALUES \<Longrightarrow> separated (enclosed (none_or (separated (phrase 1)))) rows ts \<Longrightarrow>
    source_of (InsertValues rows) (t # ts)"
| source_query: "query_of s ts \<Longrightarrow> source_of (InsertSelect s) ts"

inductive statement :: "stmt \<Rightarrow> token list \<Rightarrow> bool" where
  select_stmt: "query_of s ts \<Longrightarrow> statement (StmtSelect s) ts"
| insert_stmt: "tk_kind i = Ddl KW_INSERT \<Longrightarrow> tk_kind t = Ddl KW_INTO \<Longrightarrow> table_name (q, n) ns \<Longrightarrow>
    none_or (enclosed (separated ident)) cols cs \<Longrightarrow> source_of src ss \<Longrightarrow>
    statement (StmtInsert \<lparr>ins_table = n, ins_schema = q, ins_columns = cols, ins_source = src\<rparr>) (i # t # ns @ cs @ ss)"
| update_stmt: "tk_kind u = Ddl KW_UPDATE \<Longrightarrow> table_name (q, n) ns \<Longrightarrow> tk_kind t = Ddl KW_SET \<Longrightarrow>
    separated (set_to (phrase 1)) sets ss \<Longrightarrow> clause (Clause KW_WHERE) (phrase 1) wh ws \<Longrightarrow>
    statement (StmtUpdate \<lparr>upd_table = n, upd_schema = q, upd_assignments = sets, upd_where = wh\<rparr>) (u # ns @ t # ss @ ws)"
| delete_stmt: "tk_kind d = Ddl KW_DELETE \<Longrightarrow> tk_kind t = Clause KW_FROM \<Longrightarrow> table_name (q, n) ns \<Longrightarrow>
    clause (Clause KW_WHERE) (phrase 1) wh ws \<Longrightarrow>
    statement (StmtDelete \<lparr>del_table = n, del_schema = q, del_where = wh\<rparr>) (d # t # ns @ ws)"
| create_stmt: "tk_kind c = Ddl KW_CREATE \<Longrightarrow> tk_kind t = Ddl KW_TABLE \<Longrightarrow> table_name (q, n) ns \<Longrightarrow>
    enclosed (separated (column_def_of (phrase 1))) cols cs \<Longrightarrow>
    statement (StmtCreateTable \<lparr>ct_schema = q, ct_name = n, ct_columns = cols, ct_ifNotExists = False\<rparr>) (c # t # ns @ cs)"
| drop_stmt: "tk_kind d = Ddl KW_DROP \<Longrightarrow> tk_kind t = Ddl KW_TABLE \<Longrightarrow> table_name (q, n) ns \<Longrightarrow>
    statement (StmtDropTable \<lparr>dt_schema = q, dt_name = n, dt_ifExists = False\<rparr>) (d # t # ns)"

subsection \<open>Names, values and types\<close>

lemma yields_more_methods:
  "yields columnNames ts ns us \<Longrightarrow> yields p_names ts ns us"
  "yields valuesRows ts rs us \<Longrightarrow> yields p_rows ts rs us"
  "yields assignments ts sets us \<Longrightarrow> yields p_sets ts sets us"
  "yields constraintLoop ts cs us \<Longrightarrow> yields p_constraints ts cs us"
  "yields columnSpecs ts ds us \<Longrightarrow> yields p_columns ts ds us"
  by (rule yields_deeper; simp add: deeper_def)+

lemma derived_expr: "phrase 1 e ts \<Longrightarrow> expression e ts"
  by (rule derived)

lemma derived_exprs: "separated (phrase 1) es ts \<Longrightarrow> separated expression es ts"
  by (erule separated_mono [THEN mp, rotated], rule impI, erule derived_expr)

lemma yields_table_name:
  assumes "table_name x ts" "starts (- {Punct DOT}) r"
  shows "yields (\<lambda>_. qualifiedName) (ts @ r) x r"
  using assms(1)
proof (cases rule: table_name.cases)
  case (name_plain n)
  show ?thesis
    unfolding name_plain(1,2) qualifiedName_def
    by (simp, rule yields_bind, rule yields_name [OF name_plain(3)], rule yields_miss [OF assms(2)], simp, rule yields_pret)
next
  case (name_qualified q d n)
  show ?thesis
    unfolding name_qualified(1,2) qualifiedName_def
    by (simp, rule yields_bind, rule yields_name [OF name_qualified(3)], rule yields_hit [OF name_qualified(4)], simp,
        rule yields_bind, rule yields_name [OF name_qualified(5)], rule yields_pret)
qed

lemma yields_names:
  assumes "separated ident ns ts" "starts (- {Punct COMMA}) r"
  shows "yields p_names (ts @ r) ns r"
proof (rule yields_do_list [OF assms(1), of "\<lambda>_. True"])
  show "yields (\<lambda>_. name_of ''column name'') (us @ q) x q" if "ident x us" for x us q
    using that by (auto simp: ident_def intro: yields_name)
  show "yields p_names us xs q" if "yields (\<lambda>P. do_list (name_of ''column name'') (p_names P)) us xs q" for us xs q
    using that by (intro yields_more_methods) (simp add: columnNames_def [abs_def])
qed (use assms(2) in auto)

text \<open>A method between parentheses.\<close>

lemma yields_enclosed:
  assumes "enclosed R x ts" "\<And>r us q. R x us \<Longrightarrow> tk_kind r = Punct RPAREN \<Longrightarrow> yields p (us @ r # q) x (r # q)"
  shows "yields (\<lambda>P. pbind (expect (Punct LPAREN) a) (\<lambda>_. pbind (p P) (\<lambda>x. pbind (expect (Punct RPAREN) b) (\<lambda>_. pret x)))) (ts @ q) x q"
proof -
  from assms(1) obtain l us r where t: "ts = l # us @ [r]" "tk_kind l = Punct LPAREN" "R x us" "tk_kind r = Punct RPAREN"
    by (auto simp: enclosed_def)
  show ?thesis
    unfolding t(1)
    by (simp, rule yields_bind, rule yields_expect [OF t(2)], simp, rule yields_bind, rule assms(2) [OF t(3,4)],
        rule yields_bind, rule yields_expect [OF t(4)], simp, rule yields_pret)
qed

lemma yields_row:
  assumes "enclosed (none_or (separated (phrase 1))) es ts"
  shows "yields valuesRow (ts @ q) es q"
  unfolding valuesRow_def
proof (rule yields_enclosed [OF assms])
  show "yields parseArgs (us @ r # q) es (r # q)" if "none_or (separated (phrase 1)) es us" "tk_kind r = Punct RPAREN" for r us q
    using that yields_arguments [OF derived_exprs] yields_no_arguments by (auto simp: none_or_def simp del: One_nat_def)
qed

lemma yields_rows:
  assumes "separated (enclosed (none_or (separated (phrase 1)))) rows ts" "starts (- {Punct COMMA}) r"
  shows "yields p_rows (ts @ r) rows r"
proof (rule yields_do_list [OF assms(1), of "\<lambda>_. True"])
  show "yields valuesRow (us @ q) x q" if "enclosed (none_or (separated (phrase 1))) x us" for x us q
    by (rule yields_row [OF that])
  show "yields p_rows us xs q" if "yields (\<lambda>P. do_list (valuesRow P) (p_rows P)) us xs q" for us xs q
    using that by (intro yields_more_methods) (simp add: valuesRows_def [abs_def])
qed (use assms(2) in auto)

lemma yields_set_to:
  assumes "set_to (phrase 1) a ts" "starts expr_enders r"
  shows "yields assignment (ts @ r) a r"
proof -
  from assms(1) obtain n t us where t: "ts = n # t # us" "tk_kind n = IDENT" "fst a = lexeme n" "tk_kind t = Op OP_EQ"
    "phrase 1 (snd a) us" by (auto simp: set_to_def)
  have "yields assignment (n # t # us @ r) (lexeme n, snd a) r"
    unfolding assignment_def
    by (rule yields_bind, rule yields_name [OF t(2)], rule yields_bind, rule yields_expect [OF t(4)], simp,
        rule yields_bind, rule expression_yields [OF derived_expr [OF t(5)] assms(2)], rule yields_pret)
  moreover have "a = (lexeme n, snd a)" using t(3) by (cases a) simp
  ultimately show ?thesis unfolding t(1) by simp
qed

lemma yields_sets:
  assumes "separated (set_to (phrase 1)) sets ts" "starts (expr_enders - {Punct COMMA}) r"
  shows "yields p_sets (ts @ r) sets r"
proof (rule yields_do_list [OF assms(1), of "starts expr_enders"])
  show "yields assignment (us @ q) x q" if "set_to (phrase 1) x us" "starts expr_enders q" for x us q
    by (rule yields_set_to [OF that])
  show "yields p_sets us xs q" if "yields (\<lambda>P. do_list (assignment P) (p_sets P)) us xs q" for us xs q
    using that by (intro yields_more_methods) (simp add: assignments_def [abs_def])
  from assms(2) show "starts expr_enders r" by (rule starts_mono) blast
qed (simp, rule assms(2), blast)

lemma yields_int:
  assumes "int_lit v ts"
  shows "yields (\<lambda>_. int_arg what) (ts @ r) v r"
proof -
  from assms obtain t where t: "ts = [t]" "tk_kind t = Lit LIT_INTEGER" "intValue t = Inr v" by (auto simp: int_lit_def)
  have "yields (\<lambda>_. plift (intValue t)) r v r" by (simp add: yields_def plift_def t(3))
  then have "yields (\<lambda>_. int_arg what) (t # r) v r"
    unfolding int_arg_def by (rule yields_bind [OF yields_expect [OF t(2)], rotated]) simp
  then show ?thesis using t(1) by simp
qed

inductive_simps separated_two: "separated R [x, y] ts"
inductive_simps separated_single: "separated R [x] ts"
inductive_simps separated_none: "separated R [] ts"

lemma yields_decimal:
  assumes "enclosed int_lit p ts \<and> s = 0 \<or> enclosed (separated int_lit) [p, s] ts"
  shows "yields (\<lambda>_. decimal_type) (ts @ r) (dt_decimal (ucast p) (ucast s) True) r"
proof -
  from assms obtain l us e where t: "ts = l # us @ [e]" "tk_kind l = Punct LPAREN" "tk_kind e = Punct RPAREN"
    and us: "int_lit p us \<and> s = 0 \<or> separated int_lit [p, s] us" by (auto simp: enclosed_def)
  from us obtain ps vs where v: "us = ps @ vs" "int_lit p ps"
    and s: "vs = [] \<and> s = 0 \<or> (\<exists>c ws. vs = c # ws \<and> tk_kind c = Punct COMMA \<and> int_lit s ws)"
    by (auto simp: separated_two separated_single separated_none)
  have "yields (\<lambda>_. on_match (Punct COMMA) (int_arg ''scale'') (pret 0)) (vs @ e # r) s (e # r)"
    using s
  proof (elim disjE exE conjE)
    fix c ws
    assume "vs = c # ws" "tk_kind c = Punct COMMA" "int_lit s ws"
    then show ?thesis by (simp add: yields_hit yields_int)
  qed (use t(3) in \<open>auto intro: yields_miss [of "{Punct RPAREN}"] yields_pret\<close>)
  note c = this
  have "yields (\<lambda>_. pbind (int_arg ''precision'') (\<lambda>p. pbind (on_match (Punct COMMA) (int_arg ''scale'') (pret 0)) (\<lambda>s.
        pbind (expect (Punct RPAREN) '') after DECIMAL'') (\<lambda>_. pret (ucast p, ucast s))))) (ps @ vs @ e # r)
        (ucast p :: 8 word, ucast s :: 8 word) r"
    by (rule yields_bind, rule yields_int [OF v(2)], rule yields_bind, rule c, rule yields_bind, rule yields_expect [OF t(3)],
        simp, rule yields_pret)
  note args = yields_hit [OF t(2) _ this]
  have "yields (\<lambda>_. decimal_type) (l # ps @ vs @ e # r) (dt_decimal (ucast p) (ucast s) True) r"
    unfolding decimal_type_def by (rule yields_bind, rule args) (simp_all add: yields_pret)
  with t v show ?thesis by simp
qed

lemma yields_type:
  assumes "type_of ty ts" "starts (- {Punct LPAREN}) r"
  shows "yields (\<lambda>_. parseDataType) (ts @ r) ty r"
proof -
  have skip: "yields (\<lambda>_. on_match (Punct LPAREN) p q) r x r" if "yields (\<lambda>_. q) r x r"
    for p q :: "'a parser" and x
    by (rule yields_miss [OF assms(2) _ that]) simp
  have dec: "yields (\<lambda>_. parseDataType) (t # us @ r) ty r"
    if "tk_kind t \<in> {TypeWord KW_DECIMAL, TypeWord KW_NUMERIC}" "yields (\<lambda>_. decimal_type) (us @ r) ty r" for t us
    unfolding parseDataType_def
    by (rule yields_bind, rule yields_next, use that(1) in force) (use that in \<open>auto simp: Let_def\<close>)
  from assms(1) show ?thesis
  proof (cases rule: type_of.cases)
    case (type_plain t w)
    have "starts (- {Punct LPAREN}) r \<Longrightarrow> parseDataType (t # r) = Inr (type_word w, r)"
      using type_plain(3)
      by (cases w) (auto elim!: startsE simp: parseDataType_def Let_def pbind_def next_token_def tok_advance_def at_end_def
          on_match_def pif_def tok_check_def pret_def decimal_type_def)
    with assms(2) type_plain show ?thesis by (simp add: yields_const)
  next
    case (type_varchar t v us)
    then obtain l n e where u: "us = [l, n, e]" "tk_kind l = Punct LPAREN" "tk_kind e = Punct RPAREN" "int_lit v [n]"
      by (auto simp: enclosed_def int_lit_def)
    have "yields (\<lambda>_. pbind (int_arg ''length'') (\<lambda>n. pbind (expect (Punct RPAREN) '') after VARCHAR length'') (\<lambda>_.
        pret (ucast n :: 32 word)))) ([n] @ e # r) (ucast v) r"
      by (rule yields_bind, rule yields_int [OF u(4)], rule yields_bind, rule yields_expect [OF u(3)], simp, rule yields_pret)
    note args = yields_hit [OF u(2) _ this [unfolded append_Cons append_Nil]]
    show ?thesis
      unfolding type_varchar(1,2) u(1) parseDataType_def
      by (simp, rule yields_bind, rule yields_next, simp add: type_varchar)
        (simp add: type_varchar Let_def, rule yields_bind, rule args, simp, rule yields_pret)
  next
    case (type_precision t p us)
    from type_precision(4) yields_decimal [of p us 0 r] have "yields (\<lambda>_. decimal_type) (us @ r) ty r"
      by (simp add: type_precision(1))
    with dec type_precision show ?thesis by simp
  next
    case (type_scale t p s us)
    from type_scale(4) yields_decimal [of p us s r] have "yields (\<lambda>_. decimal_type) (us @ r) ty r"
      by (simp add: type_scale(1))
    with dec type_scale show ?thesis by simp
  qed
qed

subsection \<open>Columns\<close>

text \<open>A DEFAULT may be followed by NOT NULL, which is no postfix form.\<close>

lemma expression_before:
  assumes "expression e ts" "no_postfix r" "binaryPrecedence (tk_kind (hd r)) < 0" "tk_kind (hd r) \<notin> {Punct LPAREN, Punct DOT}"
  shows "yields parseExpression (ts @ r) e r"
  unfolding parseExpression_def
proof (rule parsedD [of 1 e ts])
  obtain t us where r: "r = t # us" using assms(2) by (rule no_postfixE)
  with assms(2-4) show "closes 1 r" by (simp add: closes_Cons)
  from r assms(3) show "yields (\<lambda>P. p_loop P 0 e) r e r" by (auto intro: loop_ends [of "{tk_kind t}"])
qed (use assms(1) in \<open>simp_all add: phrased_def\<close>)

definition column_enders :: "token_kind set" where
  "column_enders = {Punct COMMA, Punct RPAREN}"

lemma constraints_ahead:
  assumes "constraints R cs ts" "starts column_enders r"
  shows "no_postfix (ts @ r) \<and> starts (column_enders \<union> {Constraint KW_NOT, Constraint KW_PRIMARY, Constraint KW_DEFAULT}) (ts @ r)"
  using assms
  by (cases rule: constraints.cases)
    (auto elim!: startsE simp: column_enders_def no_postfix_def negated_ahead_def tok_check_def tok_peek_def)

lemma yields_constraints:
  assumes "constraints (phrase 1) cs ts" "starts column_enders r"
  shows "yields p_constraints (ts @ r) cs r"
  using assms(1)
proof (induction rule: constraints.induct)
  case no_constraint
  show ?case
    by (simp, rule yields_more_methods, unfold constraintLoop_def)
      (intro yields_miss [OF assms(2)] yields_pret; simp add: column_enders_def)
next
  case (not_null t u cs ts)
  have "yields p_constraints (t # u # ts @ r) (\<lparr>cc_kind = NOT_NULL, cc_expr = None\<rparr> # cs) r"
    by (rule yields_more_methods, unfold constraintLoop_def)
      (rule yields_hit [OF not_null(1)], simp, rule yields_bind, rule yields_expect [OF not_null(2)], simp,
       rule yields_bind, rule not_null, rule yields_pret)
  then show ?case by simp
next
  case (primary_key t u cs ts)
  have "yields p_constraints (t # u # ts @ r) (\<lparr>cc_kind = PRIMARY_KEY, cc_expr = None\<rparr> # cs) r"
    by (rule yields_more_methods, unfold constraintLoop_def)
      (rule yields_miss [of "{Constraint KW_PRIMARY}"], use primary_key(1) in simp, simp,
       rule yields_hit [OF primary_key(1)], simp, rule yields_bind, rule yields_expect [OF primary_key(2)], simp,
       rule yields_bind, rule primary_key, rule yields_pret)
  then show ?case by simp
next
  case (default_expr t e us cs ts)
  note ahead = constraints_ahead [OF default_expr(3) assms(2)]
  have e: "yields parseExpression (us @ ts @ r) e (ts @ r)"
    by (rule expression_before [OF derived_expr [OF default_expr(2)]])
      (use ahead in \<open>auto elim!: startsE simp: column_enders_def binaryPrecedence_def\<close>)
  have "yields p_constraints (t # us @ ts @ r) (\<lparr>cc_kind = DEFAULT, cc_expr = Some e\<rparr> # cs) r"
    by (rule yields_more_methods, unfold constraintLoop_def)
      (rule yields_miss [of "{Constraint KW_DEFAULT}"], use default_expr(1) in simp, simp,
       rule yields_miss [of "{Constraint KW_DEFAULT}"], use default_expr(1) in simp, simp,
       rule yields_hit [OF default_expr(1)], simp, rule yields_bind, rule e, rule yields_bind, rule default_expr, rule yields_pret)
  then show ?case by simp
qed

lemma yields_column:
  assumes "column_def_of (phrase 1) d ts" "starts column_enders r"
  shows "yields columnSpec (ts @ r) d r"
  using assms(1)
proof (cases rule: column_def_of.cases)
  case (column_def_of n ty us cs vs)
  have v: "starts (- {Punct LPAREN}) (vs @ r)"
    using constraints_ahead [OF column_def_of(5) assms(2)] by (auto elim!: starts_mono simp: column_enders_def)
  have "yields columnSpec (n # us @ vs @ r) d r"
    unfolding columnSpec_def column_def_of(1)
    by (rule yields_bind, rule yields_name [OF column_def_of(3)], rule yields_bind, rule yields_type [OF column_def_of(4) v],
        rule yields_bind, rule yields_constraints [OF column_def_of(5) assms(2)], rule yields_pret)
  then show ?thesis using column_def_of(2) by simp
qed

lemma yields_columns:
  assumes "separated (column_def_of (phrase 1)) ds ts" "tk_kind t = Punct RPAREN"
  shows "yields p_columns (ts @ t # r) ds (t # r)"
proof (rule yields_do_list [OF assms(1), of "starts column_enders"])
  show "yields columnSpec (us @ q) x q" if "column_def_of (phrase 1) x us" "starts column_enders q" for x us q
    by (rule yields_column [OF that])
  show "yields p_columns us xs q" if "yields (\<lambda>P. do_list (columnSpec P) (p_columns P)) us xs q" for us xs q
    using that by (intro yields_more_methods) (simp add: columnSpecs_def [abs_def])
  show "starts {Punct RPAREN} (t # r)" using assms(2) by simp
qed (use assms(2) in \<open>simp_all add: column_enders_def\<close>)

subsection \<open>Statements\<close>

abbreviation statement_enders :: "token_kind set" where
  "statement_enders \<equiv> {Punct SEMICOLON, END_OF_FILE}"

lemma statement_query:
  assumes "query_of s ts" "starts statement_enders r"
  shows "yields p_select (ts @ r) s r"
  by (rule queried_yields [OF derived(2) [OF assms(1)]], rule starts_mono [OF assms(2)]) (auto simp: query_enders_def)

lemma statement_where:
  assumes "clause (Clause KW_WHERE) (phrase 1) wh ts" "starts statement_enders r"
  shows "yields (\<lambda>P. optional (Clause KW_WHERE) (parseExpression P)) (ts @ r) wh r"
  by (rule yields_optional [OF assms(1) _ _ assms(2)], simp, erule expression_yields [OF derived_expr],
      rule starts_mono [OF assms(2)]) auto

lemma body_select:
  assumes "tk_kind t = Clause KW_SELECT" "yields p_select (t # ts) s us"
  shows "yields statementBody (t # ts) (StmtSelect s) us"
  by (rule yields_eq, rule yields_bind, rule assms(2), rule yields_pret) (simp add: statementBody_def assms(1))

lemma yields_body:
  "tk_kind t = Ddl KW_INSERT \<Longrightarrow> yields parseInsert (t # ts) st us \<Longrightarrow> yields statementBody (t # ts) st us"
  "tk_kind t = Ddl KW_UPDATE \<Longrightarrow> yields parseUpdate (t # ts) st us \<Longrightarrow> yields statementBody (t # ts) st us"
  "tk_kind t = Ddl KW_DELETE \<Longrightarrow> yields parseDelete (t # ts) st us \<Longrightarrow> yields statementBody (t # ts) st us"
  "tk_kind t = Ddl KW_CREATE \<Longrightarrow> yields parseCreateTable (t # ts) st us \<Longrightarrow> yields statementBody (t # ts) st us"
  "tk_kind t = Ddl KW_DROP \<Longrightarrow> yields (\<lambda>_. parseDropTable) (t # ts) st us \<Longrightarrow> yields statementBody (t # ts) st us"
  by (erule yields_eq, simp add: statementBody_def Let_def)+

lemma yields_source:
  assumes "source_of src ts" "starts statement_enders r"
  shows "yields (\<lambda>P. on_check (Clause KW_SELECT) (pbind (p_select P) (\<lambda>s. pret (InsertSelect s)))
      (pbind (expect (Ddl KW_VALUES) ''VALUES or SELECT'') (\<lambda>_. pbind (p_rows P) (\<lambda>rows. pret (InsertValues rows))))) (ts @ r) src r"
    and "starts {Clause KW_SELECT, Ddl KW_VALUES} (ts @ r)"
proof -
  have "yields (\<lambda>P. on_check (Clause KW_SELECT) (pbind (p_select P) (\<lambda>s. pret (InsertSelect s)))
      (pbind (expect (Ddl KW_VALUES) ''VALUES or SELECT'') (\<lambda>_. pbind (p_rows P) (\<lambda>rows. pret (InsertValues rows))))) (ts @ r) src r
    \<and> starts {Clause KW_SELECT, Ddl KW_VALUES} (ts @ r)"
    using assms(1)
  proof (cases rule: source_of.cases)
    case (source_values t rows us)
    have "starts (- {Punct COMMA}) r" by (rule starts_mono [OF assms(2)]) auto
    note rows = yields_rows [OF source_values(4) this]
    show ?thesis
      unfolding source_values(1,2)
      by (simp add: source_values(3), rule yields_uncheck [of "{Ddl KW_VALUES}"], simp add: source_values(3), simp,
          rule yields_bind, rule yields_expect [OF source_values(3)], simp, rule yields_bind, rule rows, rule yields_pret)
  next
    case (source_query s)
    from derived(2) [OF source_query(2)] obtain t us where t: "ts = t # us" "tk_kind t = Clause KW_SELECT"
      by (auto simp: queried_def elim: startsE)
    have "yields (\<lambda>P. pbind (p_select P) (\<lambda>s. pret (InsertSelect s))) (ts @ r) src r"
      unfolding source_query(1) by (rule yields_bind, rule statement_query [OF source_query(2) assms(2)], rule yields_pret)
    with t show ?thesis by (simp add: yields_check)
  qed
  then show "yields (\<lambda>P. on_check (Clause KW_SELECT) (pbind (p_select P) (\<lambda>s. pret (InsertSelect s)))
      (pbind (expect (Ddl KW_VALUES) ''VALUES or SELECT'') (\<lambda>_. pbind (p_rows P) (\<lambda>rows. pret (InsertValues rows))))) (ts @ r) src r"
    "starts {Clause KW_SELECT, Ddl KW_VALUES} (ts @ r)" by simp_all
qed

lemma yields_statement:
  assumes "statement st ts" "starts statement_enders r"
  shows "yields statementBody (ts @ r) st r"
proof -
  have dot: "starts (- {Punct DOT}) r" by (rule starts_mono [OF assms(2)]) auto
  from assms(1) show ?thesis
  proof (cases rule: statement.cases)
    case (select_stmt s)
    from derived(2) [OF select_stmt(2)] obtain t us where t: "ts = t # us" "tk_kind t = Clause KW_SELECT"
      by (auto simp: queried_def elim: startsE)
    with statement_query [OF select_stmt(2) assms(2)] select_stmt(1) show ?thesis by (simp add: body_select)
  next
    case (insert_stmt i t q n ns cols cs src ss)
    note src = yields_source [OF insert_stmt(7) assms(2)]
    have c: "yields (\<lambda>P. on_match (Punct LPAREN)
              (pbind (p_names P) (\<lambda>ns. pbind (expect (Punct RPAREN) '') after column list'') (\<lambda>_. pret ns)))
              (pret [])) (cs @ ss @ r) cols (ss @ r) \<and> starts (- {Punct DOT}) (cs @ ss @ r)"
    proof (cases "enclosed (separated ident) cols cs")
      case True
      then obtain l us e where e: "cs = l # us @ [e]" "tk_kind l = Punct LPAREN" "separated ident cols us" "tk_kind e = Punct RPAREN"
        by (auto simp: enclosed_def)
      have "yields (\<lambda>P. pbind (p_names P) (\<lambda>ns. pbind (expect (Punct RPAREN) '') after column list'') (\<lambda>_. pret ns)))
          (us @ e # ss @ r) cols (ss @ r)"
        by (rule yields_bind, rule yields_names [OF e(3)], use e(4) in simp, rule yields_bind, rule yields_expect [OF e(4)], simp,
            rule yields_pret)
      with e show ?thesis by (simp add: yields_hit)
    next
      case False
      with insert_stmt(6) have "cols = []" "cs = []" by (auto simp: none_or_def)
      with src(2) show ?thesis by (auto intro: yields_miss [OF src(2)] yields_pret elim: starts_mono)
    qed
    have "yields parseInsert (i # t # ns @ cs @ ss @ r) st r"
      unfolding parseInsert_def insert_stmt(1)
      by (rule yields_bind, rule yields_expect [OF insert_stmt(3)], simp, rule yields_bind, rule yields_expect [OF insert_stmt(4)], simp,
          rule yields_bind, rule yields_table_name [OF insert_stmt(5) conjunct2 [OF c]])
        (simp, rule yields_bind, rule conjunct1 [OF c], rule yields_bind, rule src(1), rule yields_pret)
    then show ?thesis using insert_stmt(2,3) by (simp add: yields_body)
  next
    case (update_stmt u q n ns t sets ss wh ws)
    have w: "starts (expr_enders - {Punct COMMA}) (ws @ r)"
      by (rule starts_mono [OF clause_starts [OF update_stmt(7) assms(2)]]) auto
    have "yields parseUpdate (u # ns @ t # ss @ ws @ r) st r"
      unfolding parseUpdate_def update_stmt(1)
      by (rule yields_bind, rule yields_expect [OF update_stmt(3)], simp, rule yields_bind, rule yields_table_name [OF update_stmt(4)],
          simp add: update_stmt(5))
        (simp, rule yields_bind, rule yields_expect [OF update_stmt(5)], simp, rule yields_bind, rule yields_sets [OF update_stmt(6) w],
         rule yields_bind, rule statement_where [OF update_stmt(7) assms(2)], rule yields_pret)
    then show ?thesis using update_stmt(2,3) by (simp add: yields_body)
  next
    case (delete_stmt d t q n ns wh ws)
    have w: "starts (- {Punct DOT}) (ws @ r)"
      by (rule starts_mono [OF clause_starts [OF delete_stmt(6) assms(2)]]) auto
    have "yields parseDelete (d # t # ns @ ws @ r) st r"
      unfolding parseDelete_def delete_stmt(1)
      by (rule yields_bind, rule yields_expect [OF delete_stmt(3)], simp, rule yields_bind, rule yields_expect [OF delete_stmt(4)], simp,
          rule yields_bind, rule yields_table_name [OF delete_stmt(5) w])
        (simp, rule yields_bind, rule statement_where [OF delete_stmt(6) assms(2)], rule yields_pret)
    then show ?thesis using delete_stmt(2,3) by (simp add: yields_body)
  next
    case (create_stmt c t q n ns cols cs)
    from create_stmt(6) obtain l us e where e: "cs = l # us @ [e]" "tk_kind l = Punct LPAREN"
        "separated (column_def_of (phrase 1)) cols us" "tk_kind e = Punct RPAREN"
      by (auto simp: enclosed_def)
    have "yields parseCreateTable (c # t # ns @ l # us @ e # r) st r"
      unfolding parseCreateTable_def create_stmt(1)
      by (rule yields_bind, rule yields_expect [OF create_stmt(3)], simp, rule yields_bind, rule yields_expect [OF create_stmt(4)], simp,
          rule yields_bind, rule yields_table_name [OF create_stmt(5)], simp add: e(2))
        (simp, rule yields_bind, rule yields_expect [OF e(2)], simp, rule yields_bind, rule yields_columns [OF e(3,4)],
         rule yields_bind, rule yields_expect [OF e(4)], simp, rule yields_pret)
    then show ?thesis using create_stmt(2,3) e(1) by (simp add: yields_body)
  next
    case (drop_stmt d t q n ns)
    have "yields (\<lambda>_. parseDropTable) (d # t # ns @ r) st r"
      unfolding parseDropTable_def drop_stmt(1)
      by (rule yields_bind, rule yields_expect [OF drop_stmt(3)], simp, rule yields_bind, rule yields_expect [OF drop_stmt(4)], simp,
          rule yields_bind, rule yields_table_name [OF drop_stmt(5) dot]) (simp, rule yields_pret)
    then show ?thesis using drop_stmt(2,3) by (simp add: yields_body)
  qed
qed

lemma statement_parsed:
  assumes "statement st ts" "word (Punct SEMICOLON) b sc" "wf_tokens (ts @ sc @ [e])"
  shows "parse_tokens (ts @ sc @ [e]) = Inr st"
proof -
  have e: "tk_kind e = END_OF_FILE" using assms(3) by (simp add: wf_tokens_def)
  have s: "starts statement_enders (sc @ [e])" using assms(2) e by (cases b) (auto simp: word_def)
  have semi: "yields (\<lambda>_. tok_match (Punct SEMICOLON)) (sc @ [e]) b [e]"
    using assms(2) e by (cases b) (auto simp: word_def intro: yields_match_hit yields_match_miss [of "{END_OF_FILE}"])
  have fin: "yields (\<lambda>_. pif at_end (pret st) (parse_error ''unexpected trailing tokens after statement'')) [e] st [e]"
    using e by (simp add: yields_def pif_def at_end_def pret_def)
  have "yields (\<lambda>P. pbind (statementBody P) (\<lambda>s. pbind (tok_match (Punct SEMICOLON)) (\<lambda>_.
         pif at_end (pret s) (parse_error ''unexpected trailing tokens after statement'')))) (ts @ sc @ [e]) st [e]"
    by (rule yields_bind, rule yields_statement [OF assms(1) s], rule yields_bind, rule semi, rule fin)
  then obtain k where "\<forall>n \<ge> k. pbind (statementBody (parsers_at n)) (\<lambda>s. pbind (tok_match (Punct SEMICOLON)) (\<lambda>_.
         pif at_end (pret s) (parse_error ''unexpected trailing tokens after statement''))) (ts @ sc @ [e]) = Inr (st, [e])"
    unfolding yields_def by blast
  then have k: "parseStatement n (ts @ sc @ [e]) = Inr st" if "k \<le> n" for n
    using that by (simp add: parseStatement_def)
  let ?n = "max k (parse_depth (ts @ sc @ [e]))"
  from k [of ?n] parse_deeper [OF assms(3), of ?n] show ?thesis by (simp add: parse_tokens_def)
qed

text \<open>So the grammar is unambiguous.\<close>

lemma statement_unambiguous:
  assumes "statement st ts" "statement st' ts" "wf_tokens (ts @ [e])"
  shows "st = st'"
  using statement_parsed [OF assms(1), of False "[]" e] statement_parsed [OF assms(2), of False "[]" e] assms(3)
  by (simp add: word_def)

text \<open>
  C4: a text whose tokens the grammar derives, with or without a semicolon at the end, is parsed to
  the tree of the derivation: operators bind as their levels say, and associate as their rules do.
\<close>

theorem grammar_is_parsed:
  assumes "statement st ts" "word (Punct SEMICOLON) b sc" "lr_tokens (tokenize sql) = ts @ sc @ [e]"
  shows "parse_tokens (lr_tokens (tokenize sql)) = Inr st"
  using statement_parsed [OF assms(1,2)] wf_tokenize [of sql] assms(3) by simp

text \<open>A predicate with operators of three levels: \<open>a + 1 * 2 = b\<close>.\<close>

lemma phrase_lower: "phrase n e ts \<Longrightarrow> m \<le> n \<Longrightarrow> n \<le> 8 \<Longrightarrow> phrase m e ts"
proof (induction n)
  case (Suc n)
  show ?case
  proof (cases "m = Suc n")
    case False
    have "phrase n e ts" by (rule lower [OF Suc.prems(1)]) (use Suc.prems in simp)
    with Suc.IH Suc.prems False show ?thesis by simp
  qed (use Suc.prems in simp)
qed simp

lemma phrase_operand: "phrase 10 e ts \<Longrightarrow> m \<le> 8 \<Longrightarrow> phrase m e ts"
  by (rule phrase_lower [OF operand]) simp_all

definition demo_predicate :: expr where
  "demo_predicate = BinaryExpr EQ (BinaryExpr ADD (ColumnRef None None ''a'')
     (BinaryExpr MUL (Literal (VI64 1)) (Literal (VI64 2)))) (ColumnRef None None ''b'')"

lemma demo_phrase:
  assumes "tk_kind a = IDENT" "lexeme a = ''a''" "tk_kind p = Op OP_PLUS" "tk_kind one = Lit LIT_INTEGER" "intValue one = Inr 1"
    and "tk_kind star = Op OP_STAR" "tk_kind two = Lit LIT_INTEGER" "intValue two = Inr 2" "tk_kind eq = Op OP_EQ"
    and "tk_kind b = IDENT" "lexeme b = ''b''"
  shows "phrase 1 demo_predicate [a, p, one, star, two, eq, b]"
proof -
  have prim: "phrase 10 (ColumnRef None None ''a'') [a]" "phrase 10 (ColumnRef None None ''b'') [b]"
      "phrase 10 (Literal (VI64 1)) [one]" "phrase 10 (Literal (VI64 2)) [two]"
    using column [of a] column [of b] assms by (auto intro: integer)
  have times: "phrase 7 (BinaryExpr MUL (Literal (VI64 1)) (Literal (VI64 2))) ([one] @ star # [two])"
    by (rule left_assoc [OF _ phrase_operand [OF prim(3)] phrase_operand [OF prim(4)]])
      (use assms in \<open>simp_all add: operators_def\<close>)
  have plus: "phrase 6 (BinaryExpr ADD (ColumnRef None None ''a'') (BinaryExpr MUL (Literal (VI64 1)) (Literal (VI64 2))))
      ([a] @ p # [one] @ star # [two])"
    by (rule left_assoc [OF _ phrase_operand [OF prim(1)]]) (use assms times in \<open>simp_all add: operators_def\<close>)
  have "phrase 4 demo_predicate (([a] @ p # [one] @ star # [two]) @ eq # [b])"
    unfolding demo_predicate_def
    by (rule left_assoc [OF _ phrase_lower [OF plus] phrase_operand [OF prim(2)]])
      (use assms in \<open>simp_all add: operators_def\<close>)
  then show ?thesis by (auto intro: phrase_lower [where n = 4])
qed

theorem grammar_is_parsed_witness:
  "parse_tokens (lr_tokens (tokenize ''DELETE FROM t WHERE a + 1 * 2 = b''))
    = Inr (StmtDelete \<lparr>del_table = ''t'', del_schema = None, del_where = Some demo_predicate\<rparr>)"
proof -
  let ?sql = "''DELETE FROM t WHERE a + 1 * 2 = b''"
  let ?ts = "lr_tokens (tokenize ?sql)"
  have ts: "map tk_kind ?ts = [Ddl KW_DELETE, Clause KW_FROM, IDENT, Clause KW_WHERE, IDENT, Op OP_PLUS, Lit LIT_INTEGER, Op OP_STAR,
         Lit LIT_INTEGER, Op OP_EQ, IDENT, END_OF_FILE]
    \<and> lexeme (?ts ! 2) = ''t'' \<and> lexeme (?ts ! 4) = ''a'' \<and> lexeme (?ts ! 10) = ''b''
    \<and> intValue (?ts ! 6) = Inr 1 \<and> intValue (?ts ! 8) = Inr 2"
    by code_simp
  then obtain d f n w a p one star two eq b e where l: "?ts = [d, f, n, w, a, p, one, star, two, eq, b, e]"
    by (auto simp: map_eq_Cons_conv)
  have "phrase 1 demo_predicate [a, p, one, star, two, eq, b]"
    by (rule demo_phrase) (use ts in \<open>simp_all add: l\<close>)
  then have "clause (Clause KW_WHERE) (phrase 1) (Some demo_predicate) [w, a, p, one, star, two, eq, b]"
    using ts by (simp add: l possibly_def after_def)
  moreover have "table_name (None, ''t'') [n]" using name_plain [of n] ts by (simp add: l)
  ultimately have "statement (StmtDelete \<lparr>del_table = ''t'', del_schema = None, del_where = Some demo_predicate\<rparr>)
      (d # f # [n] @ [w, a, p, one, star, two, eq, b])"
    by (intro delete_stmt) (use ts in \<open>simp_all add: l\<close>)
  then show ?thesis
    by (rule grammar_is_parsed [where b = False and sc = "[]" and e = e]) (simp_all add: word_def l)
qed

end
