(* ===== verification/Spec2Isabelle.thy ===== *)
theory Spec2Isabelle
  imports LQ_CApi LQ_Shell LQ_FastAgree LQ_Reopen LQ_StmtGrammar LQ_AstPrint
begin

text \<open>
  LiteQuery: an in-memory SQL engine in C++ (\<open>src/src\<close>, \<open>src/include\<close>, \<open>src/tools\<close>), modelled from
  the text of a query to the bytes of a database file.

  \<^bold>\<open>The program.\<close> A client opens a connection, through the C++ class \<open>Connection\<close>, the C functions
  \<open>lq_*\<close> or the shell. A query is lexed and parsed to a statement. A SELECT is compiled to a tree
  of operators, which is pulled batch by batch; queries of the shape \<open>[key,] AGG(col), ...\<close> over
  one table take a second implementation that loops over the typed column buffers. The other statements
  read and rewrite the tables of the catalog. A database is saved to and loaded from a binary
  file, and a table is imported from CSV text.

  \<^bold>\<open>Theories, in the order of their imports, and what they model.\<close>

  \<^item> \<open>LQ_Prelude\<close>, \<open>LQ_Text\<close>: exceptions as values, the bind of computations that may throw,
    bytes and strings, the contract \<open>append_store\<close> of everything that rows are appended to.
  \<^item> \<open>LQ_Float\<close>, \<open>LQ_Decimal\<close>: \<open>double\<close> as its 64 bits with IEEE-754 arithmetic; \<open>from_chars\<close>, \<open>stod\<close>
    and \<open>to_string\<close> of the C++ library.
  \<^item> \<open>LQ_Types\<close> (\<open>types.h\<close>), \<open>LQ_Column\<close> (\<open>storage/column.h\<close>), \<open>LQ_Table\<close> (\<open>storage/table.h\<close>),
    \<open>LQ_Catalog\<close> (\<open>catalog/catalog.h\<close>): values and schemas, the validity bitmap and the typed buffers,
    tables, the registry of tables. Each class is a record, each method a definition of its name
    that returns the object it leaves behind.
  \<^item> \<open>LQ_Ast\<close>, \<open>LQ_AstPrint\<close> (\<open>parser/ast.h\<close>): the syntax tree and its debug printer.
  \<^item> \<open>LQ_Lexer\<close> and \<open>LQ_LexProps\<close> (\<open>parser/lexer.h\<close>, \<open>lexer.cpp\<close>): every scanner and \<open>tokenize\<close>, and
    the lemmas on it.
  \<^item> \<open>LQ_Parser\<close> and \<open>LQ_ParseTotal\<close> (\<open>parser/parser.h\<close>, \<open>parser.cpp\<close>): every parse method, and the proof
    that parsing terminates.
  \<^item> \<open>LQ_Grammar\<close>, \<open>LQ_StmtGrammar\<close>: the SQL grammar, stratified by the precedence table of
    \<open>docs/sql-reference.md\<close>, as inductive predicates on tokens and trees with an operator table of their
    own, and the proof that the parser reads what the grammar derives.
  \<^item> \<open>LQ_Eval\<close> (\<open>execution/eval.cpp\<close>): the scalar evaluator, its functions, LIKE, three-valued logic.
  \<^item> \<open>LQ_RowOps\<close>, \<open>LQ_Exec\<close>, \<open>LQ_Deliver\<close> (\<open>execution/physical_plan.h\<close>, \<open>physical_plan.cpp\<close>): sorting,
    DISTINCT, aggregation and joins on rows; the operators with their cursors and buffers; the
    proof that pulling batches delivers what an operator means.
  \<^item> \<open>LQ_FastAgg\<close> (\<open>execution/fast_aggregate.cpp\<close>): the typed aggregate loop.
  \<^item> \<open>LQ_Plan\<close>, \<open>LQ_Statement\<close>, \<open>LQ_Connection\<close> (\<open>api/connection.h\<close>, \<open>connection.cpp\<close>): the query
    builder, the statement handlers, the public entry points.
  \<^item> \<open>LQ_FastEq\<close>, \<open>LQ_FastAgree\<close>: the two implementations of aggregate queries side by side.
  \<^item> \<open>LQ_Persist\<close> (\<open>storage/persistence.cpp\<close>), \<open>LQ_Csv\<close> (\<open>storage/csv_reader.cpp\<close>): the database file and
    the CSV reader, with the CSV writer of the shell.
  \<^item> \<open>LQ_Reopen\<close>: the calls of a client on a connection, and catalogs that no call can tell apart.
  \<^item> \<open>LQ_CApi\<close> (\<open>api/c_api.cpp\<close>, \<open>litequery.h\<close>), \<open>LQ_Shell\<close> (\<open>tools/lq_shell.cpp\<close>): the C interface with
    its result cursor; the shell with its statement buffer and output modes.

  \<^bold>\<open>Conventions.\<close> A function that may throw returns \<open>error + 'a\<close>; one that may throw after it has
  changed an object returns the object as well. \<open>Undefined\<close> is undefined behaviour of C++ (signed
  overflow, a read beyond a buffer, an out-of-range cast). Integers keep their width as words; sizes
  and counters are \<open>nat\<close>. \<open>std::pow\<close> is the argument \<open>pw\<close> of every definition that reaches it, because no
  standard fixes its result.

  \<^bold>\<open>Bounds.\<close> \<open>next_batch\<close> takes fuel for the calls of \<open>next\<close>: \<open>drain_delivers_pending\<close> proves that
  enough fuel exists for every plan with defined rows, and that more changes nothing. \<open>parsers_at\<close>
  takes a depth of nested calls: \<open>parser_terminates\<close> proves that four times the number of tokens
  and one more suffices on every text, and that more changes nothing. A shell script that reads
  scripts is followed to a given depth, because it may read itself. Every other loop of the code is a
  structural recursion, or a \<open>function\<close> with its measure.

  \<^bold>\<open>Interfaces.\<close> \<open>append_store\<close> (bitmaps, columns, tables and batches: appending adds one element to
  the abstract contents), \<open>registry\<close> (the catalog is a finite map), \<open>strict_weak\<close> (what a
  comparator owes to a stable sort), \<open>row_source\<close> (an operator delivers its pending rows), \<open>codec\<close>
  (a reader returns what the writer wrote and reads no further), \<open>parsers_within\<close> and
  \<open>parsers_below\<close> (what a parse method may rely on). Each is interpreted on the model's own definitions in
  the theory of its provider.

  \<^bold>\<open>What is proved.\<close>

  \<^item> Queries: a plan delivers its abstract rows whatever the batches; the built plans are
    well-formed; the two aggregate implementations agree where their arithmetic does; ORDER BY, joins,
    grouping, aggregates and DISTINCT meet their relational meaning, the order of ORDER BY being written
    out apart from the comparator.
  \<^item> Expressions: three-valued logic, IN and (where it evaluates) BETWEEN as what they abbreviate, LIKE
    against its declarative meaning, integer expressions against the integers of mathematics.
  \<^item> Statements: what INSERT, UPDATE and DELETE do to the rows of their table, that they leave all
    others alone, what a failed statement leaves behind, and the invariant of every catalog a client
    can reach.
  \<^item> Text: lexing loses nothing, literals are read back, the parser terminates without undefined
    behaviour and gives every text of the grammar its tree, and a bad text is answered with an error
    result.
  \<^item> Files: a database that was saved and loaded again answers every sequence of calls as before; round
    trips of the database file, of CSV and of JSON strings (with a strict reader); a rectangular CSV text
    becomes a table of the documented types; truncated files are refused.
  \<^item> All of it: texts that spell an INSERT and then a SELECT are answered with the old rows and the new
    ones (\<open>written_rows_are_read\<close>, below).
  \<^item> Clients: the result cursor stays in range, and the loop over a result ends after all of its rows.

  \<^bold>\<open>Where the code and its documents differ.\<close> The properties keep to what both say: no derived text has
  a postfix form over an operator of levels 5 to 8, loads are into catalogs without further tables or into empty
  ones, imported texts are rectangular, JSON texts have no control character that the shell leaves
  as it is. What the code does beyond is stated by lemmas (\<open>postfix_binds_tighter\<close>,
  \<open>load_keeps_earlier_tables\<close>, \<open>limited_inference_reads_uninitialised\<close>,
  \<open>json_control_character_refused\<close>, \<open>not_between_null_bound\<close>).

  \<^bold>\<open>Not modelled.\<close> Locks and threads (each operation is one step), the clock, memory (allocation
  succeeds, nothing is freed), the bindings for other languages, benchmarks, examples and tests, the
  vendored SQLite headers and the build files. Files are their bytes, and what the environment
  decides about them is an argument. Source locations are kept only where the code compares the
  address of a node. Of the modelled files nothing is left but capacity hints (\<open>reserve\<close>), exception
  classes that nothing throws (\<open>TypeError\<close>, \<open>CastError\<close>) and methods that nothing calls (\<open>matchStr\<close>,
  \<open>setSkipComments\<close>, \<open>parseCast\<close>).
\<close>

section \<open>From text to rows\<close>

text \<open>\<open>sql\<close> spells a statement: it has no lexical error and its tokens derive the statement.\<close>

definition spells :: "string \<Rightarrow> stmt \<Rightarrow> bool" where
  "spells sql st = (lex_ok (tokenize sql) \<and> (\<exists>ts b sc e. lr_tokens (tokenize sql) = ts @ sc @ [e]
     \<and> word (Punct SEMICOLON) b sc \<and> statement st ts))"

lemma spelled_query:
  assumes "spells sql st" "runStatement pw fuel st c = (c', Inr r)"
  shows "query pw fuel sql c = (c', Inr r)"
proof -
  from assms(1) obtain ts b sc e where sql: "lr_tokens (tokenize sql) = ts @ sc @ [e]"
    "word (Punct SEMICOLON) b sc" "statement st ts" by (auto simp: spells_def)
  have "parse_tokens (lr_tokens (tokenize sql)) = Inr st"
    using statement_parsed [OF sql(3,2)] wf_tokenize [of sql] sql(1) by simp
  with assms show ?thesis by (simp add: query_def Let_def spells_def caught_def)
qed

text \<open>
  C2: what is written is read: a text that spells an INSERT of rows and then a text that spells
  \<open>SELECT * FROM n\<close>, with or without a condition, are answered with the number of the rows and with
  the old rows followed by the new ones, as far as the condition holds on them.
\<close>

theorem written_rows_are_read:
  assumes "wf_catalog c" "cat_get c n = Some t"
    and "col_positions (t_schema t) cols = Inr ps" "distinct ps"
    and "\<forall>es \<in> set rows. cols \<noteq> [] \<longrightarrow> length es = length cols"
    and "rmapM (inserted_row pw (t_schema t) ps) rows = Inr new"
    and "rfilter (where_holds pw (t_schema t) w) (table_rows t @ new) = Inr rs"
    and "spells ins (StmtInsert \<lparr>ins_table = n, ins_schema = q, ins_columns = cols, ins_source = InsertValues rows\<rparr>)"
    and "spells sel (StmtSelect (star_of n w))"
  shows "\<exists>k. \<forall>fuel \<ge> k. answers pw fuel [CallQuery ins, CallQuery sel] c
    = [Inl (Inr (empty_result\<lparr>rowsAffected := length rows\<rparr>)),
       Inl (Inr (empty_result\<lparr>qr_schema := t_schema t, qr_rows := rs\<rparr>))]"
proof -
  let ?ins = "\<lparr>ins_table = n, ins_schema = q, ins_columns = cols, ins_source = InsertValues rows\<rparr>"
  from runInsert_values [OF assms(1-6), of 0 q] obtain c' t' where
    c': "runInsert pw 0 ?ins c = (c', Inr (empty_result\<lparr>rowsAffected := length rows\<rparr>))"
      "cat_get c' = (cat_get c)(n \<mapsto> t')" "table_rows t' = table_rows t @ new" "t_schema t' = t_schema t" "wf_catalog c'"
    by blast
  have "runInsert pw fuel ?ins c = runInsert pw 0 ?ins c" for fuel
    using assms(2) by (auto simp: runInsert_def getTable_def split: sum.split)
  then have i: "query pw fuel ins c = (c', Inr (empty_result\<lparr>rowsAffected := length rows\<rparr>))" for fuel
    using c'(1) by (intro spelled_query [OF assms(8)]) simp
  from star_selects [OF c'(5), of n t' pw w rs] c' assms(7) obtain k where
    "\<forall>fuel \<ge> k. runSelect pw fuel c' (star_of n w) = Inr (empty_result\<lparr>qr_schema := t_schema t, qr_rows := rs\<rparr>)" by auto
  then have "\<forall>fuel \<ge> k. query pw fuel sel c' = (c', Inr (empty_result\<lparr>qr_schema := t_schema t, qr_rows := rs\<rparr>))"
    by (auto intro: spelled_query [OF assms(9)])
  with i have "\<forall>fuel \<ge> k. answers pw fuel [CallQuery ins, CallQuery sel] c
    = [Inl (Inr (empty_result\<lparr>rowsAffected := length rows\<rparr>)),
       Inl (Inr (empty_result\<lparr>qr_schema := t_schema t, qr_rows := rs\<rparr>))]" by (simp add: client_step_def)
  then show ?thesis by (rule exI)
qed

text \<open>On the table of \<open>demo_shop\<close>.\<close>

definition demo_insert :: string where
  "demo_insert = ''INSERT INTO t VALUES (3, NULL);''"

definition demo_select :: string where
  "demo_select = ''SELECT * FROM t''"

lemma spells_demo_insert:
  "spells demo_insert (StmtInsert \<lparr>ins_table = ''t'', ins_schema = None, ins_columns = [],
     ins_source = InsertValues [[Literal (VI64 3), Literal VNull]]\<rparr>)"
proof -
  let ?ts = "lr_tokens (tokenize demo_insert)"
  have ts: "lex_ok (tokenize demo_insert) \<and> map tk_kind ?ts = [Ddl KW_INSERT, Ddl KW_INTO, IDENT, Ddl KW_VALUES, Punct LPAREN,
      Lit LIT_INTEGER, Punct COMMA, Lit LIT_NULL, Punct RPAREN, Punct SEMICOLON, END_OF_FILE]
    \<and> lexeme (?ts ! 2) = ''t'' \<and> intValue (?ts ! 5) = Inr 3"
    unfolding demo_insert_def by code_simp
  then obtain i o1 n v l x c u r s e where l: "?ts = [i, o1, n, v, l, x, c, u, r, s, e]"
    by (auto simp: map_eq_Cons_conv)
  have "separated (phrase 1) [Literal (VI64 3), Literal VNull] ([x] @ c # [u])"
    by (rule separated_more, rule phrase_operand [OF integer])
      (use ts in \<open>simp_all add: l separated_single phrase_operand [OF null]\<close>)
  then have row: "enclosed (none_or (separated (phrase 1))) [Literal (VI64 3), Literal VNull] [l, x, c, u, r]"
    using ts by (simp add: l enclosed_def none_or_def)
  have "source_of (InsertValues [[Literal (VI64 3), Literal VNull]]) [v, l, x, c, u, r]"
    by (rule source_values) (use ts row in \<open>simp_all add: l separated_single\<close>)
  moreover have "table_name (None, ''t'') [n]" using name_plain [of n] ts by (simp add: l)
  ultimately have "statement (StmtInsert \<lparr>ins_table = ''t'', ins_schema = None, ins_columns = [],
     ins_source = InsertValues [[Literal (VI64 3), Literal VNull]]\<rparr>) (i # o1 # [n] @ [] @ [v, l, x, c, u, r])"
    by (intro insert_stmt) (use ts in \<open>simp_all add: l none_or_def\<close>)
  then have "statement (StmtInsert \<lparr>ins_table = ''t'', ins_schema = None, ins_columns = [],
     ins_source = InsertValues [[Literal (VI64 3), Literal VNull]]\<rparr>) [i, o1, n, v, l, x, c, u, r]" by simp
  moreover have "word (Punct SEMICOLON) True [s]" "?ts = [i, o1, n, v, l, x, c, u, r] @ [s] @ [e]"
    using ts by (simp_all add: l word_def)
  ultimately show ?thesis unfolding spells_def using ts by blast
qed

lemma spells_demo_select: "spells demo_select (StmtSelect (star_of ''t'' None))"
proof -
  let ?ts = "lr_tokens (tokenize demo_select)"
  have ts: "lex_ok (tokenize demo_select) \<and> map tk_kind ?ts = [Clause KW_SELECT, Op OP_STAR, Clause KW_FROM, IDENT, END_OF_FILE]
    \<and> lexeme (?ts ! 3) = ''t''"
    unfolding demo_select_def by code_simp
  then obtain s x f n e where l: "?ts = [s, x, f, n, e]" by (auto simp: map_eq_Cons_conv)
  have "joined (TableRef None ''t'') [n]"
    using join_one [OF source_plain [OF base_name [of n]]] ts by (simp add: l)
  then have frm: "clause (Clause KW_FROM) (separated joined) (Some [TableRef None ''t'']) [f, n]"
    using ts by (simp add: l possibly_def after_def separated_one)
  have items: "separated (item (phrase 1)) [(ColumnRef None None ''*'', None)] [x]"
    using ts by (intro separated_one item_star) (simp add: l)
  have no: "clause k R None []" for k and R :: "'a \<Rightarrow> token list \<Rightarrow> bool" by (simp add: possibly_def)
  have "query_of (star_of ''t'' None) (s # [] @ [] @ [x] @ [f, n] @ [] @ [] @ [] @ [] @ [] @ [])"
    unfolding star_of_def
    by (rule select [OF _ _ _ _ items frm no no no no no no, of s False "[]" "[]" False]) (use ts in \<open>simp_all add: l word_def\<close>)
  then have "statement (StmtSelect (star_of ''t'' None)) [s, x, f, n]" by (simp add: select_stmt)
  moreover have "word (Punct SEMICOLON) False []" "?ts = [s, x, f, n] @ [] @ [e]" by (simp_all add: l word_def)
  ultimately show ?thesis unfolding spells_def using ts by blast
qed

theorem written_rows_are_read_witness:
  "\<exists>k. \<forall>fuel \<ge> k. answers demo_pw fuel [CallQuery demo_insert, CallQuery demo_select] demo_shop
    = [Inl (Inr (empty_result\<lparr>rowsAffected := 1\<rparr>)),
       Inl (Inr (empty_result\<lparr>qr_schema := t_schema demo_table, qr_rows := [[VI32 3, VNull]]\<rparr>))]"
proof -
  have p: "col_positions (t_schema demo_table) [] = Inr []" by simp
  have r: "rmapM (inserted_row demo_pw (t_schema demo_table) []) [[Literal (VI64 3), Literal VNull]] = Inr [[VI32 3, VNull]]"
    by code_simp
  have "table_rows demo_table = []" by (simp add: demo_table_def)
  then have w: "rfilter (where_holds demo_pw (t_schema demo_table) None) (table_rows demo_table @ [[VI32 3, VNull]]) = Inr [[VI32 3, VNull]]"
    by (simp add: where_holds_def)
  from written_rows_are_read [OF demo_shop_facts p _ _ r w spells_demo_insert spells_demo_select] show ?thesis by simp
qed

end
